(* ===== verification/Prelude.thy ===== *)
theory Prelude
  imports Main "HOL-Library.Code_Target_Nat" "HOL-Library.Word" "HOL-Library.AList"
begin

text \<open>
  Shared vocabulary of the development: the widths of the machine integers the Rust code uses,
  the outcome of a call that may panic, the helpers of the Rust standard library that several
  components use (slice indexing, \<^verbatim>\<open>position(Option::is_none)\<close>, checked arithmetic
  on \<^verbatim>\<open>usize\<close>), and the generic facts about them.
\<close>

unbundle bit_operations_syntax

section \<open>Types\<close>

type_synonym u8 = "8 word"
type_synonym u16 = "16 word"
type_synonym u32 = "32 word"
type_synonym u64 = "64 word"

text \<open>
  A Rust call either panics or returns. \<^verbatim>\<open>unwrap\<close> on \<^verbatim>\<open>None\<close>, a failed
  \<^verbatim>\<open>assert!\<close>, an index out of range and \<^verbatim>\<open>unreachable!\<close> are \<open>Panic\<close>.
\<close>

datatype 'a outcome = Panic | Done 'a

primrec obind :: "'a outcome \<Rightarrow> ('a \<Rightarrow> 'b outcome) \<Rightarrow> 'b outcome" where
  "obind Panic f = Panic"
| "obind (Done x) f = f x"

definition assert_that :: "bool \<Rightarrow> 'a outcome \<Rightarrow> 'a outcome" where
  "assert_that b k = (if b then k else Panic)"

definition unwrap :: "'a option \<Rightarrow> 'a outcome" where
  "unwrap x = (case x of None \<Rightarrow> Panic | Some v \<Rightarrow> Done v)"

section \<open>Machine arithmetic\<close>

text \<open>\<^verbatim>\<open>usize\<close> is 64 bits wide on every target the repository supports.\<close>

abbreviation usize_max :: nat where
  "usize_max \<equiv> 18446744073709551615"

abbreviation u64_max :: nat where
  "u64_max \<equiv> 18446744073709551615"

abbreviation u32_max :: nat where
  "u32_max \<equiv> 4294967295"

abbreviation u16_max :: nat where
  "u16_max \<equiv> 65535"

definition checked_add :: "nat \<Rightarrow> nat \<Rightarrow> nat option" where
  "checked_add a b = (if a + b \<le> usize_max then Some (a + b) else None)"

text \<open>
  Unchecked \<^verbatim>\<open>+\<close> and \<^verbatim>\<open>*\<close> on \<^verbatim>\<open>u32\<close>: a debug build panics on
  overflow, a release build wraps. The flag says which build it is.
\<close>

definition u32_arith :: "bool \<Rightarrow> nat \<Rightarrow> nat outcome" where
  "u32_arith dbg x = (if x \<le> u32_max then Done x else if dbg then Panic else Done (x mod 2 ^ 32))"

section \<open>Slices and vectors\<close>

text \<open>\<^verbatim>\<open>slice.get(i)\<close>: \<open>None\<close> out of range.\<close>

definition slice_get :: "'a list \<Rightarrow> nat \<Rightarrow> 'a option" where
  "slice_get xs i = (if i < length xs then Some (xs ! i) else None)"

text \<open>\<^verbatim>\<open>iter().position(Option::is_none)\<close>, and the length when there is no free slot.\<close>

primrec first_free :: "'a option list \<Rightarrow> nat" where
  "first_free [] = 0"
| "first_free (x # xs) = (case x of None \<Rightarrow> 0 | Some _ \<Rightarrow> Suc (first_free xs))"

text \<open>\<^verbatim>\<open>vec.resize_with(n, || None)\<close> when it grows the vector.\<close>

definition grow_to :: "nat \<Rightarrow> 'a option list \<Rightarrow> 'a option list" where
  "grow_to n xs = xs @ replicate (n - length xs) None"

section \<open>Facts\<close>

lemma obind_eq_Done:
  "obind m f = Done y \<longleftrightarrow> (\<exists>x. m = Done x \<and> f x = Done y)"
  by (cases m) auto

lemma obind_eq_Panic:
  "obind m f = Panic \<longleftrightarrow> m = Panic \<or> (\<exists>x. m = Done x \<and> f x = Panic)"
  by (cases m) auto

lemma assert_that_Done [simp]: "assert_that b k = Done x \<longleftrightarrow> b \<and> k = Done x"
  by (simp add: assert_that_def)

lemma assert_that_True [simp]: "assert_that True k = k"
  by (simp add: assert_that_def)

lemma assert_that_False [simp]: "assert_that False k = Panic"
  by (simp add: assert_that_def)

lemma unwrap_simps [simp]: "unwrap None = Panic" "unwrap (Some v) = Done v"
  by (simp_all add: unwrap_def)

lemma unwrap_eq_Done [simp]: "unwrap x = Done v \<longleftrightarrow> x = Some v"
  by (cases x) simp_all

lemma checked_add_Some [simp]:
  "checked_add a b = Some c \<longleftrightarrow> c = a + b \<and> a + b \<le> usize_max"
  by (auto simp: checked_add_def)

lemma checked_add_None [simp]: "checked_add a b = None \<longleftrightarrow> usize_max < a + b"
  by (auto simp: checked_add_def)

lemma u32_arith_fits [simp]: "x \<le> u32_max \<Longrightarrow> u32_arith dbg x = Done x"
  by (simp add: u32_arith_def)

lemma slice_get_Some [simp]:
  "slice_get xs i = Some x \<longleftrightarrow> i < length xs \<and> xs ! i = x"
  by (auto simp: slice_get_def)

lemma slice_get_None [simp]: "slice_get xs i = None \<longleftrightarrow> length xs \<le> i"
  by (auto simp: slice_get_def)

lemma first_free_le: "first_free xs \<le> length xs"
  by (induction xs) (auto split: option.splits)

lemma first_free_None: "first_free xs < length xs \<Longrightarrow> xs ! first_free xs = None"
  by (induction xs) (auto split: option.splits)

lemma first_free_before: "i < first_free xs \<Longrightarrow> \<exists>x. xs ! i = Some x"
  by (induction xs arbitrary: i) (auto simp: nth_Cons split: option.splits nat.splits)

lemma first_free_full: "first_free xs = length xs \<longleftrightarrow> None \<notin> set xs"
  by (induction xs) (auto split: option.splits)

lemma length_grow_to [simp]: "length (grow_to n xs) = max n (length xs)"
  by (simp add: grow_to_def)

lemma nth_grow_to:
  "i < max n (length xs) \<Longrightarrow> grow_to n xs ! i = (if i < length xs then xs ! i else None)"
  by (auto simp: grow_to_def nth_append)

lemma slice_get_grow_to:
  "slice_get (grow_to n xs) i
     = (if i < length xs then Some (xs ! i) else if i < n then Some None else None)"
  by (auto simp: slice_get_def nth_grow_to)

subsection \<open>List.find\<close>

lemma find_append:
  "List.find P (xs @ ys) = (case List.find P xs of None \<Rightarrow> List.find P ys | Some x \<Rightarrow> Some x)"
  by (induction xs) auto

lemma find_SomeD: "List.find P xs = Some x \<Longrightarrow> x \<in> set xs \<and> P x"
  by (induction xs) (auto split: if_splits)

lemma find_filter: "List.find P (filter Q xs) = List.find (\<lambda>x. Q x \<and> P x) xs"
  by (induction xs) auto

lemma find_cong_on: "(\<And>x. x \<in> set xs \<Longrightarrow> P x = Q x) \<Longrightarrow> List.find P xs = List.find Q xs"
  by (induction xs) auto

lemma find_map: "List.find P (map f xs) = map_option f (List.find (\<lambda>x. P (f x)) xs)"
  by (induction xs) auto

lemma find_upt_Some:
  "List.find P [a..<b] = Some i \<longleftrightarrow> a \<le> i \<and> i < b \<and> P i \<and> (\<forall>j. a \<le> j \<and> j < i \<longrightarrow> \<not> P j)"
proof (induction "b - a" arbitrary: a)
  case 0
  then show ?case by auto
next
  case (Suc n)
  then have less: "a < b" and IH: "List.find P [Suc a..<b] = Some i \<longleftrightarrow>
      Suc a \<le> i \<and> i < b \<and> P i \<and> (\<forall>j. Suc a \<le> j \<and> j < i \<longrightarrow> \<not> P j)"
    by auto
  have "[a..<b] = a # [Suc a..<b]"
    using less by (simp add: upt_conv_Cons)
  then show ?case
    using less IH by (auto simp: less_Suc_eq_le dest: le_neq_implies_less)
qed

end
