(* ===== verification/ArrayIndexMap.thy ===== *)
theory ArrayIndexMap
  imports Prelude
begin

text \<open>
  A map from indices with generations to values, \<^verbatim>\<open>litebox/src/utilities/array_index_map.rs\<close>. The capacity is the length
  of the storage. A slot that has used up its generations is never filled again; the search for a free slot goes round
  until it finds one, and for ever when there is none.
\<close>

section \<open>The map\<close>

record aim_index =
  generation :: nat
  idx :: nat

datatype 'a aim_slot = Filled nat 'a | Unfilled nat

record 'a array_index_map =
  storage :: "'a aim_slot list"
  next_free_slot :: nat

definition aim_new :: "nat \<Rightarrow> 'a array_index_map" where
  "aim_new capacity = \<lparr>storage = replicate capacity (Unfilled 1), next_free_slot = 0\<rparr>"

text \<open>The loop of \<^verbatim>\<open>insert\<close>.\<close>

partial_function (option) aim_scan :: "'a array_index_map \<Rightarrow> (nat \<times> nat \<times> 'a array_index_map) option" where
  "aim_scan m =
     (let i = next_free_slot m;
          m = m\<lparr>next_free_slot := (i + 1) mod length (storage m)\<rparr> in
      case storage m ! i of
        Filled _ _ \<Rightarrow> aim_scan m
      | Unfilled g \<Rightarrow> if g = u32_max then aim_scan m else Some (g, i, m))"

definition aim_insert :: "'a \<Rightarrow> 'a array_index_map \<Rightarrow> (aim_index \<times> 'a array_index_map) outcome option" where
  "aim_insert v m =
     (if storage m = [] then Some Panic
      else case aim_scan m of
             None \<Rightarrow> None
           | Some (g, i, m) \<Rightarrow>
               Some (if i \<le> u32_max
                     then Done (\<lparr>generation = g, idx = i\<rparr>, m\<lparr>storage := (storage m)[i := Filled g v]\<rparr>)
                     else Panic))"

definition aim_get :: "aim_index \<Rightarrow> 'a array_index_map \<Rightarrow> 'a option outcome" where
  "aim_get ix m =
     (case slice_get (storage m) (idx ix) of
        None \<Rightarrow> Panic
      | Some (Unfilled _) \<Rightarrow> Done None
      | Some (Filled g v) \<Rightarrow> Done (if g \<noteq> generation ix then None else Some v))"

definition aim_get_mut :: "aim_index \<Rightarrow> ('a \<Rightarrow> 'a) \<Rightarrow> 'a array_index_map \<Rightarrow> (bool \<times> 'a array_index_map) outcome" where
  "aim_get_mut ix f m =
     (case slice_get (storage m) (idx ix) of
        None \<Rightarrow> Panic
      | Some (Unfilled _) \<Rightarrow> Done (False, m)
      | Some (Filled g v) \<Rightarrow>
          Done (if g \<noteq> generation ix then (False, m) else (True, m\<lparr>storage := (storage m)[idx ix := Filled g (f v)]\<rparr>)))"

definition aim_remove :: "aim_index \<Rightarrow> 'a array_index_map \<Rightarrow> ('a option \<times> 'a array_index_map) outcome" where
  "aim_remove ix m =
     obind (aim_get ix m) (\<lambda>r.
       case r of
         None \<Rightarrow> Done (None, m)
       | Some v \<Rightarrow>
           if generation ix = u32_max then Panic
           else Done (Some v, m\<lparr>storage := (storage m)[idx ix := Unfilled (generation ix + 1)]\<rparr>))"

definition aim_index_op :: "aim_index \<Rightarrow> 'a array_index_map \<Rightarrow> 'a outcome" where
  "aim_index_op ix m = obind (aim_get ix m) (\<lambda>r. case r of Some v \<Rightarrow> Done v | None \<Rightarrow> Panic)"

definition aim_index_mut :: "aim_index \<Rightarrow> ('a \<Rightarrow> 'a) \<Rightarrow> 'a array_index_map \<Rightarrow> 'a array_index_map outcome" where
  "aim_index_mut ix f m = obind (aim_get_mut ix f m) (\<lambda>(found, m). if found then Done m else Panic)"

section \<open>The search for a slot\<close>

fun usable :: "'a aim_slot \<Rightarrow> bool" where
  "usable (Filled _ _) = False"
| "usable (Unfilled g) = (g \<noteq> u32_max)"

lemma aim_scan_step:
  "aim_scan m =
     (let i = next_free_slot m; m' = m\<lparr>next_free_slot := (i + 1) mod length (storage m)\<rparr> in
      case storage m ! i of Unfilled g \<Rightarrow> if g \<noteq> u32_max then Some (g, i, m') else aim_scan m' | _ \<Rightarrow> aim_scan m')"
  by (subst aim_scan.simps) (simp add: Let_def split: aim_slot.split)

lemma next_slot: "next_free_slot m < length (storage m) \<Longrightarrow> Suc k mod length (storage m) < length (storage m)"
  by (rule mod_less_divisor) linarith

lemma aim_scan_found:
  assumes "aim_scan m = Some (g, i, m')"
  shows "storage m' = storage m \<and> storage m ! i = Unfilled g \<and> g \<noteq> u32_max \<and>
    (next_free_slot m < length (storage m) \<longrightarrow> i < length (storage m) \<and> next_free_slot m' < length (storage m))"
proof -
  have "case y of (g, i, m') \<Rightarrow> storage m' = storage m \<and> storage m ! i = Unfilled g \<and> g \<noteq> u32_max \<and>
      (next_free_slot m < length (storage m) \<longrightarrow> i < length (storage m) \<and> next_free_slot m' < length (storage m))"
    if "aim_scan m = Some y" for y
  proof (rule aim_scan.raw_induct [OF _ that])
    fix scan :: "'a array_index_map \<Rightarrow> (nat \<times> nat \<times> 'a array_index_map) option" and m y
    assume ih: "\<And>m y. scan m = Some y \<Longrightarrow> case y of (g, i, m') \<Rightarrow> storage m' = storage m \<and> storage m ! i = Unfilled g \<and> g \<noteq> u32_max \<and>
        (next_free_slot m < length (storage m) \<longrightarrow> i < length (storage m) \<and> next_free_slot m' < length (storage m))"
      and e: "(let i = next_free_slot m; m = m\<lparr>next_free_slot := (i + 1) mod length (storage m)\<rparr> in
        case storage m ! i of Filled _ _ \<Rightarrow> scan m | Unfilled g \<Rightarrow> if g = u32_max then scan m else Some (g, i, m)) = Some y"
    show "case y of (g, i, m') \<Rightarrow> storage m' = storage m \<and> storage m ! i = Unfilled g \<and> g \<noteq> u32_max \<and>
        (next_free_slot m < length (storage m) \<longrightarrow> i < length (storage m) \<and> next_free_slot m' < length (storage m))"
      using e ih [of "m\<lparr>next_free_slot := Suc (next_free_slot m) mod length (storage m)\<rparr>" y]
      next_slot [of m "next_free_slot m"]
      by (auto simp: Let_def split: aim_slot.splits if_splits)
  qed
  from this [OF assms] show ?thesis by simp
qed

text \<open>The slots from the next one on, round the storage.\<close>

lemma aim_scan_finds:
  assumes "next_free_slot m < length (storage m)" and "d < length (storage m)"
    and "usable (storage m ! ((next_free_slot m + d) mod length (storage m)))"
  shows "\<exists>y. aim_scan m = Some y"
  using assms
proof (induction d arbitrary: m)
  case 0
  then show ?case by (subst aim_scan_step) (auto simp: Let_def split: aim_slot.splits)
next
  case (Suc d)
  let ?m = "m\<lparr>next_free_slot := (next_free_slot m + 1) mod length (storage m)\<rparr>"
  have "(next_free_slot ?m + d) mod length (storage ?m) = (next_free_slot m + Suc d) mod length (storage m)"
    by (simp add: mod_add_left_eq)
  then have "\<exists>y. aim_scan ?m = Some y" using Suc next_slot [of m "next_free_slot m"] by (intro Suc.IH) auto
  then show ?case by (subst aim_scan_step) (auto simp: Let_def split: aim_slot.splits)
qed

lemma aim_scan_returns:
  assumes "next_free_slot m < length (storage m)"
  shows "(\<exists>y. aim_scan m = Some y) \<longleftrightarrow> (\<exists>s \<in> set (storage m). usable s)"
proof
  assume "\<exists>y. aim_scan m = Some y"
  then obtain g i m' where "aim_scan m = Some (g, i, m')" by auto
  from aim_scan_found [OF this] assms have "i < length (storage m)" "usable (storage m ! i)" by auto
  then show "\<exists>s \<in> set (storage m). usable s" by (auto intro: nth_mem)
next
  assume "\<exists>s \<in> set (storage m). usable s"
  then obtain j where j: "j < length (storage m)" "usable (storage m ! j)" by (auto simp: in_set_conv_nth)
  let ?n = "length (storage m)" and ?i = "next_free_slot m"
  let ?d = "(j + (?n - ?i)) mod ?n"
  have "(?i + ?d) mod ?n = (?i + (j + (?n - ?i))) mod ?n" by (simp add: mod_add_right_eq)
  also have "?i + (j + (?n - ?i)) = j + ?n" using assms by simp
  finally have "(?i + ?d) mod ?n = j" using j by simp
  moreover have "?d < ?n" using assms by (intro mod_less_divisor) linarith
  ultimately show "\<exists>y. aim_scan m = Some y" using aim_scan_finds [OF assms, of ?d] j by simp
qed


section \<open>Runs\<close>

text \<open>What the map says of an index.\<close>

definition aim_lookup :: "'a array_index_map \<Rightarrow> aim_index \<Rightarrow> 'a option" where
  "aim_lookup m ix =
     (case slice_get (storage m) (idx ix) of
        Some (Filled g v) \<Rightarrow> if g = generation ix then Some v else None
      | _ \<Rightarrow> None)"

text \<open>Of the indices handed out, a filled slot has at most the newest one, and an unfilled one has none.\<close>

fun slot_ok :: "aim_index set \<Rightarrow> nat \<Rightarrow> 'a aim_slot \<Rightarrow> bool" where
  "slot_ok H i (Filled g v) \<longleftrightarrow> g < u32_max \<and> (\<forall>ix \<in> H. idx ix = i \<longrightarrow> generation ix \<le> g)"
| "slot_ok H i (Unfilled g) \<longleftrightarrow> g \<le> u32_max \<and> (\<forall>ix \<in> H. idx ix = i \<longrightarrow> generation ix < g)"

definition aim_ok :: "aim_index set \<Rightarrow> 'a array_index_map \<Rightarrow> bool" where
  "aim_ok H m \<longleftrightarrow>
     next_free_slot m < length (storage m) \<and> (\<forall>ix \<in> H. idx ix < length (storage m)) \<and>
     (\<forall>i < length (storage m). slot_ok H i (storage m ! i))"

text \<open>An index is used with the map that handed it out.\<close>

inductive aim_reach :: "aim_index set \<Rightarrow> 'a array_index_map \<Rightarrow> bool" where
  start: "0 < n \<Longrightarrow> aim_reach {} (aim_new n)"
| insert: "aim_reach H m \<Longrightarrow> aim_insert v m = Some (Done (ix, m')) \<Longrightarrow> aim_reach (insert ix H) m'"
| remove: "aim_reach H m \<Longrightarrow> ix \<in> H \<Longrightarrow> aim_remove ix m = Done (r, m') \<Longrightarrow> aim_reach H m'"
| update: "aim_reach H m \<Longrightarrow> ix \<in> H \<Longrightarrow> aim_get_mut ix f m = Done (b, m') \<Longrightarrow> aim_reach H m'"

lemma aim_insert_spec:
  assumes ok: "aim_ok H m" and e: "aim_insert v m = Some (Done (ix, m'))"
  shows "ix \<notin> H" and "aim_lookup m' jx = (if jx = ix then Some v else aim_lookup m jx)" and "aim_ok (insert ix H) m'"
proof -
  obtain m1 where s: "aim_scan m = Some (generation ix, idx ix, m1)"
    and m': "m' = m1\<lparr>storage := (storage m1)[idx ix := Filled (generation ix) v]\<rparr>"
    using e by (auto simp: aim_insert_def split: if_splits option.splits)
  from aim_scan_found [OF s] ok have f: "storage m1 = storage m" "storage m ! idx ix = Unfilled (generation ix)" "generation ix \<noteq> u32_max"
    "idx ix < length (storage m)" "next_free_slot m1 < length (storage m)" by (auto simp: aim_ok_def)
  with ok have o: "slot_ok H (idx ix) (Unfilled (generation ix) :: 'a aim_slot)" unfolding aim_ok_def by metis
  then show "ix \<notin> H" by auto
  show "aim_lookup m' jx = (if jx = ix then Some v else aim_lookup m jx)"
    using f by (cases "idx jx = idx ix") (auto simp: aim_lookup_def m' slice_get_def)
  have "slot_ok (insert ix H) i (storage m' ! i)" if "i < length (storage m')" for i
  proof (cases "i = idx ix")
    case True
    then show ?thesis using f o by (auto simp: m')
  next
    case False
    then have "slot_ok H i (storage m ! i)" using ok that f by (simp add: aim_ok_def m')
    then show ?thesis using False f by (cases "storage m ! i") (auto simp: m')
  qed
  then show "aim_ok (insert ix H) m'" using f ok by (auto simp: aim_ok_def m')
qed

lemma aim_remove_spec:
  assumes ok: "aim_ok H m" and ix: "ix \<in> H"
  shows "\<exists>m'. aim_remove ix m = Done (aim_lookup m ix, m') \<and> aim_ok H m' \<and>
    (\<forall>jx. aim_lookup m' jx = (if jx = ix then None else aim_lookup m jx))"
proof (cases "aim_lookup m ix")
  case None
  then have "aim_remove ix m = Done (None, m)" using ok ix
    by (auto simp: aim_remove_def aim_get_def aim_lookup_def aim_ok_def slice_get_def split: aim_slot.splits if_splits)
  with None ok show ?thesis by auto
next
  case (Some v)
  then have s: "idx ix < length (storage m)" "storage m ! idx ix = Filled (generation ix) v"
    by (auto simp: aim_lookup_def split: option.splits aim_slot.splits if_splits)
  have o: "slot_ok H (idx ix) (storage m ! idx ix)" using ok s(1) by (simp add: aim_ok_def)
  let ?m = "m\<lparr>storage := (storage m)[idx ix := Unfilled (generation ix + 1)]\<rparr>"
  have "aim_remove ix m = Done (Some v, ?m)" using s o by (simp add: aim_remove_def aim_get_def slice_get_def)
  moreover have "aim_lookup ?m jx = (if jx = ix then None else aim_lookup m jx)" for jx
    using s by (cases "idx jx = idx ix") (auto simp: aim_lookup_def slice_get_def)
  moreover have "aim_ok H ?m" using ok s o by (auto simp: aim_ok_def nth_list_update less_Suc_eq_le)
  ultimately show ?thesis using Some by auto
qed

lemma aim_update_ok:
  assumes ok: "aim_ok H m" and "aim_get_mut ix f m = Done (b, m')"
  shows "aim_ok H m'"
proof (cases "m' = m")
  case False
  then obtain v where s: "idx ix < length (storage m)" "storage m ! idx ix = Filled (generation ix) v"
    and m': "m' = m\<lparr>storage := (storage m)[idx ix := Filled (generation ix) (f v)]\<rparr>"
    using assms(2) by (auto simp: aim_get_mut_def split: option.splits aim_slot.splits if_splits)
  have "slot_ok H (idx ix) (storage m ! idx ix)" using ok s(1) by (simp add: aim_ok_def)
  with ok s show ?thesis by (auto simp: aim_ok_def m' nth_list_update)
qed (use ok in simp)

lemma aim_reach_ok: "aim_reach H m \<Longrightarrow> aim_ok H m"
proof (induction rule: aim_reach.induct)
  case (remove H m ix r m')
  then show ?case using aim_remove_spec [of H m ix] by auto
qed (auto simp: aim_new_def aim_ok_def[of "{}"] intro: aim_insert_spec(3) aim_update_ok)

section \<open>Properties\<close>

text \<open>C40: An index is never handed out twice, so an index that is kept after its value was removed finds nothing, whatever
  is put in the same slot later: the map is a finite map on the indices it has handed out.\<close>

theorem aim_indices_not_reused:
  assumes "aim_reach H m"
  shows "(aim_insert v m = Some (Done (ix, m')) \<longrightarrow>
      ix \<notin> H \<and> (\<forall>jx. aim_lookup m' jx = (if jx = ix then Some v else aim_lookup m jx))) \<and>
    (\<forall>ix \<in> H. aim_get ix m = Done (aim_lookup m ix) \<and>
      (\<exists>m'. aim_remove ix m = Done (aim_lookup m ix, m') \<and> (\<forall>jx. aim_lookup m' jx = (if jx = ix then None else aim_lookup m jx))))"
proof -
  note ok = aim_reach_ok [OF assms]
  have "aim_get ix m = Done (aim_lookup m ix)" if "ix \<in> H" for ix
    using ok that by (auto simp: aim_ok_def aim_get_def aim_lookup_def slice_get_def split: aim_slot.splits)
  then show ?thesis using aim_insert_spec(1,2) [OF ok] aim_remove_spec [OF ok] by blast
qed

theorem aim_indices_not_reused_witness:
  "\<exists>m. aim_reach {\<lparr>generation = 1, idx = 0\<rparr>} m \<and> aim_get \<lparr>generation = 1, idx = 0\<rparr> m = Done (Some CHR ''a'')"
proof -
  let ?ix = "\<lparr>generation = 1, idx = 0\<rparr>" and ?m = "\<lparr>storage = [Filled 1 CHR ''a''], next_free_slot = 0\<rparr>"
  have "aim_insert CHR ''a'' (aim_new 1) = Some (Done (?ix, ?m))"
    by (subst aim_insert_def, subst aim_scan.simps) (simp add: aim_new_def Let_def)
  then have r: "aim_reach {?ix} ?m" using aim_reach.insert [OF aim_reach.start [of 1]] by simp
  from aim_indices_not_reused [OF r] have "aim_get ?ix ?m = Done (aim_lookup ?m ?ix)" by blast
  moreover have "aim_lookup ?m ?ix = Some CHR ''a''" by (simp add: aim_lookup_def slice_get_def)
  ultimately show ?thesis using r by auto
qed

text \<open>An insertion returns exactly when a slot is free and has a generation left; into a full map it never returns.\<close>

theorem aim_insert_returns:
  assumes "aim_reach H m" and "length (storage m) \<le> u32_max"
  shows "if \<exists>s \<in> set (storage m). usable s then \<exists>ix m'. aim_insert v m = Some (Done (ix, m')) else aim_insert v m = None"
proof -
  have n: "next_free_slot m < length (storage m)" using aim_reach_ok [OF assms(1)] by (simp add: aim_ok_def)
  then have ne: "storage m \<noteq> []" by auto
  show ?thesis
  proof (cases "aim_scan m")
    case None
    then show ?thesis using aim_scan_returns [OF n] ne by (simp add: aim_insert_def)
  next
    case (Some y)
    obtain g i m' where y: "y = (g, i, m')" by (cases y)
    with Some aim_scan_found [of m g i m'] n assms(2) have "i \<le> u32_max" by auto
    then show ?thesis using aim_scan_returns [OF n] Some y ne by (auto simp: aim_insert_def)
  qed
qed

theorem aim_insert_returns_witness:
  "aim_reach {\<lparr>generation = 1, idx = 0\<rparr>} \<lparr>storage = [Filled 1 CHR ''a''], next_free_slot = 0\<rparr> \<and>
    aim_insert CHR ''b'' \<lparr>storage = [Filled 1 CHR ''a''], next_free_slot = 0\<rparr> = None"
proof -
  let ?ix = "\<lparr>generation = 1, idx = 0\<rparr>" and ?m = "\<lparr>storage = [Filled 1 CHR ''a''], next_free_slot = 0\<rparr>"
  have "aim_insert CHR ''a'' (aim_new 1) = Some (Done (?ix, ?m))"
    by (subst aim_insert_def, subst aim_scan.simps) (simp add: aim_new_def Let_def)
  then have r: "aim_reach {?ix} ?m" using aim_reach.insert [OF aim_reach.start [of 1]] by simp
  with aim_insert_returns [OF r, of "CHR ''b''"] show ?thesis by simp
qed

end
