(* ===== verification/Resource.thy ===== *)
theory Resource
  imports Prelude
begin

text \<open>
  The contract of an allocator of identifiers, as the users of the bitmap pool, of the port table
  and of the descriptor tables rely on it: an allocation hands out an identifier that is not in
  use and marks exactly that one as used, an exhausted allocator changes nothing, and freeing an
  identifier frees exactly that one. The client side is a run of allocations and releases that
  remembers which identifiers it holds.
\<close>

section \<open>A client of an allocator\<close>

datatype 'i request = Acquire | Release 'i

text \<open>
  The client keeps the list of the identifiers it holds, newest first. A release of an identifier
  it does not hold is skipped; a refused acquisition leaves the list alone.
\<close>

fun run_requests ::
    "('s \<Rightarrow> ('i \<times> 's) option) \<Rightarrow> ('i \<Rightarrow> 's \<Rightarrow> 's) \<Rightarrow> 'i request list \<Rightarrow> 'i list \<times> 's \<Rightarrow> 'i list \<times> 's" where
  "run_requests alloc free [] (held, s) = (held, s)"
| "run_requests alloc free (Acquire # rs) (held, s) =
     (case alloc s of
        None \<Rightarrow> run_requests alloc free rs (held, s)
      | Some (i, s') \<Rightarrow> run_requests alloc free rs (i # held, s'))"
| "run_requests alloc free (Release i # rs) (held, s) =
     (if i \<in> set held then run_requests alloc free rs (removeAll i held, free i s)
      else run_requests alloc free rs (held, s))"

section \<open>The contract\<close>

locale id_source =
  fixes inv :: "'s \<Rightarrow> bool"
    and used :: "'s \<Rightarrow> 'i set"
    and alloc :: "'s \<Rightarrow> ('i \<times> 's) option"
    and free :: "'i \<Rightarrow> 's \<Rightarrow> 's"
  assumes alloc_fresh: "inv s \<Longrightarrow> alloc s = Some (i, s') \<Longrightarrow> i \<notin> used s"
    and alloc_used: "inv s \<Longrightarrow> alloc s = Some (i, s') \<Longrightarrow> used s' = insert i (used s)"
    and alloc_inv: "inv s \<Longrightarrow> alloc s = Some (i, s') \<Longrightarrow> inv s'"
    and free_used: "inv s \<Longrightarrow> i \<in> used s \<Longrightarrow> used (free i s) = used s - {i}"
    and free_inv: "inv s \<Longrightarrow> i \<in> used s \<Longrightarrow> inv (free i s)"
begin

lemma run_requests_inv:
  assumes "inv s" and "distinct held" and "set held \<subseteq> used s"
    and "run_requests alloc free rs (held, s) = (held', s')"
  shows "inv s' \<and> distinct held' \<and> set held' \<subseteq> used s'"
  using assms
proof (induction rs arbitrary: held s)
  case Nil
  then show ?case by simp
next
  case (Cons r rs)
  show ?case
  proof (cases r)
    case Acquire
    show ?thesis
    proof (cases "alloc s")
      case None
      with Acquire Cons show ?thesis by simp
    next
      case (Some p)
      then obtain i s1 where alloc: "alloc s = Some (i, s1)" by (cases p) auto
      have "inv s1" and "distinct (i # held)" and "set (i # held) \<subseteq> used s1"
        using Cons.prems alloc_fresh [OF _ alloc] alloc_used [OF _ alloc] alloc_inv [OF _ alloc]
        by auto
      moreover have "run_requests alloc free rs (i # held, s1) = (held', s')"
        using Cons.prems(4) Acquire alloc by simp
      ultimately show ?thesis by (rule Cons.IH)
    qed
  next
    case (Release i)
    show ?thesis
    proof (cases "i \<in> set held")
      case True
      with Cons.prems have "inv (free i s)" and "distinct (removeAll i held)"
        and "set (removeAll i held) \<subseteq> used (free i s)"
        using free_used [of s i] free_inv [of s i] by (auto simp: distinct_removeAll)
      moreover have "run_requests alloc free rs (removeAll i held, free i s) = (held', s')"
        using Cons.prems(4) Release True by simp
      ultimately show ?thesis by (rule Cons.IH)
    next
      case False
      with Release Cons show ?thesis by simp
    qed
  qed
qed

lemma held_distinct:
  assumes "inv s" and "run_requests alloc free rs ([], s) = (held, s')"
  shows "distinct held" and "set held \<subseteq> used s'" and "inv s'"
  using run_requests_inv [of s "[]" rs held s'] assms by auto

end

end
