(* ===== verification/IdPool.thy ===== *)
theory IdPool
  imports Resource
begin

text \<open>
  The bitmap allocator of \<^verbatim>\<open>litebox/src/utils/id_pool.rs\<close>. A pool is a vector of 64-bit
  words with a scan hint; \<open>allocate\<close> scans word by word with masks and \<^verbatim>\<open>trailing_zeros\<close>,
  starting behind the last allocated identifier. The lemmas show that the word scan finds exactly
  what a scan over single identifiers finds (next fit with wrap-around), that the pool invariant is
  kept and that no operation panics, in debug and in release builds. \<^verbatim>\<open>u32\<close> values are
  natural numbers; the invariant bounds them, and the one unchecked \<^verbatim>\<open>u32\<close> computation goes
  through \<^const>\<open>u32_arith\<close>.
\<close>

section \<open>The pool and its operations\<close>

record id_pool =
  bitmap :: "u64 list"
  hint :: nat
  max_ids :: nat
  max_cap :: nat

definition DEFAULT_MAX_CAP :: nat where
  "DEFAULT_MAX_CAP = 65536"

definition with_max_capacity :: "nat \<Rightarrow> id_pool outcome" where
  "with_max_capacity cap =
     assert_that (cap mod 64 = 0)
       (Done \<lparr>bitmap = [], hint = u32_max, max_ids = 0, max_cap = cap\<rparr>)"

definition new_pool :: "id_pool outcome" where
  "new_pool = with_max_capacity DEFAULT_MAX_CAP"

definition with_capacity :: "nat \<Rightarrow> id_pool" where
  "with_capacity num_ids =
     \<lparr>bitmap = replicate ((num_ids + 63) div 64) 0, hint = u32_max,
      max_ids = num_ids, max_cap = num_ids\<rparr>"

text \<open>\<^verbatim>\<open>u64::trailing_zeros\<close>: 64 on zero.\<close>

definition trailing_zeros :: "u64 \<Rightarrow> nat" where
  "trailing_zeros w = (case List.find (bit w) [0..<64] of None \<Rightarrow> 64 | Some b \<Rightarrow> b)"

text \<open>The mask of visit \<open>i\<close>; \<open>None\<close> is the \<^verbatim>\<open>continue\<close> of the last visit.\<close>

definition occupied_mask :: "nat \<Rightarrow> nat \<Rightarrow> nat \<Rightarrow> u64 option" where
  "occupied_mask n s_bit i =
     (if i = 0 \<and> s_bit > 0 then Some (push_bit s_bit 1 - 1)
      else if i = n then (if s_bit = 0 then None else Some (NOT (push_bit s_bit 1 - 1)))
      else Some 0)"

text \<open>The body of the scan loop, over the visits that are left.\<close>

fun scan_words :: "bool \<Rightarrow> nat \<Rightarrow> nat \<Rightarrow> nat \<Rightarrow> nat list \<Rightarrow> id_pool \<Rightarrow> (nat option \<times> id_pool) outcome" where
  "scan_words dbg s_word s_bit cap [] p = Done (None, p)"
| "scan_words dbg s_word s_bit cap (i # is) p =
    (let n = length (bitmap p) in
     assert_that (n \<noteq> 0)
      (let wi = (s_word + i) mod n in
       case occupied_mask n s_bit i of
         None \<Rightarrow> scan_words dbg s_word s_bit cap is p
       | Some om \<Rightarrow>
           let masked = bitmap p ! wi OR om in
           if masked = - 1 then scan_words dbg s_word s_bit cap is p
           else
             let b = trailing_zeros (NOT masked) in
             obind (u32_arith dbg (wi mod 2 ^ 32 * 64 + b)) (\<lambda>k.
               if k < cap then
                 Done (Some k, p\<lparr>bitmap := (bitmap p)[wi := bitmap p ! wi OR push_bit b 1],
                                  hint := k\<rparr>)
               else scan_words dbg s_word s_bit cap is p)))"

definition find_free :: "bool \<Rightarrow> nat \<Rightarrow> nat \<Rightarrow> id_pool \<Rightarrow> (nat option \<times> id_pool) outcome" where
  "find_free dbg start cap p =
     assert_that (dbg \<longrightarrow> cap > 0 \<and> start < cap)
       (scan_words dbg (start div 64) (start mod 64) cap [0..<Suc (length (bitmap p))] p)"

definition grow :: "id_pool \<Rightarrow> nat option \<times> id_pool" where
  "grow p =
     (if max_ids p + 64 > u32_max then (None, p)
      else
        let new_max = min (max_ids p + 64) (max_cap p) in
        if new_max = max_ids p then (None, p)
        else (Some (max_ids p),
              p\<lparr>bitmap := bitmap p @ [1], max_ids := new_max, hint := max_ids p\<rparr>))"

definition allocate :: "bool \<Rightarrow> id_pool \<Rightarrow> (nat option \<times> id_pool) outcome" where
  "allocate dbg p =
     (let cap = max_ids p;
          start = (if hint p \<ge> cap - 1 then 0 else hint p + 1)
      in obind (if cap > 0 then find_free dbg start cap p else Done (None, p)) (\<lambda>(r, p').
           case r of
             Some k \<Rightarrow> Done (Some k, p')
           | None \<Rightarrow> if max_ids p' < max_cap p' then Done (grow p') else Done (None, p')))"

definition recycle :: "bool \<Rightarrow> nat \<Rightarrow> id_pool \<Rightarrow> id_pool outcome" where
  "recycle dbg k p =
     assert_that (dbg \<longrightarrow> k < max_ids p)
      (if k \<ge> max_ids p then Done p
       else
         let w = k div 64; b = k mod 64 in
         assert_that (w < length (bitmap p))
           (Done (p\<lparr>bitmap := (bitmap p)[w := bitmap p ! w AND NOT (push_bit b 1)]\<rparr>)))"

section \<open>Abstraction and invariant\<close>

definition in_use :: "id_pool \<Rightarrow> nat \<Rightarrow> bool" where
  "in_use p k \<longleftrightarrow>
     k div 64 < length (bitmap p) \<and> bit (bitmap p ! (k div 64)) (k mod 64)"

definition used_ids :: "id_pool \<Rightarrow> nat set" where
  "used_ids p = {k. in_use p k}"

text \<open>
  The bitmap has exactly the words that \<open>max_ids\<close> needs, no bit beyond \<open>max_ids\<close> is set,
  and a pool that may still grow is word-aligned.
\<close>

definition pool_inv :: "id_pool \<Rightarrow> bool" where
  "pool_inv p \<longleftrightarrow>
     length (bitmap p) = (max_ids p + 63) div 64 \<and>
     max_ids p \<le> max_cap p \<and> max_cap p \<le> u32_max \<and>
     (max_ids p < max_cap p \<longrightarrow> max_ids p mod 64 = 0 \<and> max_cap p mod 64 = 0) \<and>
     (\<forall>k \<in> used_ids p. k < max_ids p)"

text \<open>The reference: identifiers one by one, from behind the hint, wrapping at the tracked range.\<close>

definition scan_start :: "id_pool \<Rightarrow> nat" where
  "scan_start p = (if hint p \<ge> max_ids p - 1 then 0 else hint p + 1)"

definition next_fit :: "id_pool \<Rightarrow> nat option" where
  "next_fit p =
     List.find (\<lambda>k. \<not> in_use p k) ([scan_start p..<max_ids p] @ [0..<scan_start p])"

definition mark_used :: "nat \<Rightarrow> id_pool \<Rightarrow> id_pool" where
  "mark_used k p =
     p\<lparr>bitmap := (bitmap p)[k div 64 := bitmap p ! (k div 64) OR push_bit (k mod 64) 1],
       hint := k\<rparr>"

section \<open>One word\<close>

lemma bit_low_mask: "s < 64 \<Longrightarrow> bit (2 ^ s - 1 :: u64) b \<longleftrightarrow> b < s"
  by (auto simp: bit_mask_iff mask_eq_exp_minus_1 [symmetric])

lemma find_zero_bit:
  "List.find (\<lambda>b. \<not> bit m b) [0..<64]
     = (if m = (- 1 :: u64) then None else Some (trailing_zeros (NOT m)))"
proof (cases "m = - 1")
  case True
  then show ?thesis by (simp add: find_None_iff)
next
  case False
  then obtain b where b: "b < 64" "\<not> bit m b"
    by (auto simp: bit_eq_iff)
  have "List.find (\<lambda>b. \<not> bit m b) [0..<64] = List.find (bit (NOT m)) [0..<64]"
    by (rule find_cong_on) (simp add: bit_not_iff)
  moreover have "List.find (bit (NOT m)) [0..<64] \<noteq> None"
    using b by (auto simp: find_None_iff bit_not_iff)
  ultimately show ?thesis
    using False by (auto simp: trailing_zeros_def)
qed

text \<open>The positions visit \<open>i\<close> considers.\<close>

definition visit_bits :: "nat \<Rightarrow> nat \<Rightarrow> nat \<Rightarrow> nat list" where
  "visit_bits n s_bit i =
     (if i = 0 then [s_bit..<64] else if i = n then [0..<s_bit] else [0..<64])"

definition visit_ids :: "nat \<Rightarrow> nat \<Rightarrow> nat \<Rightarrow> nat \<Rightarrow> nat list" where
  "visit_ids n s_word s_bit i = map (\<lambda>b. (s_word + i) mod n * 64 + b) (visit_bits n s_bit i)"

lemma visit_bits_mask:
  assumes "0 < n" and "s_bit < 64"
  shows "List.find (\<lambda>b. \<not> bit w b) (visit_bits n s_bit i) =
    (case occupied_mask n s_bit i of
       None \<Rightarrow> None
     | Some m \<Rightarrow> if w OR m = - 1 then None else Some (trailing_zeros (NOT (w OR m))))"
proof (cases "occupied_mask n s_bit i")
  case None
  then show ?thesis
    using assms by (auto simp: occupied_mask_def visit_bits_def split: if_splits)
next
  case (Some m)
  have "visit_bits n s_bit i = filter (\<lambda>b. \<not> bit m b) [0..<64]"
  proof (rule sorted_distinct_set_unique)
    show "set (visit_bits n s_bit i) = set (filter (\<lambda>b. \<not> bit m b) [0..<64])"
      using Some assms
      by (auto simp: occupied_mask_def visit_bits_def bit_low_mask bit_not_iff split: if_splits)
  qed (auto simp: visit_bits_def sorted_wrt_filter)
  then have "List.find (\<lambda>b. \<not> bit w b) (visit_bits n s_bit i)
      = List.find (\<lambda>b. \<not> bit (w OR m) b) [0..<64]"
    by (simp add: find_filter bit_or_iff conj_commute)
  then show ?thesis
    using Some by (simp add: find_zero_bit)
qed

section \<open>The scan\<close>

lemma find_below_cap:
  "List.find (\<lambda>b. c + b < cap \<and> Q b) [x..<y] =
     (case List.find Q [x..<y] of None \<Rightarrow> None | Some b \<Rightarrow> if c + b < cap then Some b else None)"
proof (cases "List.find Q [x..<y]")
  case None
  then have "List.find (\<lambda>b. c + b < cap \<and> Q b) [x..<y] = None"
    by (auto simp: find_None_iff)
  with None show ?thesis by simp
next
  case (Some b)
  then have b: "x \<le> b" "b < y" "Q b" "\<And>j. x \<le> j \<Longrightarrow> j < b \<Longrightarrow> \<not> Q j"
    by (auto simp: find_upt_Some)
  show ?thesis
  proof (cases "c + b < cap")
    case True
    with b have "List.find (\<lambda>b. c + b < cap \<and> Q b) [x..<y] = Some b"
      by (auto simp: find_upt_Some)
    with True Some show ?thesis by simp
  next
    case False
    have "\<not> (c + j < cap \<and> Q j)" if "x \<le> j" for j
      using False b(4) [OF that] by (cases "j < b") auto
    then have "List.find (\<lambda>b. c + b < cap \<and> Q b) [x..<y] = None"
      by (auto simp: find_None_iff)
    with Some False show ?thesis by simp
  qed
qed

lemma visit_bits_upt: "\<exists>x y. visit_bits n s_bit i = [x..<y] \<and> y \<le> 64" if "s_bit < 64"
  using that unfolding visit_bits_def by (metis less_imp_le order_refl)

lemma bitmap_fits:
  assumes "pool_inv p" and "w < length (bitmap p)" and "b < 64"
  shows "w * 64 + b \<le> u32_max" and "w < 2 ^ 32"
proof -
  have "w < (max_ids p + 63) div 64" and "max_ids p \<le> u32_max"
    using assms by (auto simp: pool_inv_def)
  then have "w * 64 < 4294967296" by linarith
  moreover have "w * 64 mod 64 = 0" and "(4294967296::nat) = 67108864 * 64" by auto
  ultimately have "w < 67108864" by linarith
  then show "w * 64 + b \<le> u32_max" and "w < 2 ^ 32" using assms(3) by auto
qed

lemma scan_step:
  assumes "pool_inv p" and "bitmap p \<noteq> []" and "s_bit < 64"
  shows "scan_words dbg s_word s_bit cap (i # is) p =
    (case List.find (\<lambda>k. k < cap \<and> \<not> in_use p k) (visit_ids (length (bitmap p)) s_word s_bit i) of
       Some k \<Rightarrow> Done (Some k, mark_used k p)
     | None \<Rightarrow> scan_words dbg s_word s_bit cap is p)"
proof -
  define n where "n = length (bitmap p)"
  define wi where "wi = (s_word + i) mod n"
  define w where "w = bitmap p ! wi"
  have n: "0 < n" "wi < n" using assms(2) by (auto simp: n_def wi_def)
  obtain x y where xy: "visit_bits n s_bit i = [x..<y]" "y \<le> 64"
    using visit_bits_upt [OF assms(3)] by blast
  have free: "in_use p (wi * 64 + b) \<longleftrightarrow> bit w b" if "b < 64" for b
    using that n by (simp add: in_use_def n_def w_def)
  have "List.find (\<lambda>k. k < cap \<and> \<not> in_use p k) (visit_ids n s_word s_bit i)
      = map_option (\<lambda>b. wi * 64 + b)
          (List.find (\<lambda>b. wi * 64 + b < cap \<and> \<not> in_use p (wi * 64 + b)) [x..<y])"
    by (simp add: visit_ids_def find_map xy wi_def)
  also have "List.find (\<lambda>b. wi * 64 + b < cap \<and> \<not> in_use p (wi * 64 + b)) [x..<y]
      = List.find (\<lambda>b. wi * 64 + b < cap \<and> \<not> bit w b) [x..<y]"
    using xy(2) by (intro find_cong_on) (simp add: free)
  also have "\<dots> = (case List.find (\<lambda>b. \<not> bit w b) (visit_bits n s_bit i) of
        None \<Rightarrow> None | Some b \<Rightarrow> if wi * 64 + b < cap then Some b else None)"
    by (simp only: find_below_cap xy)
  finally have find: "List.find (\<lambda>k. k < cap \<and> \<not> in_use p k) (visit_ids n s_word s_bit i) =
      (case List.find (\<lambda>b. \<not> bit w b) (visit_bits n s_bit i) of
         None \<Rightarrow> None | Some b \<Rightarrow> if wi * 64 + b < cap then Some (wi * 64 + b) else None)"
    by (auto split: option.splits)
  have bound: "b < 64" if "List.find (\<lambda>b. \<not> bit w b) (visit_bits n s_bit i) = Some b" for b
    using that xy by (auto simp: find_upt_Some)
  note folds = n_def [symmetric] wi_def [symmetric] w_def [symmetric]
  show ?thesis
  proof (cases "occupied_mask n s_bit i")
    case None
    then show ?thesis
      using find n by (simp add: visit_bits_mask [OF n(1) assms(3)] folds)
  next
    case (Some m)
    show ?thesis
    proof (cases "w OR m = - 1")
      case True
      then show ?thesis
        using Some find n by (simp add: visit_bits_mask [OF n(1) assms(3)] folds)
    next
      case False
      define b where "b = trailing_zeros (NOT (w OR m))"
      have fb: "List.find (\<lambda>b. \<not> bit w b) (visit_bits n s_bit i) = Some b"
        using Some False by (simp add: visit_bits_mask [OF n(1) assms(3)] b_def)
      then have "b < 64" by (rule bound)
      then have fits: "wi * 64 + b \<le> u32_max" "wi < 2 ^ 32"
        using bitmap_fits [OF assms(1), of wi b] n by (simp_all add: n_def)
      have b_alt: "trailing_zeros (NOT w AND NOT m) = b"
        by (simp add: b_def)
      have "mark_used (wi * 64 + b) p
          = p\<lparr>bitmap := (bitmap p)[wi := w OR push_bit b 1], hint := wi * 64 + b\<rparr>"
        using \<open>b < 64\<close> by (simp add: mark_used_def w_def)
      then show ?thesis
        using Some False find fb n fits
        by (simp add: folds b_alt Let_def del: push_bit_of_1)
    qed
  qed
qed

lemma scan_words_find:
  assumes "pool_inv p" and "bitmap p \<noteq> []" and "s_bit < 64"
  shows "scan_words dbg s_word s_bit cap is p =
    (case List.find (\<lambda>k. k < cap \<and> \<not> in_use p k)
            (concat (map (visit_ids (length (bitmap p)) s_word s_bit) is)) of
       Some k \<Rightarrow> Done (Some k, mark_used k p)
     | None \<Rightarrow> Done (None, p))"
proof (induction "is")
  case (Cons i "is")
  show ?case
    unfolding scan_step [OF assms] Cons.IH by (simp add: find_append split: option.split)
qed simp

lemma upt_split: "a \<le> b \<Longrightarrow> b \<le> c \<Longrightarrow> [a..<c] = [a..<b] @ [b..<c]"
  using upt_add_eq_append [of a b "c - b"] by simp

lemma block_ids: "map (\<lambda>b. w * 64 + b) [x..<y] = [w * 64 + x..<w * 64 + y]"
  by (rule nth_equalityI) auto

lemma concat_blocks: "a \<le> b \<Longrightarrow> concat (map (\<lambda>w. [w * 64..<w * 64 + 64]) [a..<b]) = [a * 64..<b * 64]"
proof (induction b)
  case (Suc b)
  show ?case
  proof (cases "a = Suc b")
    case False
    with Suc have "a \<le> b" by simp
    then have "[a * 64..<b * 64 + 64] = [a * 64..<b * 64] @ [b * 64..<b * 64 + 64]"
      by (intro upt_split) auto
    moreover have "Suc b * 64 = b * 64 + 64" by simp
    ultimately show ?thesis
      using Suc.IH [OF \<open>a \<le> b\<close>] \<open>a \<le> b\<close> by (simp only: upt_Suc_append) simp
  qed simp
qed simp

lemma wrapped_words:
  assumes "s < n"
  shows "map (\<lambda>i. (s + i) mod n) [1..<n] = [Suc s..<n] @ [0..<s]"
proof (rule nth_equalityI)
  fix i assume "i < length (map (\<lambda>i. (s + i) mod n) [1..<n])"
  then have i: "i < n - 1" by simp
  show "map (\<lambda>i. (s + i) mod n) [1..<n] ! i = ([Suc s..<n] @ [0..<s]) ! i"
  proof (cases "Suc (s + i) < n")
    case True
    with i have "i < n - Suc s" by simp
    with True show ?thesis by (simp add: nth_append)
  next
    case False
    with i assms have "Suc (s + i) mod n = Suc (s + i) - n"
      by (simp add: le_mod_geq)
    moreover from False have "\<not> i < n - Suc s" by simp
    ultimately show ?thesis using i assms by (simp add: nth_append)
  qed
qed (use assms in simp)

lemma visited_ids:
  assumes "start div 64 < n"
  shows "concat (map (visit_ids n (start div 64) (start mod 64)) [0..<Suc n])
    = [start..<n * 64] @ [0..<start]"
proof -
  define s b where "s = start div 64" and "b = start mod 64"
  have sb: "s < n" "b < 64" "start = s * 64 + b" using assms by (auto simp: s_def b_def)
  have mid: "map (visit_ids n s b) [1..<n]
      = map (\<lambda>w. [w * 64..<w * 64 + 64]) (map (\<lambda>i. (s + i) mod n) [1..<n])"
    by (simp add: visit_ids_def visit_bits_def block_ids)
  have "concat (map (visit_ids n s b) [1..<n])
      = concat (map (\<lambda>w. [w * 64..<w * 64 + 64]) [Suc s..<n])
        @ concat (map (\<lambda>w. [w * 64..<w * 64 + 64]) [0..<s])"
    unfolding mid wrapped_words [OF sb(1)] by simp
  also have "\<dots> = [s * 64 + 64..<n * 64] @ [0..<s * 64]"
    using concat_blocks [of "Suc s" n] concat_blocks [of 0 s] sb by (simp add: add.commute)
  finally have inner: "concat (map (visit_ids n s b) [1..<n]) = [s * 64 + 64..<n * 64] @ [0..<s * 64]" .
  have outer: "visit_ids n s b 0 = [start..<s * 64 + 64]" "visit_ids n s b n = [s * 64..<start]"
    using sb(1) unfolding sb(3) by (simp_all add: visit_ids_def visit_bits_def block_ids)
  have "[0..<Suc n] = 0 # [1..<n] @ [n]"
    using sb upt_conv_Cons [of 0 n] by simp
  moreover have "[start..<s * 64 + 64] @ [s * 64 + 64..<n * 64] = [start..<n * 64]"
    using sb by (intro upt_split [symmetric]) auto
  moreover have "[0..<s * 64] @ [s * 64..<start] = [0..<start]"
    using sb by (intro upt_split [symmetric]) auto
  ultimately show ?thesis
    unfolding s_def [symmetric] b_def [symmetric] by (simp add: inner [simplified] outer)
qed

lemma words_cover:
  assumes "pool_inv p"
  shows "max_ids p \<le> length (bitmap p) * 64"
    and "k < max_ids p \<Longrightarrow> k div 64 < length (bitmap p)"
  using assms by (auto simp: pool_inv_def)

lemma scan_start_less: "0 < max_ids p \<Longrightarrow> scan_start p < max_ids p"
  by (auto simp: scan_start_def)

lemma find_free_next_fit:
  assumes inv: "pool_inv p" and pos: "0 < max_ids p"
  shows "find_free dbg (scan_start p) (max_ids p) p =
    (case next_fit p of Some k \<Rightarrow> Done (Some k, mark_used k p) | None \<Rightarrow> Done (None, p))"
proof -
  define n where "n = length (bitmap p)"
  note less = scan_start_less [OF pos]
  have word: "scan_start p div 64 < n" and cover: "max_ids p \<le> n * 64"
    using words_cover [OF inv] less by (auto simp: n_def)
  have cut: "filter (\<lambda>k. k < max_ids p) ([scan_start p..<n * 64] @ [0..<scan_start p])
      = [scan_start p..<max_ids p] @ [0..<scan_start p]"
  proof -
    have "[scan_start p..<n * 64] = [scan_start p..<max_ids p] @ [max_ids p..<n * 64]"
      using less cover by (intro upt_split) auto
    then show ?thesis using less by simp
  qed
  have "List.find (\<lambda>k. k < max_ids p \<and> \<not> in_use p k)
      (concat (map (visit_ids n (scan_start p div 64) (scan_start p mod 64)) [0..<Suc n])) = next_fit p"
    unfolding visited_ids [OF word] next_fit_def cut [symmetric] find_filter ..
  moreover have "bitmap p \<noteq> []" using word by (auto simp: n_def)
  ultimately show ?thesis
    using less pos by (simp add: find_free_def scan_words_find [OF inv] n_def)
qed

section \<open>Preservation of the invariant\<close>

lemma other_word_or_bit: "(j::nat) \<noteq> k \<Longrightarrow> j div 64 \<noteq> k div 64 \<or> j mod 64 \<noteq> k mod 64"
  by (metis div_mult_mod_eq)

lemma in_use_mark_used:
  assumes "k div 64 < length (bitmap p)"
  shows "in_use (mark_used k p) j \<longleftrightarrow> j = k \<or> in_use p j"
proof (cases "j = k")
  case True
  with assms show ?thesis by (simp add: in_use_def mark_used_def bit_or_iff bit_exp_iff)
next
  case False
  from other_word_or_bit [OF this] assms show ?thesis
    by (cases "j div 64 = k div 64")
      (simp_all add: False in_use_def mark_used_def bit_or_iff bit_exp_iff)
qed

lemma mark_used_simps [simp]:
  "max_ids (mark_used k p) = max_ids p" "max_cap (mark_used k p) = max_cap p"
  "length (bitmap (mark_used k p)) = length (bitmap p)" "hint (mark_used k p) = k"
  by (simp_all add: mark_used_def)

lemma used_ids_mark_used:
  assumes "pool_inv p" and "k < max_ids p"
  shows "used_ids (mark_used k p) = insert k (used_ids p)"
  using in_use_mark_used [of k p] words_cover(2) [OF assms] by (auto simp: used_ids_def)

lemma mark_used_inv:
  assumes "pool_inv p" and "k < max_ids p"
  shows "pool_inv (mark_used k p)"
  using assms used_ids_mark_used [OF assms] by (simp add: pool_inv_def)

lemma next_fit_Some:
  assumes "next_fit p = Some k"
  shows "k < max_ids p" and "k \<notin> used_ids p"
proof -
  have k: "k \<in> set ([scan_start p..<max_ids p] @ [0..<scan_start p])" "\<not> in_use p k"
    using find_SomeD [OF assms [unfolded next_fit_def]] by blast+
  then show "k \<notin> used_ids p" by (simp add: used_ids_def)
  have "scan_start p < max_ids p \<or> scan_start p = 0"
    by (auto simp: scan_start_def)
  with k(1) show "k < max_ids p" by auto
qed

lemma next_fit_None:
  assumes "pool_inv p" and "next_fit p = None"
  shows "used_ids p = {..<max_ids p}"
proof -
  have "scan_start p < max_ids p \<or> max_ids p = 0"
    using scan_start_less [of p] by auto
  then have "{..<max_ids p} \<subseteq> used_ids p"
    using assms(2) by (auto simp: next_fit_def find_None_iff used_ids_def not_less)
      (meson leD less_or_eq_imp_le not_le_imp_less)
  then show ?thesis using assms(1) by (auto simp: pool_inv_def)
qed

text \<open>What \<open>grow\<close> does to a word-aligned pool below its cap.\<close>

definition grown :: "id_pool \<Rightarrow> id_pool" where
  "grown p = p\<lparr>bitmap := bitmap p @ [1], max_ids := max_ids p + 64, hint := max_ids p\<rparr>"

lemma aligned_room:
  assumes "pool_inv p" and "max_ids p < max_cap p"
  shows "max_ids p + 64 \<le> max_cap p" and "length (bitmap p) * 64 = max_ids p"
proof -
  have "64 dvd max_ids p" "64 dvd max_cap p" "length (bitmap p) = (max_ids p + 63) div 64"
    using assms by (auto simp: pool_inv_def mod_eq_0_iff_dvd)
  then obtain a c where "max_ids p = 64 * a" "max_cap p = 64 * c" "length (bitmap p) = (64 * a + 63) div 64"
    by (auto elim!: dvdE)
  then show "max_ids p + 64 \<le> max_cap p" and "length (bitmap p) * 64 = max_ids p"
    using assms(2) by auto
qed

lemma grow_aligned:
  assumes "pool_inv p" and "max_ids p < max_cap p"
  shows "grow p = (Some (max_ids p), grown p)"
proof -
  have "max_cap p \<le> u32_max" using assms by (simp add: pool_inv_def)
  with aligned_room [OF assms] show ?thesis by (simp add: grow_def grown_def)
qed

lemma used_ids_grown:
  assumes "pool_inv p" and "max_ids p < max_cap p"
  shows "used_ids (grown p) = insert (max_ids p) (used_ids p)"
proof -
  define n where "n = length (bitmap p)"
  have n: "max_ids p = n * 64" using aligned_room(2) [OF assms] by (simp add: n_def)
  have "in_use (grown p) j \<longleftrightarrow> j = n * 64 \<or> in_use p j" for j
  proof -
    consider "j div 64 < n" | "j div 64 = n" | "j div 64 > n" by linarith
    then show ?thesis
    proof cases
      case 2
      with div_mult_mod_eq [of j 64] have "j = n * 64 \<longleftrightarrow> j mod 64 = 0" by auto
      with 2 show ?thesis
        by (auto simp: in_use_def grown_def n_def [symmetric] nth_append bit_1_iff)
    qed (auto simp: in_use_def grown_def n_def [symmetric] nth_append)
  qed
  then show ?thesis by (auto simp: used_ids_def n)
qed

lemma grown_inv:
  assumes "pool_inv p" and "max_ids p < max_cap p"
  shows "pool_inv (grown p)"
proof -
  have "(max_ids p + 64 + 63) div 64 = Suc ((max_ids p + 63) div 64)" by simp
  moreover have "(max_ids p + 64) mod 64 = max_ids p mod 64" by simp
  moreover have "\<forall>k \<in> used_ids (grown p). k < max_ids p + 64"
    using assms(1) used_ids_grown [OF assms] by (auto simp: pool_inv_def)
  ultimately show ?thesis
    using assms aligned_room(1) [OF assms] by (simp add: pool_inv_def grown_def)
qed

lemma allocate_eq:
  assumes "pool_inv p"
  shows "allocate dbg p = Done
    (case next_fit p of
       Some k \<Rightarrow> (Some k, mark_used k p)
     | None \<Rightarrow> if max_ids p < max_cap p then (Some (max_ids p), grown p) else (None, p))"
proof (cases "max_ids p = 0")
  case True
  then have "next_fit p = None" by (simp add: next_fit_def scan_start_def)
  with True show ?thesis by (simp add: allocate_def grow_aligned [OF assms])
next
  case False
  then show ?thesis
    using find_free_next_fit [OF assms, of dbg] next_fit_Some [of p]
    by (auto simp: allocate_def Let_def scan_start_def grow_aligned [OF assms]
        split: option.split)
qed

lemma recycle_eq:
  assumes "pool_inv p" and "k \<in> used_ids p"
  shows "\<exists>p'. recycle dbg k p = Done p' \<and> used_ids p' = used_ids p - {k} \<and> pool_inv p' \<and>
    max_cap p' = max_cap p"
proof -
  have k: "k < max_ids p" "k div 64 < length (bitmap p)"
    using assms words_cover(2) [OF assms(1)] by (auto simp: pool_inv_def)
  define p' where "p' = p\<lparr>bitmap := (bitmap p)[k div 64 :=
      bitmap p ! (k div 64) AND NOT (push_bit (k mod 64) 1)]\<rparr>"
  have "in_use p' j \<longleftrightarrow> j \<noteq> k \<and> in_use p j" for j
  proof (cases "j = k")
    case True
    with k show ?thesis by (simp add: in_use_def p'_def bit_and_iff bit_not_iff bit_exp_iff)
  next
    case False
    from other_word_or_bit [OF this] k show ?thesis
      by (cases "j div 64 = k div 64")
        (simp_all add: False in_use_def p'_def bit_and_iff bit_not_iff bit_exp_iff)
  qed
  then have "used_ids p' = used_ids p - {k}" by (auto simp: used_ids_def)
  moreover have "recycle dbg k p = Done p'"
    using k by (simp add: recycle_def p'_def Let_def)
  ultimately show ?thesis
    using assms(1) by (auto simp: pool_inv_def p'_def)
qed

lemma with_capacity_simps [simp]:
  "max_ids (with_capacity n) = n" "max_cap (with_capacity n) = n"
  by (simp_all add: with_capacity_def)

lemma fresh_pools:
  "n \<le> u32_max \<Longrightarrow> pool_inv (with_capacity n) \<and> used_ids (with_capacity n) = {}"
  "n \<le> u32_max \<Longrightarrow> with_max_capacity n = Done p \<Longrightarrow> pool_inv p \<and> used_ids p = {}"
  by (auto simp: pool_inv_def with_capacity_def with_max_capacity_def used_ids_def in_use_def)

section \<open>The allocator contract\<close>

text \<open>The two calls as a client sees them that ignores exhaustion.\<close>

definition pool_alloc :: "bool \<Rightarrow> id_pool \<Rightarrow> (nat \<times> id_pool) option" where
  "pool_alloc dbg p =
     (case allocate dbg p of Done (Some k, p') \<Rightarrow> Some (k, p') | _ \<Rightarrow> None)"

definition pool_free :: "bool \<Rightarrow> nat \<Rightarrow> id_pool \<Rightarrow> id_pool" where
  "pool_free dbg k p = (case recycle dbg k p of Done p' \<Rightarrow> p' | Panic \<Rightarrow> p)"

lemma pool_alloc_cases:
  assumes "pool_inv p" and "pool_alloc dbg p = Some (k, p')"
  shows "k \<notin> used_ids p \<and> used_ids p' = insert k (used_ids p) \<and> pool_inv p'"
proof (cases "next_fit p")
  case None
  then have "max_ids p < max_cap p" "k = max_ids p" "p' = grown p"
    using assms by (auto simp: pool_alloc_def allocate_eq split: if_splits)
  then show ?thesis
    using assms(1) used_ids_grown grown_inv by (auto simp: pool_inv_def)
next
  case (Some j)
  then have "k = j" "p' = mark_used j p"
    using assms by (auto simp: pool_alloc_def allocate_eq)
  then show ?thesis
    using next_fit_Some [OF Some] used_ids_mark_used [OF assms(1)] mark_used_inv [OF assms(1)] by auto
qed

lemma pool_free_cases:
  assumes "pool_inv p" and "k \<in> used_ids p"
  shows "used_ids (pool_free dbg k p) = used_ids p - {k}" and "pool_inv (pool_free dbg k p)"
proof -
  obtain p' where "recycle dbg k p = Done p'" "used_ids p' = used_ids p - {k}" "pool_inv p'"
    using recycle_eq [OF assms] by blast
  then show "used_ids (pool_free dbg k p) = used_ids p - {k}" and "pool_inv (pool_free dbg k p)"
    by (simp_all add: pool_free_def)
qed

interpretation pool: id_source pool_inv used_ids "pool_alloc dbg" "pool_free dbg" for dbg
  by unfold_locales (simp_all add: pool_alloc_cases pool_free_cases)

section \<open>Properties\<close>

text \<open>C11: On a well-formed pool the masked word-by-word scan of \<open>allocate\<close> returns exactly
  what the identifier-by-identifier reference returns: the first free identifier at or after the
  hint, wrapping once, else the first identifier of a new word, else nothing. It never panics, in a
  debug or a release build.\<close>

theorem id_pool_next_fit:
  assumes "pool_inv p"
  shows "allocate dbg p = Done
    (case next_fit p of
       Some k \<Rightarrow> (Some k, mark_used k p)
     | None \<Rightarrow>
         if max_ids p < max_cap p
         then (Some (max_ids p),
               p\<lparr>bitmap := bitmap p @ [1], max_ids := max_ids p + 64, hint := max_ids p\<rparr>)
         else (None, p))"
  unfolding allocate_eq [OF assms] grown_def ..

theorem id_pool_next_fit_witness:
  "allocate True (mark_used 1 (with_capacity 2)) = Done (Some 0, mark_used 0 (mark_used 1 (with_capacity 2)))"
proof -
  have "pool_inv (mark_used 1 (with_capacity 2))"
    using fresh_pools(1) [of 2] by (intro mark_used_inv) simp_all
  moreover have "next_fit (mark_used 1 (with_capacity 2)) = Some 0"
    by code_simp
  ultimately show ?thesis by (simp add: id_pool_next_fit)
qed

text \<open>An allocation hands out an identifier below the cap that was not in use and marks only
  that one; it is refused only when every identifier below the cap is in use, and then nothing
  changes. The pool invariant is kept.\<close>

theorem id_pool_allocate_sound:
  assumes "pool_inv p"
  shows "\<exists>r p'. allocate dbg p = Done (r, p') \<and> pool_inv p' \<and> max_cap p' = max_cap p \<and>
    (case r of
       Some k \<Rightarrow> k < max_cap p \<and> k \<notin> used_ids p \<and> used_ids p' = insert k (used_ids p)
     | None \<Rightarrow> p' = p \<and> used_ids p = {..<max_cap p})"
proof (cases "next_fit p")
  case None
  show ?thesis
  proof (cases "max_ids p < max_cap p")
    case True
    moreover have "max_ids p \<notin> used_ids p" using assms by (auto simp: pool_inv_def)
    ultimately show ?thesis
      using None assms
      by (simp add: allocate_eq grown_inv used_ids_grown) (simp add: grown_def)
  next
    case False
    then have "max_ids p = max_cap p" using assms by (simp add: pool_inv_def)
    then show ?thesis
      using None assms next_fit_None [OF assms None] by (simp add: allocate_eq)
  qed
next
  case (Some k)
  moreover have "k < max_cap p"
    using next_fit_Some(1) [OF Some] assms by (simp add: pool_inv_def)
  ultimately show ?thesis
    using next_fit_Some [OF Some] assms by (simp add: allocate_eq mark_used_inv used_ids_mark_used)
qed

theorem id_pool_allocate_sound_witness:
  "pool_inv (with_capacity 70) \<and>
   (\<exists>r p'. allocate False (with_capacity 70) = Done (r, p') \<and> pool_inv p' \<and> max_cap p' = 70 \<and>
    (case r of
       Some k \<Rightarrow> k < 70 \<and> k \<notin> used_ids (with_capacity 70) \<and>
         used_ids p' = insert k (used_ids (with_capacity 70))
     | None \<Rightarrow> p' = with_capacity 70 \<and> used_ids (with_capacity 70) = {..<70}))"
  using fresh_pools(1) [of 70] id_pool_allocate_sound [of "with_capacity 70" False]
  unfolding with_capacity_simps by simp

text \<open>C18: Two identifiers held at the same time are different, whatever the sequence of
  allocations and releases a client makes, and all of them are marked in the bitmap.\<close>

theorem id_pool_run_distinct:
  assumes "pool_inv p"
    and "run_requests (pool_alloc dbg) (pool_free dbg) rs ([], p) = (held, p')"
  shows "distinct held \<and> set held \<subseteq> used_ids p' \<and> pool_inv p'"
  using pool.held_distinct [OF assms] by blast

theorem id_pool_run_distinct_witness:
  "\<exists>p'. run_requests (pool_alloc True) (pool_free True)
      [Acquire, Acquire, Acquire, Release 0, Acquire] ([], with_capacity 2) = ([0, 1], p') \<and>
    distinct [0, 1 :: nat] \<and> set [0, 1] \<subseteq> used_ids p' \<and> pool_inv p'"
proof -
  define r where "r = run_requests (pool_alloc True) (pool_free True)
      [Acquire, Acquire, Acquire, Release 0, Acquire] ([], with_capacity 2)"
  have "fst r = [0, 1]" unfolding r_def by code_simp
  then have "run_requests (pool_alloc True) (pool_free True)
      [Acquire, Acquire, Acquire, Release 0, Acquire] ([], with_capacity 2) = ([0, 1], snd r)"
    unfolding r_def [symmetric] by (cases r) simp
  moreover from id_pool_run_distinct [OF _ this] fresh_pools(1) [of 2]
  have "distinct [0, 1 :: nat] \<and> set [0, 1] \<subseteq> used_ids (snd r) \<and> pool_inv (snd r)" by simp
  ultimately show ?thesis by blast
qed

end
