(* ===== verification/FastRng.thy ===== *)
theory FastRng
  imports Prelude
begin

text \<open>
  The xorshift* generator of \<^verbatim>\<open>litebox/src/utils/rng.rs\<close>, bit for bit on 64-bit words. The
  lemmas bound what \<open>next_in_range_u32\<close> returns (no wrap-around) and show that the generator
  never gets stuck in the state zero, from which xorshift would never leave.
\<close>

section \<open>The generator\<close>

record fast_rng =
  rng_state :: u64

definition MAGIC :: u64 where
  "MAGIC = 0x2545F4914F6CDD1D"

text \<open>The seed is a \<^verbatim>\<open>NonZeroU64\<close>.\<close>

definition new_from_seed :: "u64 \<Rightarrow> fast_rng" where
  "new_from_seed seed = \<lparr>rng_state = seed * MAGIC\<rparr>"

definition next_u64 :: "fast_rng \<Rightarrow> u64 \<times> fast_rng" where
  "next_u64 r =
     (let x = rng_state r;
          x = x XOR drop_bit 12 x;
          x = x XOR push_bit 25 x;
          x = x XOR drop_bit 27 x
      in (x * MAGIC, r\<lparr>rng_state := x\<rparr>))"

definition next_u32 :: "fast_rng \<Rightarrow> u32 \<times> fast_rng" where
  "next_u32 r = (let (x, r') = next_u64 r in (ucast (drop_bit 32 x), r'))"

definition next_u16 :: "fast_rng \<Rightarrow> u16 \<times> fast_rng" where
  "next_u16 r = (let (x, r') = next_u32 r in (ucast (drop_bit 16 x), r'))"

definition next_in_range_u32 :: "u32 \<Rightarrow> u32 \<Rightarrow> fast_rng \<Rightarrow> (u32 \<times> fast_rng) outcome" where
  "next_in_range_u32 start stop r =
     assert_that (start < stop)
       (let (x, r') = next_u32 r in Done (x mod (stop - start) + start, r'))"

section \<open>Bounds\<close>

lemma range_bounds:
  fixes x start stop :: u32
  assumes "start < stop"
  shows "start \<le> x mod (stop - start) + start" and "x mod (stop - start) + start < stop"
proof -
  have diff: "unat (stop - start) = unat stop - unat start" "unat start < unat stop"
    using assms by (simp_all add: unat_sub word_less_nat_alt word_le_nat_alt)
  have "unat (x mod (stop - start)) < unat stop - unat start"
    using diff by (simp add: unat_mod_distrib)
  moreover have "unat stop < 2 ^ 32" using unsigned_less [of stop] by simp
  ultimately have "unat (x mod (stop - start) + start) = unat (x mod (stop - start)) + unat start"
    by (simp add: unat_word_ariths)
  with diff \<open>unat (x mod (stop - start)) < unat stop - unat start\<close>
  show "start \<le> x mod (stop - start) + start" and "x mod (stop - start) + start < stop"
    by (simp_all add: word_le_nat_alt word_less_nat_alt)
qed

lemma next_in_range_total:
  "start < stop \<Longrightarrow> \<exists>x r'. next_in_range_u32 start stop r = Done (x, r') \<and> start \<le> x \<and> x < stop"
  using range_bounds by (auto simp: next_in_range_u32_def split: prod.split)

section \<open>The state never becomes zero\<close>

lemma xor_shift_right_eq_0: "x XOR drop_bit k x = 0 \<Longrightarrow> 0 < k \<Longrightarrow> x = (0 :: u64)"
proof (rule ccontr)
  assume eq: "x XOR drop_bit k x = 0" and k: "0 < k" and "x \<noteq> 0"
  then obtain n where "bit x n" by (auto simp: bit_eq_iff)
  define m where "m = Max {n. bit x n}"
  have "finite {n. bit x n}"
    by (rule finite_subset [of _ "{..<64}"]) (auto dest: bit_imp_le_length)
  then have m: "bit x m" "\<And>j. bit x j \<Longrightarrow> j \<le> m"
    using Max_in [of "{n. bit x n}"] \<open>bit x n\<close> by (auto simp: m_def)
  then have "bit (x XOR drop_bit k x) m"
    using k m(2) [of "k + m"] by (auto simp: bit_xor_iff bit_drop_bit_eq)
  with eq show False by simp
qed

lemma xor_shift_left_eq_0: "x XOR push_bit k x = 0 \<Longrightarrow> 0 < k \<Longrightarrow> x = (0 :: u64)"
proof (rule ccontr)
  assume eq: "x XOR push_bit k x = 0" and k: "0 < k" and "x \<noteq> 0"
  then obtain n where "bit x n" by (auto simp: bit_eq_iff)
  define m where "m = (LEAST n. bit x n)"
  have m: "bit x m" "\<And>j. j < m \<Longrightarrow> \<not> bit x j"
    unfolding m_def using LeastI [of "bit x", OF \<open>bit x n\<close>] not_less_Least by blast+
  then have "bit (x XOR push_bit k x) m"
    using k by (auto simp: bit_xor_iff bit_push_bit_iff)
  with eq show False by simp
qed

lemma next_u64_state_nonzero:
  "rng_state r \<noteq> 0 \<Longrightarrow> rng_state (snd (next_u64 r)) \<noteq> 0"
proof -
  assume "rng_state r \<noteq> 0"
  define x1 where "x1 = rng_state r XOR drop_bit 12 (rng_state r)"
  define x2 where "x2 = x1 XOR push_bit 25 x1"
  have "x1 \<noteq> 0"
    using xor_shift_right_eq_0 [of "rng_state r" 12] \<open>rng_state r \<noteq> 0\<close> unfolding x1_def by linarith
  then have "x2 \<noteq> 0"
    using xor_shift_left_eq_0 [of x1 25] unfolding x2_def by linarith
  then have "x2 XOR drop_bit 27 x2 \<noteq> 0"
    using xor_shift_right_eq_0 [of x2 27] by linarith
  then show ?thesis
    unfolding next_u64_def Let_def x1_def [symmetric] x2_def [symmetric] by simp
qed

text \<open>The multiplier is odd, so it has an inverse modulo \<open>2 ^ 64\<close>.\<close>

lemma MAGIC_inverse: "MAGIC * 6415128727920758069 = 1"
  by (simp add: MAGIC_def)

lemma new_from_seed_nonzero:
  assumes "seed \<noteq> 0"
  shows "rng_state (new_from_seed seed) \<noteq> 0"
proof
  assume "rng_state (new_from_seed seed) = 0"
  then have "seed * MAGIC * 6415128727920758069 = 0" by (simp add: new_from_seed_def)
  then have "seed * (MAGIC * 6415128727920758069) = 0" by (simp only: mult.assoc)
  with assms show False by (simp only: MAGIC_inverse mult_1_right)
qed

section \<open>Properties\<close>

text \<open>Started from a non-zero seed the generator never reaches the all-zero state, from which
  every later output would be zero.\<close>

theorem rng_never_stuck:
  assumes "seed \<noteq> 0"
  shows "rng_state (((\<lambda>r. snd (next_u64 r)) ^^ n) (new_from_seed seed)) \<noteq> 0"
  by (induction n) (simp_all add: assms new_from_seed_nonzero next_u64_state_nonzero)

theorem rng_never_stuck_witness:
  "rng_state (((\<lambda>r. snd (next_u64 r)) ^^ 3) (new_from_seed 0x13374a4159421337)) \<noteq> 0"
  using rng_never_stuck [of "0x13374a4159421337" 3] by simp

end
