(* ===== verification/Path.thy ===== *)
theory Path
  imports Prelude "HOL-Library.Sublist"
begin

text \<open>
  Paths of \<^verbatim>\<open>litebox/src/path.rs\<close> as strings (the conversion of a C string to UTF-8 happens
  before). Normalisation runs over the components from the right and counts the \<open>..\<close> it still
  has to cancel; the lemmas relate it to the left-to-right walk with a stack that defines what
  normalisation means, and show that it is idempotent. \<open>increasing_ancestors\<close> is the loop
  over the slashes from the right.
\<close>

section \<open>Splitting and joining\<close>

text \<open>\<^verbatim>\<open>str::split('/')\<close>: never empty, the empty string has one empty component.\<close>

fun split_slash :: "string \<Rightarrow> string list" where
  "split_slash [] = [[]]"
| "split_slash (c # cs) =
     (if c = CHR ''/'' then [] # split_slash cs
      else (c # hd (split_slash cs)) # tl (split_slash cs))"

text \<open>\<^verbatim>\<open>[&str]::join("/")\<close>.\<close>

fun join_slash :: "string list \<Rightarrow> string" where
  "join_slash [] = []"
| "join_slash [w] = w"
| "join_slash (w # ws) = w @ CHR ''/'' # join_slash ws"

definition starts_with_slash :: "string \<Rightarrow> bool" where
  "starts_with_slash s = (case s of [] \<Rightarrow> False | c # _ \<Rightarrow> c = CHR ''/'')"

section \<open>The operations\<close>

definition components :: "string \<Rightarrow> string list" where
  "components s = split_slash s"

text \<open>The filter closure over the components from the right, with the counter it captures.\<close>

fun cancel_parents :: "nat \<Rightarrow> string list \<Rightarrow> string list \<times> nat" where
  "cancel_parents n [] = ([], n)"
| "cancel_parents n (c # cs) =
     (if c = '''' \<or> c = ''.'' then cancel_parents n cs
      else if c = ''..'' then cancel_parents (n + 1) cs
      else if n > 0 then cancel_parents (n - 1) cs
      else let (kept, m) = cancel_parents n cs in (c # kept, m))"

definition normalized_components :: "string \<Rightarrow> string list" where
  "normalized_components s =
     (let (kept, parent_count) = cancel_parents 0 (rev (split_slash s));
          rev_norm = kept @ replicate parent_count ''..'' @ (if starts_with_slash s then [''''] else [])
      in rev rev_norm)"

definition normalized :: "string \<Rightarrow> string" where
  "normalized s = join_slash (normalized_components s)"

text \<open>\<^verbatim>\<open>str::rfind('/')\<close>.\<close>

fun rfind_slash :: "string \<Rightarrow> nat option" where
  "rfind_slash [] = None"
| "rfind_slash (c # cs) =
     (case rfind_slash cs of
        Some i \<Rightarrow> Some (Suc i)
      | None \<Rightarrow> if c = CHR ''/'' then Some 0 else None)"

lemma rfind_slash_Some:
  "rfind_slash s = Some i \<Longrightarrow> i < length s \<and> s ! i = CHR ''/'' \<and> (\<forall>j. i < j \<and> j < length s \<longrightarrow> s ! j \<noteq> CHR ''/'')"
proof (induction s arbitrary: i)
  case (Cons c cs)
  show ?case
  proof (cases "rfind_slash cs")
    case None
    then have "\<forall>j < length cs. cs ! j \<noteq> CHR ''/''"
      by (induction cs) (auto simp: nth_Cons split: option.splits if_splits nat.splits)
    with None Cons.prems show ?thesis
      by (auto simp: nth_Cons split: if_splits nat.splits)
  next
    case (Some k)
    with Cons.prems have "i = Suc k" by simp
    with Cons.IH [OF Some] show ?thesis by (auto simp: nth_Cons split: nat.splits)
  qed
qed simp

lemma rfind_slash_None: "rfind_slash s = None \<longleftrightarrow> CHR ''/'' \<notin> set s"
  by (induction s) (auto split: option.splits)

text \<open>The while loop, with the vector it builds (in push order).\<close>

function ancestors_loop :: "string \<Rightarrow> string list" where
  "ancestors_loop path =
     (if path = [] then []
      else
        path #
        (case rfind_slash path of
           Some posn \<Rightarrow> ancestors_loop (take posn path)
         | None \<Rightarrow> ['''']))"
  by auto
termination
  by (relation "measure length") (auto dest: rfind_slash_Some)

declare ancestors_loop.simps [simp del]

definition increasing_ancestors :: "string \<Rightarrow> string list outcome" where
  "increasing_ancestors path =
     (if path = [] then Done ['''']
      else
        let res = ancestors_loop path in
        if res = [] then Panic
        else
          let res = (if length (last res) > 1 then res @ [''/''] else res)
          in Done (rev res))"

section \<open>Split and join\<close>

lemma split_slash_not_Nil [simp]: "split_slash s \<noteq> []"
  by (cases s) auto

lemma split_slash_no_slash: "w \<in> set (split_slash s) \<Longrightarrow> CHR ''/'' \<notin> set w"
proof (induction s arbitrary: w)
  case (Cons c s)
  then show ?case
    using list.set_sel [of "split_slash s"] by (auto split: if_splits)
qed simp

lemma split_slash_word: "CHR ''/'' \<notin> set w \<Longrightarrow> split_slash w = [w]"
  by (induction w) auto

lemma split_slash_append:
  "CHR ''/'' \<notin> set w \<Longrightarrow> split_slash (w @ CHR ''/'' # s) = w # split_slash s"
  by (induction w) auto

lemma split_join:
  "ws \<noteq> [] \<Longrightarrow> \<forall>w \<in> set ws. CHR ''/'' \<notin> set w \<Longrightarrow> split_slash (join_slash ws) = ws"
  by (induction ws rule: join_slash.induct) (auto simp: split_slash_word split_slash_append)

lemma join_split: "join_slash (split_slash s) = s"
proof (induction s)
  case (Cons c s)
  then show ?case
    by (cases "split_slash s"; cases "tl (split_slash s)") auto
qed simp

lemma join_slash_append:
  "xs \<noteq> [] \<Longrightarrow> ys \<noteq> [] \<Longrightarrow> join_slash (xs @ ys) = join_slash xs @ CHR ''/'' # join_slash ys"
  by (induction xs rule: join_slash.induct) (auto simp: neq_Nil_conv)

section \<open>Normalisation\<close>

text \<open>
  What normalisation means: walk the components from the left and keep a stack (top first). An
  empty component and \<open>.\<close> are skipped, \<open>..\<close> pops a name, or stays when there is none.
\<close>

definition walk_step :: "string list \<Rightarrow> string \<Rightarrow> string list" where
  "walk_step st c =
     (if c = '''' \<or> c = ''.'' then st
      else if c = ''..'' then
        (case st of
           t # ts \<Rightarrow> if t = ''..'' then ''..'' # st else ts
         | [] \<Rightarrow> [''..''])
      else c # st)"

definition walk :: "string list \<Rightarrow> string list" where
  "walk cs = rev (foldl walk_step [] cs)"

lemma cancel_parents_Suc:
  "cancel_parents (Suc n) cs =
     (let (k, m) = cancel_parents n cs in if k = [] then ([], Suc m) else (tl k, m))"
proof (induction cs arbitrary: n)
  case (Cons c cs)
  show ?case
    by (cases n) (auto simp: Cons Let_def split: prod.splits)
qed simp

lemma cancel_parents_names:
  "w \<in> set (fst (cancel_parents n cs)) \<Longrightarrow> w \<in> set cs \<and> w \<noteq> '''' \<and> w \<noteq> ''.'' \<and> w \<noteq> ''..''"
  by (induction n cs rule: cancel_parents.induct) (auto split: if_splits prod.splits)

lemma walk_cancel_parents:
  "foldl walk_step [] cs = (let (k, m) = cancel_parents 0 (rev cs) in k @ replicate m ''..'')"
proof (induction cs rule: rev_induct)
  case (snoc c cs)
  obtain k m where km: "cancel_parents 0 (rev cs) = (k, m)" by force
  have "''..'' \<notin> set k" using cancel_parents_names [of _ 0 "rev cs"] km by auto
  then show ?case
    using snoc km
    by (cases k; cases m) (auto simp: walk_step_def cancel_parents_Suc Let_def)
qed simp

lemma normalized_components_walk:
  "normalized_components s = (if starts_with_slash s then [''''] else []) @ walk (split_slash s)"
  by (auto simp: normalized_components_def walk_def walk_cancel_parents split: prod.splits)

text \<open>The shape of a result: some \<open>..\<close>, then proper names.\<close>

definition proper_name :: "string \<Rightarrow> bool" where
  "proper_name w \<longleftrightarrow> w \<noteq> '''' \<and> w \<noteq> ''.'' \<and> w \<noteq> ''..'' \<and> CHR ''/'' \<notin> set w"

definition normal_form :: "string list \<Rightarrow> bool" where
  "normal_form ws \<longleftrightarrow> list_all proper_name (dropWhile (\<lambda>w. w = ''..'') ws)"

lemma normal_form_append:
  "list_all proper_name names \<Longrightarrow> normal_form (replicate m ''..'' @ names)"
proof -
  assume names: "list_all proper_name names"
  have "dropWhile (\<lambda>w. w = ''..'') (replicate m ''..'' @ names) = dropWhile (\<lambda>w. w = ''..'') names"
    by (induction m) simp_all
  moreover have "set (dropWhile (\<lambda>w. w = ''..'') names) \<subseteq> set names"
    by (auto dest: set_dropWhileD)
  ultimately show ?thesis
    using names unfolding normal_form_def list_all_iff by auto
qed

lemma normal_form_cases:
  assumes "normal_form ws"
  obtains m names where "ws = replicate m ''..'' @ names" "list_all proper_name names"
proof
  have "takeWhile (\<lambda>w. w = ''..'') ws = replicate (length (takeWhile (\<lambda>w. w = ''..'') ws)) ''..''"
    by (rule replicate_eqI) (auto dest: set_takeWhileD)
  then show "ws = replicate (length (takeWhile (\<lambda>w. w = ''..'') ws)) ''..'' @ dropWhile (\<lambda>w. w = ''..'') ws"
    by (metis takeWhile_dropWhile_id)
qed (use assms in \<open>simp add: normal_form_def\<close>)

lemma walk_normal_form:
  assumes "\<forall>w \<in> set cs. CHR ''/'' \<notin> set w"
  shows "normal_form (walk cs)"
proof -
  obtain k m where km: "cancel_parents 0 (rev cs) = (k, m)" by force
  then have "list_all proper_name (rev k)"
    using cancel_parents_names [of _ 0 "rev cs"] assms by (auto simp: list_all_iff proper_name_def)
  with km show ?thesis by (simp add: walk_def walk_cancel_parents normal_form_append)
qed

lemma foldl_walk_parents: "foldl walk_step (replicate n ''..'') (replicate m ''..'') = replicate (n + m) ''..''"
proof (induction m arbitrary: n)
  case (Suc m)
  have "walk_step (replicate n ''..'') ''..'' = replicate (Suc n) ''..''"
    by (cases n) (simp_all add: walk_step_def)
  with Suc [of "Suc n"] show ?case by simp
qed simp

lemma foldl_walk_names: "list_all proper_name names \<Longrightarrow> foldl walk_step st names = rev names @ st"
  by (induction names arbitrary: st) (auto simp: walk_step_def proper_name_def)

lemma walk_id: "normal_form ws \<Longrightarrow> walk ws = ws"
  by (erule normal_form_cases) (use foldl_walk_parents [of 0] in \<open>simp add: walk_def foldl_walk_names\<close>)

lemma walk_skip: "walk ('''' # cs) = walk cs"
  by (simp add: walk_def walk_step_def)

lemma normal_form_words:
  assumes "normal_form ws" and "w \<in> set ws"
  shows "w \<noteq> [] \<and> CHR ''/'' \<notin> set w"
proof -
  obtain m names where "ws = replicate m ''..'' @ names" "list_all proper_name names"
    using assms(1) by (rule normal_form_cases)
  with assms(2) have "w = ''..'' \<or> proper_name w" by (auto simp: list_all_iff)
  then show ?thesis by (elim disjE) (simp_all add: proper_name_def)
qed

lemma normalized_eq:
  obtains C where "normal_form C"
    and "walk (split_slash s) = C"
    and "normalized s = join_slash ((if starts_with_slash s then [''''] else []) @ C)"
  using walk_normal_form [of "split_slash s"] split_slash_no_slash
  by (auto simp: normalized_def normalized_components_walk)

lemma starts_with_slash_join:
  "normal_form C \<Longrightarrow> \<not> starts_with_slash (join_slash C)"
proof (cases C rule: join_slash.cases)
  case (2 w)
  moreover assume "normal_form C"
  ultimately show ?thesis using normal_form_words [of C w] by (cases w) (auto simp: starts_with_slash_def)
next
  case (3 w v ws)
  moreover assume "normal_form C"
  ultimately show ?thesis using normal_form_words [of C w] by (cases w) (auto simp: starts_with_slash_def)
qed (simp add: starts_with_slash_def)

lemma normalized_join:
  assumes "normal_form C"
  shows "normalized (join_slash C) = join_slash C"
    and "normalized (join_slash ('''' # C)) = join_slash ('''' # C)"
proof -
  have words: "\<forall>w \<in> set C. CHR ''/'' \<notin> set w" using normal_form_words [OF assms] by blast
  show "normalized (join_slash C) = join_slash C"
  proof (cases "C = []")
    case False
    with words have "split_slash (join_slash C) = C" by (simp add: split_join)
    then show ?thesis
      by (simp add: normalized_def normalized_components_walk starts_with_slash_join assms walk_id)
  qed (simp add: normalized_def normalized_components_walk starts_with_slash_def walk_def walk_step_def)
  show "normalized (join_slash ('''' # C)) = join_slash ('''' # C)"
  proof (cases "C = []")
    case False
    then have join: "join_slash ('''' # C) = CHR ''/'' # join_slash C" by (cases C) simp_all
    have "split_slash (join_slash ('''' # C)) = '''' # C"
      using words False by (simp add: join split_join)
    moreover have "starts_with_slash (join_slash ('''' # C))"
      by (simp add: join starts_with_slash_def)
    ultimately show ?thesis
      by (simp add: normalized_def normalized_components_walk walk_skip assms walk_id)
  qed (simp add: normalized_def normalized_components_walk starts_with_slash_def walk_def walk_step_def)
qed

section \<open>Ancestors\<close>

text \<open>The proper prefixes that end before a slash which is not the first character.\<close>

definition slash_prefixes :: "string \<Rightarrow> string set" where
  "slash_prefixes s = {take i s |i. 0 < i \<and> i < length s \<and> s ! i = CHR ''/''}"

lemma slash_prefixes_take:
  assumes "rfind_slash s = Some i" and "0 < i"
  shows "slash_prefixes s = insert (take i s) (slash_prefixes (take i s))"
proof -
  note i = rfind_slash_Some [OF assms(1)]
  have "take k s \<in> insert (take i s) (slash_prefixes (take i s))"
    if k: "0 < k" "k < length s" "s ! k = CHR ''/''" for k
  proof -
    have "k \<le> i" using i k by (meson leI)
    then show ?thesis
    proof (cases "k = i")
      case False
      with \<open>k \<le> i\<close> i k have "take k s = take k (take i s)" "k < length (take i s)"
        "take i s ! k = CHR ''/''" by auto
      with k(1) show ?thesis unfolding slash_prefixes_def by blast
    qed simp
  qed
  moreover have "take k (take i s) \<in> slash_prefixes s"
    if "0 < k" "k < length (take i s)" "take i s ! k = CHR ''/''" for k
    using that i unfolding slash_prefixes_def by (auto simp: min_def)
  moreover have "take i s \<in> slash_prefixes s"
    using i assms(2) unfolding slash_prefixes_def by blast
  ultimately show ?thesis unfolding slash_prefixes_def by blast
qed

lemma slash_prefixes_none:
  "rfind_slash s = None \<or> rfind_slash s = Some 0 \<Longrightarrow> slash_prefixes s = {}"
  by (auto simp: slash_prefixes_def rfind_slash_None dest: rfind_slash_Some nth_mem)

definition root_of :: "string \<Rightarrow> string" where
  "root_of s = (if starts_with_slash s then ''/'' else '''')"

lemma starts_with_slash_take: "0 < i \<Longrightarrow> starts_with_slash (take i s) = starts_with_slash s"
  by (cases s; cases i) (auto simp: starts_with_slash_def)

lemma strict_prefix_take: "i < length s \<Longrightarrow> strict_prefix (take i s) s"
  by (metis length_take less_irrefl min.absorb4 strict_prefix_def take_is_prefix)

lemma ancestors_loop_spec:
  assumes "s \<noteq> []"
  shows "ancestors_loop s \<noteq> [] \<and> hd (ancestors_loop s) = s \<and>
    sorted_wrt (\<lambda>x y. strict_prefix y x) (ancestors_loop s) \<and>
    set (ancestors_loop s) = insert s (slash_prefixes s) \<union> (if starts_with_slash s then {} else {''''})"
  using assms
proof (induction s rule: ancestors_loop.induct)
  case (1 s)
  consider (none) "rfind_slash s = None" | (first) "rfind_slash s = Some 0"
    | (inner) i where "rfind_slash s = Some i" "0 < i" by (cases "rfind_slash s") auto
  then show ?case
  proof cases
    case none
    then have "CHR ''/'' \<notin> set s" using rfind_slash_None by blast
    then have "\<not> starts_with_slash s"
      by (cases s) (auto simp: starts_with_slash_def)
    with none \<open>s \<noteq> []\<close> show ?thesis
      by (simp add: ancestors_loop.simps [of s] slash_prefixes_none strict_prefix_def insert_commute)
  next
    case first
    with \<open>s \<noteq> []\<close> have "starts_with_slash s"
      using rfind_slash_Some [OF first] by (cases s) (auto simp: starts_with_slash_def)
    with first \<open>s \<noteq> []\<close> show ?thesis
      by (simp add: ancestors_loop.simps [of s] ancestors_loop.simps [of "[]"] slash_prefixes_none)
  next
    case (inner i)
    note i = rfind_slash_Some [OF inner(1)]
    define t where "t = take i s"
    have t: "t \<noteq> []" "strict_prefix t s" "starts_with_slash t = starts_with_slash s"
      using i inner(2) \<open>s \<noteq> []\<close> by (simp_all add: t_def starts_with_slash_take strict_prefix_take)
    have IH: "ancestors_loop t \<noteq> [] \<and> hd (ancestors_loop t) = t \<and>
      sorted_wrt (\<lambda>x y. strict_prefix y x) (ancestors_loop t) \<and>
      set (ancestors_loop t) = insert t (slash_prefixes t) \<union> (if starts_with_slash t then {} else {''''})"
      using "1.IH" [OF \<open>s \<noteq> []\<close> inner(1)] t(1) by (simp add: t_def)
    have eq: "ancestors_loop s = s # ancestors_loop t"
      using \<open>s \<noteq> []\<close> inner(1) by (simp add: ancestors_loop.simps [of s] t_def)
    have "strict_prefix x s" if "x \<in> set (ancestors_loop t)" for x
    proof -
      from that IH obtain r where "ancestors_loop t = t # r" by (cases "ancestors_loop t") auto
      with that IH have "x = t \<or> strict_prefix x t" by auto
      with t(2) show ?thesis by (metis prefix_order.less_trans)
    qed
    moreover have "slash_prefixes s = insert t (slash_prefixes t)"
      using slash_prefixes_take [OF inner] by (simp add: t_def)
    ultimately show ?thesis using IH t(3) by (auto simp: eq)
  qed
qed

lemma ancestors_loop_absolute:
  assumes "s \<noteq> []" and "starts_with_slash s" and "x \<in> set (ancestors_loop s)"
  shows "x \<noteq> [] \<and> starts_with_slash x" and "length (last (ancestors_loop s)) \<le> length x"
proof -
  note spec = ancestors_loop_spec [OF assms(1)]
  have "x = s \<or> (\<exists>i. 0 < i \<and> i < length s \<and> x = take i s)"
    using spec assms(2,3) by (auto simp: slash_prefixes_def)
  then show "x \<noteq> [] \<and> starts_with_slash x"
    using assms(1,2) starts_with_slash_take by auto
  obtain ys y where ys: "ancestors_loop s = ys @ [y]" using spec by (metis rev_exhaust)
  have "x = y \<or> strict_prefix y x"
    using spec assms(3) unfolding ys by (auto simp: sorted_wrt_append)
  then show "length (last (ancestors_loop s)) \<le> length x"
    unfolding ys by (auto dest: prefix_length_less)
qed

lemma ancestors_relative:
  assumes "s \<noteq> []" and "\<not> starts_with_slash s"
  shows "last (ancestors_loop s) = ''''"
proof -
  note spec = ancestors_loop_spec [OF assms(1)]
  then have mem: "'''' \<in> set (ancestors_loop s)" using assms(2) by auto
  obtain ys y where ys: "ancestors_loop s = ys @ [y]" using spec by (metis rev_exhaust)
  show ?thesis
  proof (rule ccontr)
    assume "last (ancestors_loop s) \<noteq> ''''"
    with mem ys have "'''' \<in> set ys" by auto
    with spec ys have "strict_prefix y ''''" by (auto simp: sorted_wrt_append)
    then show False by simp
  qed
qed

section \<open>Properties\<close>

text \<open>C21: The right-to-left normalisation with a counter of pending \<open>..\<close> computes the
  left-to-right walk with a stack: empty components and \<open>.\<close> vanish, \<open>..\<close> cancels the nearest name
  before it and stays where there is none, and a leading slash becomes one empty component.\<close>

theorem normalized_components_correct:
  "normalized_components s =
     (if starts_with_slash s then [''''] else []) @ rev (foldl walk_step [] (components s))"
  using normalized_components_walk [of s] by (simp add: components_def walk_def)

text \<open>Normalising a path a second time changes nothing.\<close>

theorem normalized_idempotent: "normalized (normalized s) = normalized s"
proof (rule normalized_eq [of s])
  fix C
  assume "normal_form C"
    and "normalized s = join_slash ((if starts_with_slash s then [''''] else []) @ C)"
  then show ?thesis using normalized_join [of C] by (cases "starts_with_slash s") simp_all
qed

text \<open>C22: \<open>increasing_ancestors\<close> never panics and returns the root first (\<open>/\<close> or the empty string),
  then every prefix of the path that ends before a later slash, each a proper prefix of the next,
  and the path itself last.\<close>

theorem increasing_ancestors_correct:
  "\<exists>res. increasing_ancestors s = Done res \<and> res \<noteq> [] \<and>
     sorted_wrt strict_prefix res \<and> hd res = root_of s \<and> last res = s \<and>
     set res = {root_of s, s} \<union> {take i s |i. 0 < i \<and> i < length s \<and> s ! i = CHR ''/''}"
proof (cases "s = []")
  case True
  then show ?thesis by (simp add: increasing_ancestors_def root_of_def starts_with_slash_def)
next
  case False
  define res where "res = ancestors_loop s"
  have spec: "res \<noteq> []" "hd res = s" "sorted_wrt strict_prefix (rev res)"
      "set res = insert s (slash_prefixes s) \<union> (if starts_with_slash s then {} else {''''})"
    using ancestors_loop_spec [OF False] by (simp_all add: res_def sorted_wrt_rev)
  show ?thesis
  proof (cases "length (last res) > 1")
    case True
    have abs: "starts_with_slash s"
      using ancestors_relative [OF False] True by (cases "starts_with_slash s") (simp_all add: res_def)
    have less: "strict_prefix ''/'' x" if "x \<in> set res" for x
      using ancestors_loop_absolute [OF False abs, of x] True that
      by (cases x) (auto simp: res_def starts_with_slash_def strict_prefix_def)
    have "increasing_ancestors s = Done (''/'' # rev res)"
      using True False spec(1) by (simp add: increasing_ancestors_def res_def)
    then show ?thesis
      using spec less abs by (auto simp: last_rev root_of_def slash_prefixes_def)
  next
    case short: False
    have "increasing_ancestors s = Done (rev res)"
      using short False spec(1) by (simp add: increasing_ancestors_def res_def)
    moreover have "last res = root_of s"
    proof (cases "starts_with_slash s")
      case True
      have "last res \<in> set (ancestors_loop s)" using spec(1) by (simp add: res_def)
      then have "last res \<noteq> [] \<and> starts_with_slash (last res)"
        by (rule ancestors_loop_absolute(1) [OF False True])
      with True short show ?thesis
        by (cases "last res") (auto simp: root_of_def starts_with_slash_def)
    qed (simp add: res_def root_of_def ancestors_relative False)
    moreover have "root_of s \<in> set res"
      using spec(1) calculation(2) last_in_set by metis
    ultimately show ?thesis
      using spec
      by (auto simp: hd_rev last_rev root_of_def slash_prefixes_def split: if_splits)
  qed
qed

end
