(* ===== verification/AnyMap.thy ===== *)
theory AnyMap
  imports Prelude
begin

text \<open>
  The store of one value per type of \<^verbatim>\<open>litebox/src/utilities/anymap.rs\<close>. A boxed
  \<^verbatim>\<open>dyn Any\<close> is a value with the identifier of its type; a downcast to another type fails, and
  the \<^verbatim>\<open>expect(GUARANTEED)\<close> on it is a panic. The invariant says that every value is stored
  under its own type, so no downcast fails.
\<close>

type_synonym type_id = nat

datatype 'v any = Any (any_type: type_id) (any_value: 'v)

type_synonym 'v any_map = "(type_id \<times> 'v any) list"

definition downcast :: "type_id \<Rightarrow> 'v any \<Rightarrow> 'v option" where
  "downcast t b = (if any_type b = t then Some (any_value b) else None)"

definition anymap_new :: "'v any_map" where
  "anymap_new = []"

definition anymap_insert :: "type_id \<Rightarrow> 'v \<Rightarrow> 'v any_map \<Rightarrow> ('v option \<times> 'v any_map) outcome" where
  "anymap_insert t v m =
     (let m' = AList.update t (Any t v) m in
      case map_of m t of
        None \<Rightarrow> Done (None, m')
      | Some old \<Rightarrow> obind (unwrap (downcast t old)) (\<lambda>o'. Done (Some o', m')))"

definition anymap_get :: "type_id \<Rightarrow> 'v any_map \<Rightarrow> 'v option outcome" where
  "anymap_get t m =
     (case map_of m t of
        None \<Rightarrow> Done None
      | Some b \<Rightarrow> obind (unwrap (downcast t b)) (\<lambda>v. Done (Some v)))"

text \<open>\<open>get_mut\<close> with the write through the reference: the new value replaces the old one.\<close>

definition anymap_get_mut ::
    "type_id \<Rightarrow> ('v \<Rightarrow> 'r \<times> 'v) \<Rightarrow> 'v any_map \<Rightarrow> ('r option \<times> 'v any_map) outcome" where
  "anymap_get_mut t f m =
     (case map_of m t of
        None \<Rightarrow> Done (None, m)
      | Some b \<Rightarrow> obind (unwrap (downcast t b)) (\<lambda>v.
          let (r, v') = f v in Done (Some r, AList.update t (Any t v') m)))"

definition anymap_remove :: "type_id \<Rightarrow> 'v any_map \<Rightarrow> ('v option \<times> 'v any_map) outcome" where
  "anymap_remove t m =
     (case map_of m t of
        None \<Rightarrow> Done (None, m)
      | Some b \<Rightarrow> obind (unwrap (downcast t b)) (\<lambda>v. Done (Some v, AList.delete t m)))"

definition anymap_ok :: "'v any_map \<Rightarrow> bool" where
  "anymap_ok m \<longleftrightarrow> (\<forall>t b. map_of m t = Some b \<longrightarrow> any_type b = t)"

text \<open>The typed content: what a lookup at a type yields.\<close>

definition typed :: "'v any_map \<Rightarrow> type_id \<rightharpoonup> 'v" where
  "typed m t = map_option any_value (map_of m t)"

lemma anymap_new_ok [simp]: "anymap_ok anymap_new" "typed anymap_new = Map.empty"
  by (auto simp: anymap_ok_def anymap_new_def typed_def)

lemma anymap_get_eq [simp]: "anymap_ok m \<Longrightarrow> anymap_get t m = Done (typed m t)"
  by (auto simp: anymap_get_def anymap_ok_def typed_def downcast_def split: option.split)

lemma anymap_insert_eq:
  assumes "anymap_ok m"
  shows "\<exists>m'. anymap_insert t v m = Done (typed m t, m') \<and> anymap_ok m' \<and> typed m' = (typed m)(t \<mapsto> v)"
  using assms
  by (auto simp: anymap_insert_def anymap_ok_def typed_def downcast_def update_conv' fun_eq_iff Let_def
      split: option.split)

lemma anymap_get_mut_eq:
  assumes "anymap_ok m"
  shows "\<exists>m'. anymap_get_mut t f m = Done (map_option (\<lambda>v. fst (f v)) (typed m t), m') \<and> anymap_ok m' \<and>
    typed m' = (case typed m t of None \<Rightarrow> typed m | Some v \<Rightarrow> (typed m)(t \<mapsto> snd (f v)))"
  using assms
  by (auto simp: anymap_get_mut_def anymap_ok_def typed_def downcast_def update_conv' fun_eq_iff Let_def
      split: option.split prod.split)

lemma anymap_remove_eq:
  assumes "anymap_ok m"
  shows "\<exists>m'. anymap_remove t m = Done (typed m t, m') \<and> anymap_ok m' \<and> typed m' = (typed m)(t := None)"
  using assms
  by (auto simp: anymap_remove_def anymap_ok_def typed_def downcast_def delete_conv' fun_eq_iff
      split: option.split)

end
