(* ===== verification/Descriptors.thy ===== *)
theory Descriptors
  imports AnyMap Resource
begin

text \<open>
  The descriptor table of \<^verbatim>\<open>litebox/src/fd/mod.rs\<close> (\<open>Descriptors\<close>). A slot holds an
  \<^verbatim>\<open>Arc\<close> to a locked entry plus the metadata of the descriptor itself; duplicates of a
  descriptor share the entry. The \<^verbatim>\<open>Arc\<close>s are an explicit heap: an address maps to the strong
  count and the entry, so sharing, "was this the last reference" and the drain of a closing queue
  are visible in the model. Locks are taken and released within one call; where the code only
  tries to lock, the answer is a parameter.
\<close>

section \<open>Entries, slots and the heap of reference-counted entries\<close>

record ('e, 'm) descriptor_entry =
  entry_box :: "'e any"
  entry_metadata :: "'m any_map"

record 'v arc_cell =
  strong :: nat
  content :: 'v

record 'm individual_entry =
  arc :: nat
  fd_metadata :: "'m any_map"

record ('e, 'm) descriptors =
  entries :: "'m individual_entry option list"
  arcs :: "nat \<rightharpoonup> ('e, 'm) descriptor_entry arc_cell"
  next_arc :: nat

text \<open>
  An owned descriptor: the index and the closed flag. \<open>typed_fd\<close> adds the type parameter of
  \<^verbatim>\<open>TypedFd<Subsystem>\<close>, the type of the subsystem's entries. The flag is written through a
  shared reference, so operations that close a descriptor return it updated.
\<close>

record owned_fd =
  raw :: nat
  closed :: bool

record typed_fd = owned_fd +
  subsystem :: type_id

definition owned_fd_new :: "type_id \<Rightarrow> nat \<Rightarrow> typed_fd outcome" where
  "owned_fd_new sub i = (if i \<le> u32_max then Done \<lparr>raw = i, closed = False, subsystem = sub\<rparr> else Panic)"

definition mark_as_closed :: "typed_fd \<Rightarrow> typed_fd outcome" where
  "mark_as_closed fd = assert_that (\<not> closed fd) (Done (fd\<lparr>closed := True\<rparr>))"

definition as_usize :: "typed_fd \<Rightarrow> nat option" where
  "as_usize fd = (if closed fd then None else Some (raw fd))"

definition as_internal_fd :: "typed_fd \<Rightarrow> nat outcome" where
  "as_internal_fd fd = assert_that (\<not> closed fd) (Done (raw fd))"

definition matches_subsystem :: "type_id \<Rightarrow> ('e, 'm) descriptor_entry \<Rightarrow> bool" where
  "matches_subsystem sub e \<longleftrightarrow> any_type (entry_box e) = sub"

definition as_subsystem :: "type_id \<Rightarrow> ('e, 'm) descriptor_entry \<Rightarrow> 'e outcome" where
  "as_subsystem sub e = unwrap (downcast sub (entry_box e))"

text \<open>\<^verbatim>\<open>Arc::new\<close>, \<^verbatim>\<open>Arc::clone\<close>, and the drop of a reference. \<open>arc_into_inner\<close> is
  \<^verbatim>\<open>Arc::into_inner\<close>: the content when it was the last reference.\<close>

definition arc_new :: "('e, 'm) descriptor_entry \<Rightarrow> ('e, 'm) descriptors \<Rightarrow> nat \<times> ('e, 'm) descriptors" where
  "arc_new e d =
     (next_arc d, d\<lparr>arcs := (arcs d)(next_arc d \<mapsto> \<lparr>strong = 1, content = e\<rparr>), next_arc := next_arc d + 1\<rparr>)"

definition arc_clone :: "nat \<Rightarrow> ('e, 'm) descriptors \<Rightarrow> ('e, 'm) descriptors" where
  "arc_clone a d =
     (case arcs d a of
        None \<Rightarrow> d
      | Some c \<Rightarrow> d\<lparr>arcs := (arcs d)(a \<mapsto> c\<lparr>strong := strong c + 1\<rparr>)\<rparr>)"

definition arc_into_inner ::
    "nat \<Rightarrow> ('e, 'm) descriptors \<Rightarrow> ('e, 'm) descriptor_entry option \<times> ('e, 'm) descriptors" where
  "arc_into_inner a d =
     (case arcs d a of
        None \<Rightarrow> (None, d)
      | Some c \<Rightarrow>
          if strong c = 1 then (Some (content c), d\<lparr>arcs := (arcs d)(a := None)\<rparr>)
          else (None, d\<lparr>arcs := (arcs d)(a \<mapsto> c\<lparr>strong := strong c - 1\<rparr>)\<rparr>))"

definition strong_count :: "nat \<Rightarrow> ('e, 'm) descriptors \<Rightarrow> nat" where
  "strong_count a d = (case arcs d a of None \<Rightarrow> 0 | Some c \<Rightarrow> strong c)"

section \<open>The operations of the table\<close>

definition new_from_litebox_creation :: "('e, 'm) descriptors" where
  "new_from_litebox_creation = \<lparr>entries = [], arcs = Map.empty, next_arc = 0\<rparr>"

text \<open>The first free slot, pushing one when there is none.\<close>

definition free_slot :: "('e, 'm) descriptors \<Rightarrow> nat \<times> ('e, 'm) descriptors" where
  "free_slot d =
     (let i = first_free (entries d) in
      (i, if i = length (entries d) then d\<lparr>entries := entries d @ [None]\<rparr> else d))"

text \<open>\<^verbatim>\<open>self.entries[idx].replace(x)\<close> with the assertion that the slot was empty.\<close>

definition fill_slot ::
    "nat \<Rightarrow> 'm individual_entry \<Rightarrow> ('e, 'm) descriptors \<Rightarrow> ('e, 'm) descriptors outcome" where
  "fill_slot i x d =
     assert_that (i < length (entries d) \<and> entries d ! i = None)
       (Done (d\<lparr>entries := (entries d)[i := Some x]\<rparr>))"

definition insert_fd ::
    "type_id \<Rightarrow> 'e \<Rightarrow> ('e, 'm) descriptors \<Rightarrow> (typed_fd \<times> ('e, 'm) descriptors) outcome" where
  "insert_fd sub e d =
     (let (i, d1) = free_slot d;
          (a, d2) = arc_new \<lparr>entry_box = Any sub e, entry_metadata = anymap_new\<rparr> d1
      in obind (fill_slot i \<lparr>arc = a, fd_metadata = anymap_new\<rparr> d2) (\<lambda>d3.
         obind (owned_fd_new sub i) (\<lambda>fd.
           Done (fd, d3))))"

definition duplicate ::
    "typed_fd \<Rightarrow> ('e, 'm) descriptors \<Rightarrow> (typed_fd option \<times> ('e, 'm) descriptors) outcome" where
  "duplicate fd d =
     (let (i, d1) = free_slot d in
      case as_usize fd of
        None \<Rightarrow> Done (None, d1)
      | Some j \<Rightarrow>
          obind (unwrap (slice_get (entries d1) j)) (\<lambda>slot.
          obind (unwrap slot) (\<lambda>ie.
          obind (fill_slot i \<lparr>arc = arc ie, fd_metadata = anymap_new\<rparr> (arc_clone (arc ie) d1)) (\<lambda>d2.
          obind (owned_fd_new (subsystem fd) i) (\<lambda>fd'.
            Done (Some fd', d2))))))"

definition remove_fd ::
    "typed_fd \<Rightarrow> ('e, 'm) descriptors \<Rightarrow> ('e option \<times> typed_fd \<times> ('e, 'm) descriptors) outcome" where
  "remove_fd fd d =
     (case as_usize fd of
        None \<Rightarrow> Done (None, fd, d)
      | Some j \<Rightarrow>
          obind (unwrap (slice_get (entries d) j)) (\<lambda>slot.
            case slot of
              None \<Rightarrow> Done (None, fd, d)
            | Some old \<Rightarrow>
                obind (mark_as_closed fd) (\<lambda>fd'.
                  let (inner, d') = arc_into_inner (arc old) (d\<lparr>entries := (entries d)[j := None]\<rparr>) in
                  case inner of
                    None \<Rightarrow> Done (None, fd', d')
                  | Some e \<Rightarrow> obind (as_subsystem (subsystem fd) e) (\<lambda>x. Done (Some x, fd', d')))))"

datatype 'e close_result = Closed 'e | Duplicated typed_fd | Deferred

definition close_and_duplicate_if_shared ::
    "typed_fd \<Rightarrow> ('e \<Rightarrow> bool) \<Rightarrow> ('e, 'm) descriptors \<Rightarrow>
     ('e close_result option \<times> typed_fd \<times> ('e, 'm) descriptors) outcome" where
  "close_and_duplicate_if_shared fd can_close_immediately d =
     (case as_usize fd of
        None \<Rightarrow> Done (None, fd, d)
      | Some j \<Rightarrow>
          obind (unwrap (slice_get (entries d) j)) (\<lambda>slot.
            case slot of
              None \<Rightarrow> Done (None, fd, d)
            | Some old \<Rightarrow>
                let d1 = d\<lparr>entries := (entries d)[j := None]\<rparr> in
                obind (unwrap (arcs d (arc old))) (\<lambda>c.
                  if strong c = 1 then
                    obind (as_subsystem (subsystem fd) (content c)) (\<lambda>x.
                      if can_close_immediately x then
                        obind (mark_as_closed fd) (\<lambda>fd'.
                          let (inner, d2) = arc_into_inner (arc old) d1 in
                          obind (unwrap inner) (\<lambda>e.
                          obind (as_subsystem (subsystem fd) e) (\<lambda>y.
                            Done (Some (Closed y), fd', d2))))
                      else
                        obind (fill_slot j old d1) (\<lambda>d2. Done (Some Deferred, fd, d2)))
                  else
                    obind (mark_as_closed fd) (\<lambda>fd'.
                    obind (fill_slot j old d1) (\<lambda>d2.
                    obind (owned_fd_new (subsystem fd) j) (\<lambda>new.
                      Done (Some (Duplicated new), fd', d2)))))))"

text \<open>
  The slot of a descriptor, when the index resolves to a live entry of its subsystem. The
  predicate says which entries can be read-locked without waiting.
\<close>

definition resolve ::
    "(nat \<Rightarrow> bool) \<Rightarrow> typed_fd \<Rightarrow> ('e, 'm) descriptors \<Rightarrow> ('m individual_entry \<times> ('e, 'm) descriptor_entry) option" where
  "resolve readable fd d =
     (case as_usize fd of
        None \<Rightarrow> None
      | Some j \<Rightarrow>
          case slice_get (entries d) j of
            Some (Some ie) \<Rightarrow>
              if readable (arc ie) then
                (case arcs d (arc ie) of
                   Some c \<Rightarrow> if matches_subsystem (subsystem fd) (content c) then Some (ie, content c) else None
                 | None \<Rightarrow> None)
              else None
          | _ \<Rightarrow> None)"

text \<open>\<^verbatim>\<open>entry(ptr).or_insert((strong_count, 0)).1 += 1\<close> over the queued descriptors.\<close>

primrec count_queued ::
    "(nat \<Rightarrow> bool) \<Rightarrow> ('e, 'm) descriptors \<Rightarrow> typed_fd option list \<Rightarrow> (nat \<times> nat \<times> nat) list \<Rightarrow> (nat \<times> nat \<times> nat) list" where
  "count_queued readable d [] m = m"
| "count_queued readable d (slot # slots) m =
     (case slot of
        None \<Rightarrow> count_queued readable d slots m
      | Some fd \<Rightarrow>
          (case resolve readable fd d of
             None \<Rightarrow> count_queued readable d slots m
           | Some (ie, _) \<Rightarrow>
               let (s, q) = (case map_of m (arc ie) of None \<Rightarrow> (strong_count (arc ie) d, 0) | Some sq \<Rightarrow> sq)
               in count_queued readable d slots (AList.update (arc ie) (s, q + 1) m)))"

definition removable_entries ::
    "(nat \<Rightarrow> bool) \<Rightarrow> ('e, 'm) descriptors \<Rightarrow> typed_fd option list \<Rightarrow> nat list" where
  "removable_entries readable d fds =
     map fst (filter (\<lambda>(_, s, q). s = q) (count_queued readable d fds []))"

text \<open>The second loop: the queue with the removed descriptors blanked, and the entries taken out.\<close>

primrec drain_loop ::
    "(nat \<Rightarrow> bool) \<Rightarrow> nat list \<Rightarrow> typed_fd option list \<Rightarrow> ('e, 'm) descriptors \<Rightarrow>
     (typed_fd option list \<times> 'e list \<times> ('e, 'm) descriptors) outcome" where
  "drain_loop readable removable [] d = Done ([], [], d)"
| "drain_loop readable removable (slot # slots) d =
     (case slot of
        None \<Rightarrow> obind (drain_loop readable removable slots d) (\<lambda>(ss, es, d'). Done (None # ss, es, d'))
      | Some fd \<Rightarrow>
          (case resolve readable fd d of
             None \<Rightarrow> obind (drain_loop readable removable slots d) (\<lambda>(ss, es, d'). Done (slot # ss, es, d'))
           | Some (ie, _) \<Rightarrow>
               if arc ie \<notin> set removable then
                 obind (drain_loop readable removable slots d) (\<lambda>(ss, es, d'). Done (slot # ss, es, d'))
               else
                 obind (remove_fd fd d) (\<lambda>(e, _, d1).
                 obind (drain_loop readable removable slots d1) (\<lambda>(ss, es, d').
                   Done (None # ss, (case e of None \<Rightarrow> es | Some x \<Rightarrow> x # es), d')))))"

definition drain_entries_full_covered_by ::
    "bool \<Rightarrow> typed_fd option list \<Rightarrow> ('e, 'm) descriptors \<Rightarrow>
     (typed_fd option list \<times> 'e list \<times> ('e, 'm) descriptors) outcome" where
  "drain_entries_full_covered_by dbg fds d =
     (let removable = removable_entries (\<lambda>_. True) d fds in
      obind (drain_loop (\<lambda>_. True) removable fds d) (\<lambda>(ss, es, d').
        assert_that (dbg \<longrightarrow> length es = length removable) (Done (ss, es, d'))))"

definition drain_entries_full_covered_by_nowait ::
    "(nat \<Rightarrow> bool) \<Rightarrow> typed_fd option list \<Rightarrow> ('e, 'm) descriptors \<Rightarrow>
     (typed_fd option list \<times> 'e list \<times> ('e, 'm) descriptors) outcome" where
  "drain_entries_full_covered_by_nowait readable fds d =
     drain_loop readable (removable_entries readable d fds) fds d"

text \<open>The content behind an \<^verbatim>\<open>Arc\<close>, replaced.\<close>

definition set_content ::
    "nat \<Rightarrow> ('e, 'm) descriptor_entry \<Rightarrow> ('e, 'm) descriptors \<Rightarrow> ('e, 'm) descriptors" where
  "set_content a e d =
     (case arcs d a of
        None \<Rightarrow> d
      | Some c \<Rightarrow> d\<lparr>arcs := (arcs d)(a \<mapsto> c\<lparr>content := e\<rparr>)\<rparr>)"

text \<open>
  The iterators: the index and the entry of every slot of the subsystem, in slot order; an index
  beyond \<^verbatim>\<open>u32\<close> panics. The mutable variants hand out the addresses to write through.
\<close>

primrec iter_from ::
    "(nat \<Rightarrow> bool) \<Rightarrow> type_id \<Rightarrow> nat \<Rightarrow> 'm individual_entry option list \<Rightarrow> ('e, 'm) descriptors \<Rightarrow>
     (nat \<times> nat \<times> 'e) list outcome" where
  "iter_from lockable sub i [] d = Done []"
| "iter_from lockable sub i (slot # slots) d =
     (case slot of
        None \<Rightarrow> iter_from lockable sub (Suc i) slots d
      | Some ie \<Rightarrow>
          (case arcs d (arc ie) of
             None \<Rightarrow> Panic
           | Some c \<Rightarrow>
               if lockable (arc ie) \<and> matches_subsystem sub (content c) then
                 assert_that (i \<le> u32_max)
                   (obind (as_subsystem sub (content c)) (\<lambda>x.
                    obind (iter_from lockable sub (Suc i) slots d) (\<lambda>rest.
                      Done ((i, arc ie, x) # rest))))
               else iter_from lockable sub (Suc i) slots d))"

definition iter :: "type_id \<Rightarrow> ('e, 'm) descriptors \<Rightarrow> (nat \<times> 'e) list outcome" where
  "iter sub d =
     obind (iter_from (\<lambda>_. True) sub 0 (entries d) d) (\<lambda>xs. Done (map (\<lambda>(i, _, x). (i, x)) xs))"

definition iter_nowait :: "(nat \<Rightarrow> bool) \<Rightarrow> type_id \<Rightarrow> ('e, 'm) descriptors \<Rightarrow> (nat \<times> 'e) list outcome" where
  "iter_nowait readable sub d =
     obind (iter_from readable sub 0 (entries d) d) (\<lambda>xs. Done (map (\<lambda>(i, _, x). (i, x)) xs))"

definition iter_mut :: "type_id \<Rightarrow> ('e, 'm) descriptors \<Rightarrow> (nat \<times> nat \<times> 'e) list outcome" where
  "iter_mut sub d = iter_from (\<lambda>_. True) sub 0 (entries d) d"

definition iter_mut_nowait ::
    "(nat \<Rightarrow> bool) \<Rightarrow> (nat \<Rightarrow> bool) \<Rightarrow> type_id \<Rightarrow> ('e, 'm) descriptors \<Rightarrow> (nat \<times> nat \<times> 'e) list outcome" where
  "iter_mut_nowait readable writable sub d =
     iter_from (\<lambda>a. readable a \<and> writable a) sub 0 (entries d) d"

definition with_entry ::
    "typed_fd \<Rightarrow> ('e \<Rightarrow> 'r) \<Rightarrow> ('e, 'm) descriptors \<Rightarrow> 'r option outcome" where
  "with_entry fd f d =
     (case resolve (\<lambda>_. True) fd d of
        None \<Rightarrow> Done None
      | Some (_, e) \<Rightarrow> obind (as_subsystem (subsystem fd) e) (\<lambda>x. Done (Some (f x))))"

definition write_subsystem ::
    "type_id \<Rightarrow> nat \<Rightarrow> ('e, 'm) descriptor_entry \<Rightarrow> ('e \<Rightarrow> 'r \<times> 'e) \<Rightarrow> ('e, 'm) descriptors \<Rightarrow>
     ('r option \<times> ('e, 'm) descriptors) outcome" where
  "write_subsystem sub a e f d =
     obind (as_subsystem sub e) (\<lambda>x.
       let (r, x') = f x in
       Done (Some r, set_content a (e\<lparr>entry_box := Any sub x'\<rparr>) d))"

definition with_entry_mut ::
    "typed_fd \<Rightarrow> ('e \<Rightarrow> 'r \<times> 'e) \<Rightarrow> ('e, 'm) descriptors \<Rightarrow> ('r option \<times> ('e, 'm) descriptors) outcome" where
  "with_entry_mut fd f d =
     (case resolve (\<lambda>_. True) fd d of
        None \<Rightarrow> Done (None, d)
      | Some (ie, e) \<Rightarrow> write_subsystem (subsystem fd) (arc ie) e f d)"

text \<open>A handle is a further strong reference to the entry.\<close>

definition entry_handle ::
    "typed_fd \<Rightarrow> ('e, 'm) descriptors \<Rightarrow> nat option \<times> ('e, 'm) descriptors" where
  "entry_handle fd d =
     (case resolve (\<lambda>_. True) fd d of
        None \<Rightarrow> (None, d)
      | Some (ie, _) \<Rightarrow> (Some (arc ie), arc_clone (arc ie) d))"

definition drop_entry_handle :: "nat \<Rightarrow> ('e, 'm) descriptors \<Rightarrow> ('e, 'm) descriptors" where
  "drop_entry_handle a d = snd (arc_into_inner a d)"

definition handle_with_entry ::
    "type_id \<Rightarrow> nat \<Rightarrow> ('e \<Rightarrow> 'r) \<Rightarrow> ('e, 'm) descriptors \<Rightarrow> 'r outcome" where
  "handle_with_entry sub a f d =
     obind (unwrap (arcs d a)) (\<lambda>c.
     obind (as_subsystem sub (content c)) (\<lambda>x. Done (f x)))"

definition handle_with_entry_mut ::
    "type_id \<Rightarrow> nat \<Rightarrow> ('e \<Rightarrow> 'r \<times> 'e) \<Rightarrow> ('e, 'm) descriptors \<Rightarrow> ('r option \<times> ('e, 'm) descriptors) outcome" where
  "handle_with_entry_mut sub a f d =
     obind (unwrap (arcs d a)) (\<lambda>c. write_subsystem sub a (content c) f d)"

definition with_entry_mut_via_internal_fd ::
    "type_id \<Rightarrow> nat \<Rightarrow> ('e \<Rightarrow> 'r \<times> 'e) \<Rightarrow> ('e, 'm) descriptors \<Rightarrow> ('r option \<times> ('e, 'm) descriptors) outcome" where
  "with_entry_mut_via_internal_fd sub internal_raw f d =
     (case slice_get (entries d) internal_raw of
        Some (Some ie) \<Rightarrow>
          obind (unwrap (arcs d (arc ie))) (\<lambda>c.
            if matches_subsystem sub (content c) then write_subsystem sub (arc ie) (content c) f d
            else Done (None, d))
      | _ \<Rightarrow> Done (None, d))"

definition get_entry :: "typed_fd \<Rightarrow> ('e, 'm) descriptors \<Rightarrow> 'e option outcome" where
  "get_entry fd d =
     (case resolve (\<lambda>_. True) fd d of
        None \<Rightarrow> Done None
      | Some (_, e) \<Rightarrow> obind (as_subsystem (subsystem fd) e) (\<lambda>x. Done (Some x)))"

text \<open>The write guard: the entry, and the table after an assignment through the guard.\<close>

definition get_entry_mut ::
    "typed_fd \<Rightarrow> ('e, 'm) descriptors \<Rightarrow> ('e \<times> ('e \<Rightarrow> ('e, 'm) descriptors)) option outcome" where
  "get_entry_mut fd d =
     (case resolve (\<lambda>_. True) fd d of
        None \<Rightarrow> Done None
      | Some (ie, e) \<Rightarrow>
          obind (as_subsystem (subsystem fd) e) (\<lambda>x.
            Done (Some (x, \<lambda>x'. set_content (arc ie) (e\<lparr>entry_box := Any (subsystem fd) x'\<rparr>) d))))"

section \<open>Metadata\<close>

datatype metadata_error = NoSuchMetadata | ClosedFd

text \<open>The slot of an open descriptor, whatever its subsystem.\<close>

definition open_slot :: "typed_fd \<Rightarrow> ('e, 'm) descriptors \<Rightarrow> (nat \<times> 'm individual_entry) option" where
  "open_slot fd d =
     (case as_usize fd of
        None \<Rightarrow> None
      | Some j \<Rightarrow> (case slice_get (entries d) j of Some (Some ie) \<Rightarrow> Some (j, ie) | _ \<Rightarrow> None))"

definition with_metadata ::
    "typed_fd \<Rightarrow> type_id \<Rightarrow> ('m \<Rightarrow> 'r) \<Rightarrow> ('e, 'm) descriptors \<Rightarrow> (metadata_error + 'r) outcome" where
  "with_metadata fd t f d =
     (case open_slot fd d of
        None \<Rightarrow> Done (Inl ClosedFd)
      | Some (_, ie) \<Rightarrow>
          obind (anymap_get t (fd_metadata ie)) (\<lambda>r.
            case r of
              Some m \<Rightarrow> Done (Inr (f m))
            | None \<Rightarrow>
                obind (unwrap (arcs d (arc ie))) (\<lambda>c.
                obind (anymap_get t (entry_metadata (content c))) (\<lambda>r.
                  Done (case r of Some m \<Rightarrow> Inr (f m) | None \<Rightarrow> Inl NoSuchMetadata)))))"

definition with_metadata_mut ::
    "typed_fd \<Rightarrow> type_id \<Rightarrow> ('m \<Rightarrow> 'r \<times> 'm) \<Rightarrow> ('e, 'm) descriptors \<Rightarrow>
     ((metadata_error + 'r) \<times> ('e, 'm) descriptors) outcome" where
  "with_metadata_mut fd t f d =
     (case open_slot fd d of
        None \<Rightarrow> Done (Inl ClosedFd, d)
      | Some (j, ie) \<Rightarrow>
          obind (anymap_get_mut t f (fd_metadata ie)) (\<lambda>(r, m').
            case r of
              Some x \<Rightarrow> Done (Inr x, d\<lparr>entries := (entries d)[j := Some (ie\<lparr>fd_metadata := m'\<rparr>)]\<rparr>)
            | None \<Rightarrow>
                obind (unwrap (arcs d (arc ie))) (\<lambda>c.
                obind (anymap_get_mut t f (entry_metadata (content c))) (\<lambda>(r, m'').
                  Done (case r of
                          Some x \<Rightarrow> (Inr x, set_content (arc ie) ((content c)\<lparr>entry_metadata := m''\<rparr>) d)
                        | None \<Rightarrow> (Inl NoSuchMetadata, d))))))"

definition set_entry_metadata ::
    "typed_fd \<Rightarrow> type_id \<Rightarrow> 'm \<Rightarrow> ('e, 'm) descriptors \<Rightarrow> ('m option \<times> ('e, 'm) descriptors) outcome" where
  "set_entry_metadata fd t m d =
     (case open_slot fd d of
        None \<Rightarrow> Done (None, d)
      | Some (_, ie) \<Rightarrow>
          obind (unwrap (arcs d (arc ie))) (\<lambda>c.
          obind (anymap_insert t m (entry_metadata (content c))) (\<lambda>(old, m').
            Done (old, set_content (arc ie) ((content c)\<lparr>entry_metadata := m'\<rparr>) d))))"

definition set_fd_metadata ::
    "typed_fd \<Rightarrow> type_id \<Rightarrow> 'm \<Rightarrow> ('e, 'm) descriptors \<Rightarrow> ('m option \<times> ('e, 'm) descriptors) outcome" where
  "set_fd_metadata fd t m d =
     (case open_slot fd d of
        None \<Rightarrow> Done (None, d)
      | Some (j, ie) \<Rightarrow>
          obind (anymap_insert t m (fd_metadata ie)) (\<lambda>(old, m').
            Done (old, d\<lparr>entries := (entries d)[j := Some (ie\<lparr>fd_metadata := m'\<rparr>)]\<rparr>)))"

end
