(* ===== verification/SharedCells.thy ===== *)
theory SharedCells
  imports Prelude
begin

text \<open>
  The contract a subsystem relies on when it keeps its state in the descriptor table: a name denotes
  a cell (an address and a value) or nothing, several names may denote one cell, and an update
  through a name changes that cell only. The client is a sequence of updates through names.
\<close>

fun run_updates ::
    "('n \<Rightarrow> ('v \<Rightarrow> unit \<times> 'v) \<Rightarrow> 't \<Rightarrow> (unit option \<times> 't) outcome) \<Rightarrow> ('n \<times> ('v \<Rightarrow> 'v)) list \<Rightarrow> 't \<Rightarrow> 't outcome" where
  "run_updates upd [] t = Done t"
| "run_updates upd ((n, f) # us) t =
     obind (upd n (\<lambda>x. ((), f x)) t) (\<lambda>(_, t'). run_updates upd us t')"

text \<open>The updates of a sequence that reach the cell at address \<open>a\<close>, applied in order.\<close>

fun apply_updates :: "('n \<Rightarrow> nat option) \<Rightarrow> nat \<Rightarrow> ('n \<times> ('v \<Rightarrow> 'v)) list \<Rightarrow> 'v \<Rightarrow> 'v" where
  "apply_updates addr a [] x = x"
| "apply_updates addr a ((n, f) # us) x =
     apply_updates addr a us (if addr n = Some a then f x else x)"

locale shared_cells =
  fixes inv :: "'t \<Rightarrow> bool"
    and lookup :: "'t \<Rightarrow> 'n \<Rightarrow> (nat \<times> 'v) option"
    and update :: "'n \<Rightarrow> ('v \<Rightarrow> unit \<times> 'v) \<Rightarrow> 't \<Rightarrow> (unit option \<times> 't) outcome"
  assumes lookup_unique: "inv t \<Longrightarrow> lookup t n = Some (a, x) \<Longrightarrow> lookup t m = Some (a, y) \<Longrightarrow> x = y"
    and update_bound: "inv t \<Longrightarrow> lookup t n = Some (a, x) \<Longrightarrow>
      \<exists>t'. update n f t = Done (Some (fst (f x)), t') \<and> inv t' \<and>
        (\<forall>m. lookup t' m = (case lookup t m of
             Some (a', y) \<Rightarrow> Some (a', if a' = a then snd (f x) else y) | None \<Rightarrow> None))"
    and update_unbound: "inv t \<Longrightarrow> lookup t n = None \<Longrightarrow> update n f t = Done (None, t)"
begin

lemma run_updates_spec:
  assumes "inv t"
  shows "\<exists>t'. run_updates update us t = Done t' \<and> inv t' \<and>
    (\<forall>m. lookup t' m = (case lookup t m of
         Some (a, x) \<Rightarrow> Some (a, apply_updates (\<lambda>n. map_option fst (lookup t n)) a us x) | None \<Rightarrow> None))"
  using assms
proof (induction us arbitrary: t)
  case Nil
  then show ?case by (auto split: option.split)
next
  case (Cons u us)
  obtain n f where u: "u = (n, f)" by force
  obtain r t1 where t1: "update n (\<lambda>x. ((), f x)) t = Done (r, t1)" "inv t1"
    "\<And>m. lookup t1 m = (case lookup t m of
        Some (a, y) \<Rightarrow> Some (a, if map_option fst (lookup t n) = Some a then f y else y) | None \<Rightarrow> None)"
  proof (cases "lookup t n")
    case None
    with update_unbound [OF Cons.prems None] Cons.prems show ?thesis
      by (intro that [of None t]) (auto split: option.split)
  next
    case (Some ax)
    then obtain a x where ax: "lookup t n = Some (a, x)" by (cases ax) auto
    obtain t' where t': "update n (\<lambda>x. ((), f x)) t = Done (Some (), t')" "inv t'"
      "\<forall>m. lookup t' m = (case lookup t m of Some (a', y) \<Rightarrow> Some (a', if a' = a then snd ((), f x) else y) | None \<Rightarrow> None)"
      using update_bound [OF Cons.prems ax, of "\<lambda>x. ((), f x)"] by (auto simp del: split_paired_Ex)
    have unique: "y = x" if "lookup t m = Some (a, y)" for m y
      using lookup_unique [OF Cons.prems that ax] .
    show ?thesis
      by (rule that [OF t'(1,2)]) (auto simp: t'(3) ax dest: unique split: option.split)
  qed
  have addr: "(\<lambda>n. map_option fst (lookup t1 n)) = (\<lambda>n. map_option fst (lookup t n))"
    by (rule ext) (simp add: t1(3) split: option.split)
  from Cons.IH [OF t1(2)] obtain t' where "run_updates update us t1 = Done t'" "inv t'"
    "\<And>m. lookup t' m = (case lookup t1 m of
       Some (a, x) \<Rightarrow> Some (a, apply_updates (\<lambda>n. map_option fst (lookup t n)) a us x) | None \<Rightarrow> None)"
    unfolding addr by blast
  then show ?case
    using t1(1) by (auto simp: u t1(3) split: option.split)
qed

end

end
