(* ===== verification/DescriptorTable.thy ===== *)
theory DescriptorTable
  imports Descriptors SharedCells
begin

text \<open>
  The invariant of the descriptor table and the abstract view its users have of it: an index is
  bound to an entry (an address and a typed value), several indices may be bound to the same entry.
  The invariant says that the strong count of an entry is the number of slots and outstanding
  handles that refer to it. Every operation is characterised by what it does to the view.
\<close>

section \<open>Invariant and view\<close>

primrec slot_refs :: "nat \<Rightarrow> 'm individual_entry option list \<Rightarrow> nat" where
  "slot_refs a [] = 0"
| "slot_refs a (s # ss) =
     (case s of Some ie \<Rightarrow> if arc ie = a then 1 else 0 | None \<Rightarrow> 0) + slot_refs a ss"

text \<open>The number of outstanding handles per address is a parameter.\<close>

definition table_inv :: "(nat \<Rightarrow> nat) \<Rightarrow> ('e, 'm) descriptors \<Rightarrow> bool" where
  "table_inv h d \<longleftrightarrow>
     (\<forall>a c. arcs d a = Some c \<longrightarrow>
        a < next_arc d \<and> strong c = slot_refs a (entries d) + h a \<and> 0 < slot_refs a (entries d) + h a \<and>
        anymap_ok (entry_metadata (content c))) \<and>
     (\<forall>ie. Some ie \<in> set (entries d) \<longrightarrow> arcs d (arc ie) \<noteq> None \<and> anymap_ok (fd_metadata ie)) \<and>
     (\<forall>a. 0 < h a \<longrightarrow> arcs d a \<noteq> None)"

definition view :: "('e, 'm) descriptors \<Rightarrow> nat \<rightharpoonup> nat \<times> 'e any" where
  "view d j =
     (case slice_get (entries d) j of
        Some (Some ie) \<Rightarrow> map_option (\<lambda>c. (arc ie, entry_box (content c))) (arcs d (arc ie))
      | _ \<Rightarrow> None)"

section \<open>References in the slots\<close>

abbreviation slot_ref :: "nat \<Rightarrow> 'm individual_entry option \<Rightarrow> nat" where
  "slot_ref a s \<equiv> (case s of Some ie \<Rightarrow> if arc ie = a then 1 else 0 | None \<Rightarrow> 0)"

lemma slot_refs_append [simp]: "slot_refs a (xs @ ys) = slot_refs a xs + slot_refs a ys"
  by (induction xs) auto

lemma slot_refs_update:
  "i < length ss \<Longrightarrow> slot_refs a (ss[i := x]) + slot_ref a (ss ! i) = slot_refs a ss + slot_ref a x"
proof (induction ss arbitrary: i)
  case (Cons s ss)
  then show ?case by (cases i) auto
qed simp

lemma slot_refs_fill:
  "i < length ss \<Longrightarrow> ss ! i = None \<Longrightarrow>
   slot_refs a (ss[i := Some ie]) = slot_refs a ss + (if arc ie = a then 1 else 0)"
  using slot_refs_update [of i ss a "Some ie"] by simp

lemma slot_refs_take:
  "i < length ss \<Longrightarrow> ss ! i = Some ie \<Longrightarrow>
   slot_refs a (ss[i := None]) = slot_refs a ss - (if arc ie = a then 1 else 0)"
  using slot_refs_update [of i ss a None] by simp

lemma slot_refs_pos: "0 < slot_refs a ss \<longleftrightarrow> (\<exists>ie. Some ie \<in> set ss \<and> arc ie = a)"
  by (induction ss) (auto split: option.splits if_splits)

lemma slot_refs_zero: "slot_refs a ss = 0 \<longleftrightarrow> (\<forall>ie. Some ie \<in> set ss \<longrightarrow> arc ie \<noteq> a)"
  using slot_refs_pos [of a ss] by auto

lemma slot_refs_mem: "i < length ss \<Longrightarrow> ss ! i = Some ie \<Longrightarrow> 0 < slot_refs (arc ie) ss"
  by (metis nth_mem slot_refs_pos)

section \<open>The view under the invariant\<close>

lemma table_invD:
  assumes "table_inv h d"
  shows "arcs d a = Some c \<Longrightarrow> a < next_arc d"
    and "arcs d a = Some c \<Longrightarrow> strong c = slot_refs a (entries d) + h a"
    and "arcs d a = Some c \<Longrightarrow> 0 < strong c"
    and "arcs d a = Some c \<Longrightarrow> anymap_ok (entry_metadata (content c))"
    and "j < length (entries d) \<Longrightarrow> entries d ! j = Some ie \<Longrightarrow> \<exists>c. arcs d (arc ie) = Some c"
    and "j < length (entries d) \<Longrightarrow> entries d ! j = Some ie \<Longrightarrow> anymap_ok (fd_metadata ie)"
  using assms unfolding table_inv_def by (blast, blast, fastforce, blast, metis nth_mem option.exhaust, metis nth_mem)

lemma view_alt:
  "view d j =
     (if j < length (entries d) then
        case entries d ! j of
          None \<Rightarrow> None
        | Some ie \<Rightarrow> map_option (\<lambda>c. (arc ie, entry_box (content c))) (arcs d (arc ie))
      else None)"
  by (simp add: view_def slice_get_def)

lemma view_None:
  assumes "table_inv h d"
  shows "view d j = None \<longleftrightarrow> j \<ge> length (entries d) \<or> entries d ! j = None"
  using table_invD(5) [OF assms, of j] by (auto simp: view_alt split: option.split)

lemma view_Some:
  "view d j = Some (a, b) \<longleftrightarrow>
     (\<exists>ie c. j < length (entries d) \<and> entries d ! j = Some ie \<and> arc ie = a \<and>
        arcs d a = Some c \<and> entry_box (content c) = b)"
  by (auto simp: view_alt split: option.splits)

lemma first_free_view:
  assumes "table_inv h d"
  shows "view d (first_free (entries d)) = None"
    and "j < first_free (entries d) \<Longrightarrow> view d j \<noteq> None"
proof -
  show "view d (first_free (entries d)) = None"
    unfolding view_None [OF assms] by (metis first_free_None not_le)
  show "j < first_free (entries d) \<Longrightarrow> view d j \<noteq> None"
    using first_free_before [of j "entries d"] first_free_le [of "entries d"]
    by (auto simp: view_None [OF assms])
qed

lemma new_table_inv: "table_inv (\<lambda>_. 0) new_from_litebox_creation"
  by (simp add: table_inv_def new_from_litebox_creation_def)

lemma view_new [simp]: "view new_from_litebox_creation = Map.empty"
  by (rule ext) (simp add: view_def new_from_litebox_creation_def slice_get_def)

lemma new_table_simps [simp]:
  "entries new_from_litebox_creation = []" "next_arc new_from_litebox_creation = 0"
  by (simp_all add: new_from_litebox_creation_def)

text \<open>Pushing an empty slot is invisible.\<close>

lemma free_slot_spec:
  assumes "table_inv h d"
  obtains d1 where "free_slot d = (first_free (entries d), d1)" "table_inv h d1" "view d1 = view d"
    "arcs d1 = arcs d" "next_arc d1 = next_arc d" "first_free (entries d) < length (entries d1)"
    "entries d1 ! first_free (entries d) = None" "length (entries d1) \<le> Suc (length (entries d))"
    "\<And>j. j < length (entries d) \<Longrightarrow> entries d1 ! j = entries d ! j"
    "\<And>a. slot_refs a (entries d1) = slot_refs a (entries d)"
proof (cases "first_free (entries d) = length (entries d)")
  case True
  define d1 where "d1 = d\<lparr>entries := entries d @ [None]\<rparr>"
  have "view d1 j = view d j" for j
    by (auto simp: d1_def view_alt nth_append less_Suc_eq split: option.splits)
  moreover have "table_inv h d1" using assms unfolding table_inv_def d1_def by simp
  ultimately show ?thesis
    using True by (intro that [of d1]) (auto simp: free_slot_def d1_def Let_def nth_append)
next
  case False
  with first_free_le [of "entries d"] have "first_free (entries d) < length (entries d)" by simp
  with assms False first_free_None show ?thesis
    by (intro that [of d]) (auto simp: free_slot_def Let_def)
qed

lemma owned_fd_new_Done [simp]:
  "i \<le> u32_max \<Longrightarrow> owned_fd_new sub i = Done \<lparr>raw = i, closed = False, subsystem = sub\<rparr>"
  by (simp add: owned_fd_new_def)

section \<open>Insertion and duplication\<close>

lemma fresh_arc:
  assumes "table_inv h d"
  shows "arcs d (next_arc d) = None" and "slot_refs (next_arc d) (entries d) = 0" and "h (next_arc d) = 0"
    and "view d j = Some (a, b) \<Longrightarrow> a \<noteq> next_arc d"
proof -
  show none: "arcs d (next_arc d) = None"
    using table_invD(1) [OF assms, of "next_arc d"] by (cases "arcs d (next_arc d)") auto
  then show "slot_refs (next_arc d) (entries d) = 0" and "h (next_arc d) = 0"
    and "view d j = Some (a, b) \<Longrightarrow> a \<noteq> next_arc d"
    using assms unfolding table_inv_def slot_refs_zero by (metis, metis neq0_conv, auto simp: view_Some)
qed

lemma slots_after_fill:
  "i < length ss \<Longrightarrow> Some ie' \<in> set (ss[i := Some ie]) \<Longrightarrow> ie' = ie \<or> Some ie' \<in> set ss"
  by (metis insert_iff option.inject set_update_subset_insert subsetD)

lemma insert_fd_spec:
  assumes inv: "table_inv h d" and room: "first_free (entries d) \<le> u32_max"
  shows "\<exists>d'. insert_fd sub e d = Done (\<lparr>raw = first_free (entries d), closed = False, subsystem = sub\<rparr>, d') \<and>
    table_inv h d' \<and> view d' = (view d)(first_free (entries d) \<mapsto> (next_arc d, Any sub e)) \<and>
    length (entries d') \<le> Suc (length (entries d))"
proof -
  define i where "i = first_free (entries d)"
  define n where "n = next_arc d"
  obtain d1 where d1: "free_slot d = (i, d1)" "table_inv h d1" "view d1 = view d"
      "arcs d1 = arcs d" "next_arc d1 = n" "i < length (entries d1)" "entries d1 ! i = None"
      "length (entries d1) \<le> Suc (length (entries d))"
    using free_slot_spec [OF inv] unfolding i_def n_def by metis
  define c :: "('a, 'b) descriptor_entry arc_cell"
    where "c = \<lparr>strong = 1, content = \<lparr>entry_box = Any sub e, entry_metadata = anymap_new\<rparr>\<rparr>"
  define ie :: "'b individual_entry" where "ie = \<lparr>arc = n, fd_metadata = anymap_new\<rparr>"
  define d' where "d' = d1\<lparr>arcs := (arcs d1)(n \<mapsto> c), next_arc := n + 1, entries := (entries d1)[i := Some ie]\<rparr>"
  note fresh = fresh_arc [OF d1(2), unfolded d1(5)]
  have run: "insert_fd sub e d = Done (\<lparr>raw = i, closed = False, subsystem = sub\<rparr>, d')"
    using d1 room by (simp add: insert_fd_def arc_new_def fill_slot_def c_def ie_def d'_def i_def)
  have refs: "slot_refs a (entries d') = slot_refs a (entries d1) + (if a = n then 1 else 0)" for a
    using d1(6,7) by (auto simp: d'_def slot_refs_fill ie_def)
  have "table_inv h d'"
    unfolding table_inv_def
  proof (intro conjI allI impI)
    fix a c'
    assume "arcs d' a = Some c'"
    then show "a < next_arc d'" and "strong c' = slot_refs a (entries d') + h a"
      and "0 < slot_refs a (entries d') + h a" and "anymap_ok (entry_metadata (content c'))"
      using d1(2,5) fresh refs [of a] unfolding table_inv_def
      by (auto simp: d'_def c_def less_Suc_eq split: if_splits)
  next
    fix ie'
    assume "Some ie' \<in> set (entries d')"
    then have "ie' = ie \<or> Some ie' \<in> set (entries d1)"
      using slots_after_fill [OF d1(6)] by (auto simp: d'_def)
    then show "arcs d' (arc ie') \<noteq> None" and "anymap_ok (fd_metadata ie')"
      using d1(2) unfolding table_inv_def by (auto simp: d'_def ie_def)
  next
    fix a
    assume "0 < h a"
    then show "arcs d' a \<noteq> None" using d1(2) unfolding table_inv_def by (auto simp: d'_def)
  qed
  moreover have "view d' j = ((view d)(i \<mapsto> (n, Any sub e))) j" for j
  proof (cases "j = i")
    case True
    with d1(6) show ?thesis by (simp add: view_alt d'_def ie_def c_def)
  next
    case False
    have "arc x \<noteq> n" if "j < length (entries d1)" "entries d1 ! j = Some x" for x
      using table_invD(5) [OF d1(2) that] fresh(1) by auto
    with False show ?thesis
      unfolding d1(3) [symmetric] by (auto simp: view_alt d'_def split: option.split)
  qed
  ultimately show ?thesis
    using run d1(8) unfolding i_def n_def by (auto simp: d'_def)
qed

lemma duplicate_spec:
  assumes inv: "table_inv h d" and room: "first_free (entries d) \<le> u32_max"
    and "\<not> closed fd" and bound: "view d (raw fd) = Some (a, b)"
  shows "\<exists>d'. duplicate fd d
      = Done (Some \<lparr>raw = first_free (entries d), closed = False, subsystem = subsystem fd\<rparr>, d') \<and>
    table_inv h d' \<and> view d' = (view d)(first_free (entries d) \<mapsto> (a, b)) \<and>
    length (entries d') \<le> Suc (length (entries d))"
proof -
  define i where "i = first_free (entries d)"
  obtain d1 where d1: "free_slot d = (i, d1)" "table_inv h d1" "view d1 = view d"
      "arcs d1 = arcs d" "i < length (entries d1)" "entries d1 ! i = None"
      "length (entries d1) \<le> Suc (length (entries d))"
    using free_slot_spec [OF inv] unfolding i_def by metis
  obtain ie c where ie: "raw fd < length (entries d1)" "entries d1 ! raw fd = Some ie" "arc ie = a"
      "arcs d1 a = Some c" "entry_box (content c) = b"
    using bound unfolding d1(3) [symmetric] view_Some by blast
  define new :: "'b individual_entry" where "new = \<lparr>arc = a, fd_metadata = anymap_new\<rparr>"
  define d' where "d' = d1\<lparr>arcs := (arcs d1)(a \<mapsto> c\<lparr>strong := strong c + 1\<rparr>), entries := (entries d1)[i := Some new]\<rparr>"
  have clone: "arc_clone a d1 = d1\<lparr>arcs := (arcs d1)(a \<mapsto> c\<lparr>strong := strong c + 1\<rparr>)\<rparr>"
    using ie(4) by (simp add: arc_clone_def)
  have run: "duplicate fd d = Done (Some \<lparr>raw = i, closed = False, subsystem = subsystem fd\<rparr>, d')"
    using d1 ie room \<open>\<not> closed fd\<close> clone
    by (simp add: duplicate_def as_usize_def slice_get_def fill_slot_def new_def d'_def i_def)
  have refs: "slot_refs x (entries d') = slot_refs x (entries d1) + (if x = a then 1 else 0)" for x
    using d1(5,6) by (auto simp: d'_def slot_refs_fill new_def)
  have "table_inv h d'"
    unfolding table_inv_def
  proof (intro conjI allI impI)
    fix x c'
    assume "arcs d' x = Some c'"
    then show "x < next_arc d'" and "strong c' = slot_refs x (entries d') + h x"
      and "0 < slot_refs x (entries d') + h x" and "anymap_ok (entry_metadata (content c'))"
      using d1(2) ie(4) refs [of x] unfolding table_inv_def by (auto simp: d'_def split: if_splits)
  next
    fix ie'
    assume "Some ie' \<in> set (entries d')"
    then have "ie' = new \<or> Some ie' \<in> set (entries d1)"
      using slots_after_fill [OF d1(5)] by (auto simp: d'_def)
    then show "arcs d' (arc ie') \<noteq> None" and "anymap_ok (fd_metadata ie')"
      using d1(2) unfolding table_inv_def by (auto simp: d'_def new_def)
  next
    fix x
    assume "0 < h x"
    then show "arcs d' x \<noteq> None" using d1(2) unfolding table_inv_def by (auto simp: d'_def)
  qed
  moreover have "view d' j = ((view d)(i \<mapsto> (a, b))) j" for j
    unfolding d1(3) [symmetric] using d1(5) ie(4,5)
    by (cases "j = i") (auto simp: view_alt d'_def new_def split: option.split)
  ultimately show ?thesis
    using run d1(7) unfolding i_def by (auto simp: d'_def)
qed

lemma duplicate_closed:
  assumes "table_inv h d" and "closed fd"
  shows "\<exists>d'. duplicate fd d = Done (None, d') \<and> table_inv h d' \<and> view d' = view d"
  by (rule free_slot_spec [OF assms(1)]) (simp add: duplicate_def as_usize_def assms(2))

section \<open>Removal\<close>

lemma slot_refs_card:
  "slot_refs a ss = card {j. j < length ss \<and> (\<exists>ie. ss ! j = Some ie \<and> arc ie = a)}"
proof -
  have "slot_refs a ss = length (filter (\<lambda>s. \<exists>ie. s = Some ie \<and> arc ie = a) ss)"
    by (induction ss) (auto split: option.splits)
  then show ?thesis by (simp add: length_filter_conv_card)
qed

text \<open>The strong count of an entry in terms of the view.\<close>

lemma strong_count_view:
  assumes "table_inv h d" and "view d i = Some (a, b)"
  shows "strong_count a d = card {j. \<exists>b. view d j = Some (a, b)} + h a"
proof -
  obtain c where c: "arcs d a = Some c" using assms(2) by (auto simp: view_Some)
  have "{j. \<exists>b. view d j = Some (a, b)} = {j. j < length (entries d) \<and> (\<exists>ie. entries d ! j = Some ie \<and> arc ie = a)}"
    using c by (auto simp: view_Some)
  then show ?thesis
    using table_invD(2) [OF assms(1) c] c by (simp add: strong_count_def slot_refs_card)
qed

lemma drop_ref_inv:
  assumes inv: "table_inv h d" and j: "j < length (entries d)" "entries d ! j = Some ie"
  defines "d' \<equiv> snd (arc_into_inner (arc ie) (d\<lparr>entries := (entries d)[j := None]\<rparr>))"
  shows "table_inv h d'" and "view d' = (view d)(j := None)" and "entries d' = (entries d)[j := None]"
proof -
  obtain c where c: "arcs d (arc ie) = Some c" using table_invD(5) [OF inv j] by blast
  have refs: "slot_refs a ((entries d)[j := None]) = slot_refs a (entries d) - (if arc ie = a then 1 else 0)" for a
    using slot_refs_take [OF j] .
  have pos: "0 < slot_refs (arc ie) (entries d)" using slot_refs_mem [OF j] .
  have strong: "strong c = slot_refs (arc ie) (entries d) + h (arc ie)" using table_invD(2) [OF inv c] .
  show e: "entries d' = (entries d)[j := None]"
    using c by (simp add: d'_def arc_into_inner_def)
  have arcs': "arcs d' = (if strong c = 1 then (arcs d)(arc ie := None)
      else (arcs d)(arc ie \<mapsto> c\<lparr>strong := strong c - 1\<rparr>))" and next': "next_arc d' = next_arc d"
    using c by (simp_all add: d'_def arc_into_inner_def)
  have gone: "slot_refs (arc ie) (entries d') = 0 \<and> h (arc ie) = 0" if "strong c = 1"
    using that strong pos refs [of "arc ie"] e by simp
  show "table_inv h d'"
    unfolding table_inv_def
  proof (intro conjI allI impI)
    fix x c'
    assume "arcs d' x = Some c'"
    then show "x < next_arc d'" and "strong c' = slot_refs x (entries d') + h x"
      and "0 < slot_refs x (entries d') + h x" and "anymap_ok (entry_metadata (content c'))"
      using inv c strong pos unfolding table_inv_def arcs' next' e refs
      by (auto split: if_splits)
  next
    fix ie'
    assume mem: "Some ie' \<in> set (entries d')"
    then have "Some ie' \<in> set (entries d)"
      unfolding e by (metis option.distinct(1) insert_iff set_update_subset_insert subsetD)
    moreover have "arc ie' \<noteq> arc ie" if "strong c = 1"
      using gone [OF that] mem by (auto simp: slot_refs_zero)
    ultimately show "arcs d' (arc ie') \<noteq> None" and "anymap_ok (fd_metadata ie')"
      using inv unfolding table_inv_def arcs' by auto
  next
    fix x
    assume "0 < h x"
    then show "arcs d' x \<noteq> None"
      using inv gone unfolding table_inv_def arcs' by auto
  qed
  show "view d' = (view d)(j := None)"
  proof
    fix k
    have "arc x \<noteq> arc ie" if "strong c = 1" "k < length (entries d)" "entries d ! k = Some x" "k \<noteq> j" for x
      using gone [OF that(1)] that(2-4) slot_refs_mem [of k "entries d'" x] by (auto simp: e)
    then show "view d' k = ((view d)(j := None)) k"
      using c by (cases "k = j") (auto simp: view_alt e arcs' nth_list_update split: option.split)
  qed
qed

lemma remove_fd_spec:
  assumes inv: "table_inv h d" and "\<not> closed fd" and bound: "view d (raw fd) = Some (a, b)"
    and ty: "any_type b = subsystem fd"
  shows "\<exists>d'. remove_fd fd d
      = Done (if strong_count a d = 1 then Some (any_value b) else None, fd\<lparr>closed := True\<rparr>, d') \<and>
    table_inv h d' \<and> view d' = (view d)(raw fd := None) \<and> entries d' = (entries d)[raw fd := None]"
proof -
  obtain ie c where ie: "raw fd < length (entries d)" "entries d ! raw fd = Some ie" "arc ie = a"
      "arcs d a = Some c" "entry_box (content c) = b"
    using bound unfolding view_Some by blast
  define d' where "d' = snd (arc_into_inner a (d\<lparr>entries := (entries d)[raw fd := None]\<rparr>))"
  note d' = drop_ref_inv [OF inv ie(1,2), unfolded ie(3), folded d'_def]
  have "remove_fd fd d
      = Done (if strong_count a d = 1 then Some (any_value b) else None, fd\<lparr>closed := True\<rparr>, d')"
    using ie \<open>\<not> closed fd\<close> ty
    by (simp add: remove_fd_def as_usize_def slice_get_def mark_as_closed_def d'_def arc_into_inner_def
        as_subsystem_def downcast_def strong_count_def)
  with d' show ?thesis by blast
qed

lemma remove_fd_none:
  assumes "table_inv h d" and "closed fd \<or> (view d (raw fd) = None \<and> raw fd < length (entries d))"
  shows "remove_fd fd d = Done (None, fd, d)"
  using assms(2)
  by (auto simp: remove_fd_def as_usize_def view_None [OF assms(1)] slice_get_def)

lemma fill_back:
  "j < length (entries d) \<Longrightarrow> entries d ! j = Some ie \<Longrightarrow>
   fill_slot j ie (d\<lparr>entries := (entries d)[j := None]\<rparr>) = Done d"
  by (simp add: fill_slot_def list_update_same_conv [THEN iffD2])

lemma close_and_duplicate_spec:
  assumes inv: "table_inv h d" and "\<not> closed fd" and bound: "view d (raw fd) = Some (a, b)"
    and ty: "any_type b = subsystem fd" and room: "raw fd \<le> u32_max"
  shows "if strong_count a d = 1 then
      if can_close (any_value b) then
        \<exists>d'. close_and_duplicate_if_shared fd can_close d
            = Done (Some (Closed (any_value b)), fd\<lparr>closed := True\<rparr>, d') \<and>
          table_inv h d' \<and> view d' = (view d)(raw fd := None)
      else close_and_duplicate_if_shared fd can_close d = Done (Some Deferred, fd, d)
    else close_and_duplicate_if_shared fd can_close d
      = Done (Some (Duplicated \<lparr>raw = raw fd, closed = False, subsystem = subsystem fd\<rparr>), fd\<lparr>closed := True\<rparr>, d)"
proof -
  obtain ie c where ie: "raw fd < length (entries d)" "entries d ! raw fd = Some ie" "arc ie = a"
      "arcs d a = Some c" "entry_box (content c) = b"
    using bound unfolding view_Some by blast
  note refill = fill_back [OF ie(1,2)]
  define d' where "d' = snd (arc_into_inner a (d\<lparr>entries := (entries d)[raw fd := None]\<rparr>))"
  note d' = drop_ref_inv [OF inv ie(1,2), unfolded ie(3), folded d'_def]
  have run: "close_and_duplicate_if_shared fd can_close d =
      (if strong c = 1 then
         if can_close (any_value b) then Done (Some (Closed (any_value b)), fd\<lparr>closed := True\<rparr>, d')
         else Done (Some Deferred, fd, d)
       else Done (Some (Duplicated \<lparr>raw = raw fd, closed = False, subsystem = subsystem fd\<rparr>), fd\<lparr>closed := True\<rparr>, d))"
    using ie \<open>\<not> closed fd\<close> ty room refill
    by (simp add: close_and_duplicate_if_shared_def as_usize_def slice_get_def mark_as_closed_def d'_def
        arc_into_inner_def as_subsystem_def downcast_def Let_def)
  moreover have "strong_count a d = strong c" using ie(4) by (simp add: strong_count_def)
  ultimately show ?thesis using d' by auto
qed

section \<open>Reading and writing an entry\<close>

text \<open>What a descriptor denotes: the entry of its index, when open and of the right type.\<close>

definition denotes :: "('e, 'm) descriptors \<Rightarrow> typed_fd \<Rightarrow> (nat \<times> 'e) option" where
  "denotes d fd =
     (if closed fd then None
      else case view d (raw fd) of
             None \<Rightarrow> None
           | Some (a, b) \<Rightarrow> if any_type b = subsystem fd then Some (a, any_value b) else None)"

lemma resolve_denotes:
  assumes "table_inv h d"
  shows "resolve (\<lambda>_. True) fd d = None \<longleftrightarrow> denotes d fd = None"
    and "resolve (\<lambda>_. True) fd d = Some (ie, e) \<Longrightarrow>
      denotes d fd = Some (arc ie, any_value (entry_box e)) \<and> as_subsystem (subsystem fd) e = Done (any_value (entry_box e)) \<and>
      (\<exists>c. arcs d (arc ie) = Some c \<and> content c = e) \<and> any_type (entry_box e) = subsystem fd"
  by (auto simp: resolve_def denotes_def as_usize_def view_def matches_subsystem_def as_subsystem_def
      downcast_def slice_get_def split: option.splits if_splits)

lemma with_entry_spec:
  assumes "table_inv h d"
  shows "with_entry fd f d = Done (map_option (\<lambda>(_, x). f x) (denotes d fd))"
  using resolve_denotes [OF assms, of fd]
  by (cases "resolve (\<lambda>_. True) fd d") (auto simp: with_entry_def)

lemma get_entry_spec:
  assumes "table_inv h d"
  shows "get_entry fd d = Done (map_option snd (denotes d fd))"
  using resolve_denotes [OF assms, of fd]
  by (cases "resolve (\<lambda>_. True) fd d") (auto simp: get_entry_def)

lemma set_content_inv:
  assumes "table_inv h d" and "arcs d a = Some c" and "anymap_ok (entry_metadata e)"
  shows "table_inv h (set_content a e d)"
    and "view (set_content a e d) j =
      (case view d j of Some (a', b) \<Rightarrow> Some (a', if a' = a then entry_box e else b) | None \<Rightarrow> None)"
  using assms
  by (auto simp: set_content_def table_inv_def view_alt split: option.split)

lemma with_entry_mut_spec:
  assumes inv: "table_inv h d" and den: "denotes d fd = Some (a, x)"
  shows "\<exists>d'. with_entry_mut fd f d = Done (Some (fst (f x)), d') \<and> table_inv h d' \<and>
    entries d' = entries d \<and>
    view d' = (\<lambda>j. case view d j of
        Some (a', b) \<Rightarrow> Some (a', if a' = a then Any (subsystem fd) (snd (f x)) else b) | None \<Rightarrow> None)"
proof -
  obtain ie e where r: "resolve (\<lambda>_. True) fd d = Some (ie, e)"
    using den resolve_denotes(1) [OF inv, of fd] by (cases "resolve (\<lambda>_. True) fd d") auto
  note ie = resolve_denotes(2) [OF inv r]
  obtain c where c: "arcs d (arc ie) = Some c" "content c = e" using ie by blast
  define e' where "e' = e\<lparr>entry_box := Any (subsystem fd) (snd (f x))\<rparr>"
  have "with_entry_mut fd f d = Done (Some (fst (f x)), set_content a e' d)"
    using ie r den by (simp add: with_entry_mut_def write_subsystem_def e'_def split: prod.split)
  moreover have "a = arc ie" using ie den by simp
  moreover have "anymap_ok (entry_metadata e')"
    using table_invD(4) [OF inv c(1)] c(2) by (simp add: e'_def)
  moreover have "entries (set_content a e' d) = entries d"
    by (simp add: set_content_def split: option.split)
  moreover have "entry_box e' = Any (subsystem fd) (snd (f x))" by (simp add: e'_def)
  ultimately show ?thesis
    using set_content_inv [OF inv c(1), of e'] by (auto simp: fun_eq_iff split: option.split)
qed

lemma with_entry_mut_none:
  assumes "table_inv h d" and "denotes d fd = None"
  shows "with_entry_mut fd f d = Done (None, d)"
  using resolve_denotes(1) [OF assms(1), of fd] assms(2) by (simp add: with_entry_mut_def)

lemma get_entry_mut_spec:
  assumes inv: "table_inv h d" and den: "denotes d fd = Some (a, x)"
  shows "\<exists>g. get_entry_mut fd d = Done (Some (x, g)) \<and>
    (\<forall>x'. with_entry_mut fd (\<lambda>_. ((), x')) d = Done (Some (), g x'))"
proof -
  obtain ie e where r: "resolve (\<lambda>_. True) fd d = Some (ie, e)"
    using den resolve_denotes(1) [OF inv, of fd] by (cases "resolve (\<lambda>_. True) fd d") auto
  with resolve_denotes(2) [OF inv r] den show ?thesis
    by (simp add: get_entry_mut_def with_entry_mut_def write_subsystem_def)
qed

section \<open>Draining a queue of closing descriptors\<close>

text \<open>The address a queued descriptor resolves to, among the entries that can be locked.\<close>

definition queued :: "(nat \<Rightarrow> bool) \<Rightarrow> ('e, 'm) descriptors \<Rightarrow> typed_fd option \<Rightarrow> nat option" where
  "queued readable d slot =
     (case slot of
        None \<Rightarrow> None
      | Some fd \<Rightarrow> (case denotes d fd of Some (a, _) \<Rightarrow> if readable a then Some a else None | None \<Rightarrow> None))"

definition queued_count :: "(nat \<Rightarrow> bool) \<Rightarrow> ('e, 'm) descriptors \<Rightarrow> typed_fd option list \<Rightarrow> nat \<Rightarrow> nat" where
  "queued_count readable d fds a = length (filter (\<lambda>s. queued readable d s = Some a) fds)"



lemma queued_count_simps [simp]:
  "queued_count readable d [] a = 0"
  "queued_count readable d (s # fds) a =
     (if queued readable d s = Some a then 1 else 0) + queued_count readable d fds a"
  by (simp_all add: queued_count_def)














section \<open>The table as shared cells\<close>

lemma denotes_unique:
  "denotes d fd = Some (a, x) \<Longrightarrow> denotes d fd' = Some (a, y) \<Longrightarrow> x = y"
  by (auto simp: denotes_def view_Some split: option.splits if_splits)

lemma denotes_after_write:
  assumes "denotes d fd = Some (a, x)"
    and "view d' = (\<lambda>j. case view d j of
        Some (a', b) \<Rightarrow> Some (a', if a' = a then Any (subsystem fd) y else b) | None \<Rightarrow> None)"
  shows "denotes d' fd' =
    (case denotes d fd' of Some (a', z) \<Rightarrow> Some (a', if a' = a then y else z) | None \<Rightarrow> None)"
proof -
  obtain b where b: "view d (raw fd) = Some (a, b)" "any_type b = subsystem fd"
    using assms(1) by (auto simp: denotes_def split: option.splits if_splits)
  have "b' = b" if "view d j = Some (a, b')" for j b'
    using that b(1) by (auto simp: view_Some)
  then show ?thesis
    using b(2) by (auto simp: denotes_def assms(2) split: option.split)
qed

interpretation cells: shared_cells "table_inv h" denotes with_entry_mut for h
proof
  fix t :: "('a, 'b) descriptors" and n m a x y and f :: "'a \<Rightarrow> unit \<times> 'a"
  show "denotes t n = Some (a, x) \<Longrightarrow> denotes t m = Some (a, y) \<Longrightarrow> x = y"
    by (rule denotes_unique)
  assume inv: "table_inv h t"
  show "denotes t n = None \<Longrightarrow> with_entry_mut n f t = Done (None, t)"
    by (rule with_entry_mut_none [OF inv])
  assume den: "denotes t n = Some (a, x)"
  then show "\<exists>t'. with_entry_mut n f t = Done (Some (fst (f x)), t') \<and> table_inv h t' \<and>
        (\<forall>m. denotes t' m = (case denotes t m of
             Some (a', y) \<Rightarrow> Some (a', if a' = a then snd (f x) else y) | None \<Rightarrow> None))"
    using with_entry_mut_spec [OF inv den, of f] denotes_after_write [OF den] by blast
qed

lemma remove_fd_last:
  assumes "table_inv h d" and "denotes d fd = Some (a, x)"
  shows "\<exists>d'. remove_fd fd d =
      Done (if h a = 0 \<and> (\<forall>j b. view d j = Some (a, b) \<longrightarrow> j = raw fd) then Some x else None,
            fd\<lparr>closed := True\<rparr>, d') \<and>
    table_inv h d' \<and> view d' = (view d)(raw fd := None)"
proof -
  obtain b where b: "\<not> closed fd" "view d (raw fd) = Some (a, b)" "any_type b = subsystem fd" "x = any_value b"
    using assms(2) by (auto simp: denotes_def split: option.splits if_splits)
  define V where "V = {j. \<exists>b. view d j = Some (a, b)}"
  have "finite V"
    by (rule finite_subset [of _ "{..<length (entries d)}"]) (auto simp: V_def view_Some)
  moreover have "raw fd \<in> V" using b(2) by (auto simp: V_def)
  ultimately have "card V = 1 \<longleftrightarrow> V = {raw fd}" and "0 < card V"
    by (auto simp: card_1_singleton_iff card_gt_0_iff)
  moreover have "strong_count a d = card V + h a"
    using strong_count_view [OF assms(1) b(2)] by (simp add: V_def)
  moreover have "V = {raw fd} \<longleftrightarrow> (\<forall>j b. view d j = Some (a, b) \<longrightarrow> j = raw fd)"
    using b(2) by (auto simp: V_def)
  ultimately have eq: "strong_count a d = 1 \<longleftrightarrow> h a = 0 \<and> (\<forall>j b. view d j = Some (a, b) \<longrightarrow> j = raw fd)"
    by auto
  show ?thesis using remove_fd_spec [OF assms(1) b(1-3)] unfolding eq b(4) by blast
qed

section \<open>Properties\<close>

text \<open>Inserting an entry binds the lowest unbound index to a fresh entry of the given type and
  value and leaves every other index as it was; it only fails when the index exceeds 32 bits.\<close>

theorem fd_insert_lowest:
  assumes "table_inv h d" and "first_free (entries d) \<le> u32_max"
  shows "\<exists>fd a d'. insert_fd sub e d = Done (fd, d') \<and> table_inv h d' \<and>
    view d (raw fd) = None \<and> (\<forall>j < raw fd. view d j \<noteq> None) \<and>
    (\<forall>j b. view d j \<noteq> Some (a, b)) \<and> denotes d' fd = Some (a, e) \<and>
    view d' = (view d)(raw fd \<mapsto> (a, Any sub e))"
proof -
  define i where "i = first_free (entries d)"
  obtain d' where d': "insert_fd sub e d = Done (\<lparr>raw = i, closed = False, subsystem = sub\<rparr>, d')"
    "table_inv h d'" "view d' = (view d)(i \<mapsto> (next_arc d, Any sub e))"
    using insert_fd_spec [OF assms, of sub e] unfolding i_def by blast
  moreover have "\<forall>j b. view d j \<noteq> Some (next_arc d, b)" using fresh_arc(4) [OF assms(1)] by blast
  moreover have "view d i = None" "\<forall>j < i. view d j \<noteq> None"
    using first_free_view [OF assms(1)] unfolding i_def by blast+
  ultimately show ?thesis
    by (intro exI [of _ "\<lparr>raw = i, closed = False, subsystem = sub\<rparr>"] exI [of _ "next_arc d"] exI [of _ d'])
      (simp add: denotes_def)
qed

theorem fd_insert_lowest_witness:
  "\<exists>fd a d'. insert_fd 7 CHR ''x'' (new_from_litebox_creation :: (char, unit) descriptors) = Done (fd, d') \<and>
    table_inv (\<lambda>_. 0) d' \<and> denotes d' fd = Some (a, CHR ''x'')"
  using fd_insert_lowest [OF new_table_inv, of 7 "CHR ''x''"] by auto

text \<open>C23: Duplicates share the entry: after any sequence of writes through descriptors, a
  descriptor reads the result of exactly the writes made through descriptors of its own entry, in
  order; descriptors of other entries are untouched, and nothing panics.\<close>

theorem fd_writes_are_shared:
  assumes "table_inv h d"
  shows "\<exists>d'. run_updates with_entry_mut us d = Done d' \<and> table_inv h d' \<and>
    (\<forall>fd. with_entry fd (\<lambda>x. x) d' = Done (map_option
       (\<lambda>(a, x). apply_updates (\<lambda>n. map_option fst (denotes d n)) a us x) (denotes d fd)))"
proof -
  obtain d' where d': "run_updates with_entry_mut us d = Done d'" "table_inv h d'"
    "\<And>fd. denotes d' fd = (case denotes d fd of
       Some (a, x) \<Rightarrow> Some (a, apply_updates (\<lambda>n. map_option fst (denotes d n)) a us x) | None \<Rightarrow> None)"
    using cells.run_updates_spec [OF assms, of us] by blast
  have "with_entry fd (\<lambda>x. x) d' = Done (map_option
       (\<lambda>(a, x). apply_updates (\<lambda>n. map_option fst (denotes d n)) a us x) (denotes d fd))" for fd
    by (auto simp: with_entry_spec [OF d'(2)] d'(3) split: option.split)
  with d'(1,2) show ?thesis by blast
qed

theorem fd_writes_are_shared_witness:
  "\<exists>d d'. table_inv (\<lambda>_. 0) (d :: (char, unit) descriptors) \<and>
     run_updates with_entry_mut
       [(\<lparr>raw = 0, closed = False, subsystem = 7\<rparr>, \<lambda>_. CHR ''y''), (\<lparr>raw = 5, closed = False, subsystem = 7\<rparr>, \<lambda>_. CHR ''z'')] d
       = Done d' \<and>
     with_entry \<lparr>raw = 1, closed = False, subsystem = 7\<rparr> (\<lambda>x. x) d' = Done (Some CHR ''y'')"
proof -
  obtain d1 :: "(char, unit) descriptors" where d1:
      "table_inv (\<lambda>_. 0) d1" "view d1 = [0 \<mapsto> (0, Any 7 CHR ''x'')]" "length (entries d1) \<le> 1"
    using insert_fd_spec [OF new_table_inv, of 7 "CHR ''x''"] by auto
  have "first_free (entries d1) = 1"
    using first_free_view [OF d1(1)] first_free_le [of "entries d1"] d1(2,3)
    by (cases "first_free (entries d1)") auto
  then obtain d2 :: "(char, unit) descriptors" where d2: "table_inv (\<lambda>_. 0) d2"
      "view d2 = [0 \<mapsto> (0, Any 7 CHR ''x''), 1 \<mapsto> (0, Any 7 CHR ''x'')]"
    using duplicate_spec [OF d1(1), of "\<lparr>raw = 0, closed = False, subsystem = 7\<rparr>" 0 "Any 7 CHR ''x''"] d1(2)
    by auto
  show ?thesis
    using fd_writes_are_shared [OF d2(1), of "[(\<lparr>raw = 0, closed = False, subsystem = 7\<rparr>, \<lambda>_. CHR ''y''),
        (\<lparr>raw = 5, closed = False, subsystem = 7\<rparr>, \<lambda>_. CHR ''z'')]"] d2
    by (auto simp: denotes_def)
qed

text \<open>C24: Closing a descriptor hands the entry back exactly when no other index and no handle
  refers to it; the index becomes unbound, every other index keeps its entry, and the descriptor is
  marked closed.\<close>

theorem fd_remove_returns_last:
  assumes "table_inv h d" and "denotes d fd = Some (a, x)"
  shows "\<exists>d'. remove_fd fd d =
      Done (if h a = 0 \<and> (\<forall>j b. view d j = Some (a, b) \<longrightarrow> j = raw fd) then Some x else None,
            fd\<lparr>closed := True\<rparr>, d') \<and>
    table_inv h d' \<and> view d' = (view d)(raw fd := None)"
  using assms by (rule remove_fd_last)

theorem fd_remove_returns_last_witness:
  "\<exists>fd d. denotes (d :: (char, unit) descriptors) fd = Some (0, CHR ''x'') \<and>
     (\<exists>d'. remove_fd fd d = Done (Some CHR ''x'', fd\<lparr>closed := True\<rparr>, d'))"
proof -
  obtain d :: "(char, unit) descriptors" where d:
      "table_inv (\<lambda>_. 0) d" "view d = [0 \<mapsto> (0, Any 7 CHR ''x'')]"
    using insert_fd_spec [OF new_table_inv, of 7 "CHR ''x''"] by auto
  define fd :: typed_fd where "fd = \<lparr>raw = 0, closed = False, subsystem = 7\<rparr>"
  have den: "denotes d fd = Some (0, CHR ''x'')" by (simp add: denotes_def fd_def d(2))
  have "\<forall>j b. view d j = Some (0, b) \<longrightarrow> j = raw fd" by (simp add: d(2) fd_def)
  with fd_remove_returns_last [OF d(1) den] den show ?thesis by auto
qed



end
