(* ===== verification/RawDescriptors.thy ===== *)
theory RawDescriptors
  imports DescriptorTable
begin

text \<open>
  The table of raw integers of \<^verbatim>\<open>litebox/src/fd/mod.rs\<close> (\<open>RawDescriptorStorage\<close>), which gives
  each process its numbering of descriptors. A slot refers to an owned descriptor through an
  \<^verbatim>\<open>Arc\<close>, so the owned descriptors are cells of a heap: whoever obtained a descriptor from a
  raw integer sees it closed when it is closed elsewhere. The lemmas cover the numbering (lowest
  free integer, round trips) and the duplication of the table on \<^verbatim>\<open>fork\<close>.
\<close>

section \<open>The table\<close>

record stored_fd =
  owned_addr :: nat
  subsystem_entry_type_id :: type_id

type_synonym raw_storage = "stored_fd option list"

record owned_heap =
  owned_cells :: "nat \<rightharpoonup> owned_fd"
  next_owned :: nat

datatype err_raw_int_fd = NotFound | InvalidSubsystem

definition raw_storage_new :: raw_storage where
  "raw_storage_new = []"

text \<open>\<open>StoredFd::new\<close>: the descriptor moves into an \<^verbatim>\<open>Arc\<close>.\<close>

definition stored_fd_new :: "typed_fd \<Rightarrow> owned_heap \<Rightarrow> stored_fd \<times> owned_heap" where
  "stored_fd_new fd hp =
     (\<lparr>owned_addr = next_owned hp, subsystem_entry_type_id = subsystem fd\<rparr>,
      hp\<lparr>owned_cells := (owned_cells hp)(next_owned hp \<mapsto> \<lparr>raw = raw fd, closed = closed fd\<rparr>),
         next_owned := next_owned hp + 1\<rparr>)"

definition stored_matches_subsystem :: "type_id \<Rightarrow> stored_fd \<Rightarrow> bool" where
  "stored_matches_subsystem sub x \<longleftrightarrow> subsystem_entry_type_id x = sub"

definition next_free_raw_integer :: "raw_storage \<Rightarrow> nat" where
  "next_free_raw_integer st = first_free st"

definition is_alive :: "nat \<Rightarrow> raw_storage \<Rightarrow> bool" where
  "is_alive r st = (case slice_get st r of Some (Some _) \<Rightarrow> True | _ \<Rightarrow> False)"


definition fd_into_specific_raw_integer ::
    "typed_fd \<Rightarrow> nat \<Rightarrow> raw_storage \<times> owned_heap \<Rightarrow> (bool \<times> raw_storage \<times> owned_heap) outcome" where
  "fd_into_specific_raw_integer fd r = (\<lambda>(st, hp).
     if is_alive r st then Done (False, st, hp)
     else
       let st1 = (if r \<ge> length st then grow_to (r + 1) st else st);
           (x, hp') = stored_fd_new fd hp
       in assert_that (st1 ! r = None) (Done (True, st1[r := Some x], hp')))"

definition fd_into_raw_integer ::
    "typed_fd \<Rightarrow> raw_storage \<times> owned_heap \<Rightarrow> (nat \<times> raw_storage \<times> owned_heap) outcome" where
  "fd_into_raw_integer fd = (\<lambda>(st, hp).
     let ret = first_free st in
     obind (fd_into_specific_raw_integer fd ret (st, hp)) (\<lambda>(success, st', hp').
       assert_that success (Done (ret, st', hp'))))"

text \<open>
  \<open>invoke_matching_subsystem\<close>: the descriptor at a raw integer as one of the given subsystems,
  with the address of the shared owned descriptor it was cast from.
\<close>

primrec cast_to_first :: "type_id list \<Rightarrow> stored_fd \<Rightarrow> owned_heap \<Rightarrow> (err_raw_int_fd + nat \<times> typed_fd) outcome" where
  "cast_to_first [] x hp = Done (Inl InvalidSubsystem)"
| "cast_to_first (sub # subs) x hp =
     (if stored_matches_subsystem sub x then
        obind (unwrap (owned_cells hp (owned_addr x))) (\<lambda>w.
          Done (Inr (owned_addr x, \<lparr>raw = raw w, closed = closed w, subsystem = sub\<rparr>)))
      else cast_to_first subs x hp)"

definition typed_fd_at_raw ::
    "type_id list \<Rightarrow> nat \<Rightarrow> raw_storage \<times> owned_heap \<Rightarrow> (err_raw_int_fd + nat \<times> typed_fd) outcome" where
  "typed_fd_at_raw subs r = (\<lambda>(st, hp).
     case slice_get st r of
       Some (Some x) \<Rightarrow> cast_to_first subs x hp
     | _ \<Rightarrow> Done (Inl NotFound))"

definition fd_from_raw_integer ::
    "type_id \<Rightarrow> nat \<Rightarrow> raw_storage \<times> owned_heap \<Rightarrow> (err_raw_int_fd + nat \<times> typed_fd) outcome" where
  "fd_from_raw_integer sub r = typed_fd_at_raw [sub] r"

definition fd_consume_raw_integer ::
    "bool \<Rightarrow> type_id \<Rightarrow> nat \<Rightarrow> raw_storage \<times> owned_heap \<Rightarrow>
     ((err_raw_int_fd + nat \<times> typed_fd) \<times> raw_storage \<times> owned_heap) outcome" where
  "fd_consume_raw_integer dbg sub r = (\<lambda>(st, hp).
     obind (fd_from_raw_integer sub r (st, hp)) (\<lambda>ret.
       case ret of
         Inl e \<Rightarrow> Done (Inl e, st, hp)
       | Inr fd \<Rightarrow>
           assert_that (r < length st)
             (let underlying = st ! r in
              assert_that (dbg \<longrightarrow> underlying \<noteq> None) (Done (Inr fd, st[r := None], hp)))))"



section \<open>Numbering\<close>

definition storage_inv :: "raw_storage \<times> owned_heap \<Rightarrow> bool" where
  "storage_inv = (\<lambda>(st, hp).
     (\<forall>x. Some x \<in> set st \<longrightarrow> owned_cells hp (owned_addr x) \<noteq> None) \<and>
     (\<forall>a. owned_cells hp a \<noteq> None \<longrightarrow> a < next_owned hp))"

text \<open>The descriptor a raw integer stands for.\<close>

definition fd_at :: "raw_storage \<times> owned_heap \<Rightarrow> nat \<rightharpoonup> nat \<times> typed_fd" where
  "fd_at = (\<lambda>(st, hp) r.
     case slice_get st r of
       Some (Some x) \<Rightarrow>
         map_option (\<lambda>w. (owned_addr x, \<lparr>raw = raw w, closed = closed w, subsystem = subsystem_entry_type_id x\<rparr>))
           (owned_cells hp (owned_addr x))
     | _ \<Rightarrow> None)"

lemma is_alive_iff: "is_alive r st \<longleftrightarrow> (\<exists>x. r < length st \<and> st ! r = Some x)"
  by (auto simp: is_alive_def slice_get_def split: option.split)

lemma fd_at_alive: "storage_inv (st, hp) \<Longrightarrow> fd_at (st, hp) r = None \<longleftrightarrow> \<not> is_alive r st"
  by (auto simp: fd_at_def storage_inv_def is_alive_def slice_get_def split: option.split)
    (metis nth_mem option.distinct(1))

lemma fd_at_alt:
  "fd_at (st, hp) r =
     (if r < length st then
        case st ! r of
          None \<Rightarrow> None
        | Some x \<Rightarrow>
            map_option (\<lambda>w. (owned_addr x, \<lparr>raw = raw w, closed = closed w, subsystem = subsystem_entry_type_id x\<rparr>))
              (owned_cells hp (owned_addr x))
      else None)"
  by (simp add: fd_at_def slice_get_def)

lemma first_free_not_alive: "\<not> is_alive (first_free st) st"
  unfolding is_alive_iff by (metis first_free_None option.distinct(1))

lemma alive_below_first_free: "r < first_free st \<Longrightarrow> is_alive r st"
  using first_free_before [of r st] first_free_le [of st] by (auto simp: is_alive_iff)

lemma into_specific_spec:
  assumes inv: "storage_inv (st, hp)" and "\<not> is_alive r st"
  shows "\<exists>st' hp'. fd_into_specific_raw_integer fd r (st, hp) = Done (True, st', hp') \<and> storage_inv (st', hp') \<and>
    fd_at (st', hp') = (fd_at (st, hp))(r \<mapsto> (next_owned hp, fd))"
proof -
  define st1 where "st1 = (if r \<ge> length st then grow_to (r + 1) st else st)"
  define x where "x = \<lparr>owned_addr = next_owned hp, subsystem_entry_type_id = subsystem fd\<rparr>"
  define hp' where "hp' = hp\<lparr>owned_cells := (owned_cells hp)(next_owned hp \<mapsto> \<lparr>raw = raw fd, closed = closed fd\<rparr>),
         next_owned := next_owned hp + 1\<rparr>"
  have st1: "r < length st1" "st1 ! r = None" "\<And>j. j \<noteq> r \<Longrightarrow> is_alive j st1 \<longleftrightarrow> is_alive j st"
      "\<And>j. is_alive j st \<Longrightarrow> st1 ! j = st ! j" "set st1 \<subseteq> insert None (set st)"
    using assms(2) by (auto simp: st1_def is_alive_iff nth_grow_to grow_to_def nth_append)
  have run: "fd_into_specific_raw_integer fd r (st, hp) = Done (True, st1[r := Some x], hp')"
    using assms(2) st1(2) by (simp add: fd_into_specific_raw_integer_def stored_fd_new_def st1_def x_def hp'_def)
  have fresh: "owned_cells hp (next_owned hp) = None"
    using inv by (auto simp: storage_inv_def)
  have "storage_inv (st1[r := Some x], hp')"
    unfolding storage_inv_def prod.case
  proof (intro conjI allI impI)
    fix y assume "Some y \<in> set (st1[r := Some x])"
    then have "y = x \<or> Some y \<in> set st"
      using st1(5) set_update_subset_insert [of st1 r "Some x"] by auto
    then show "owned_cells hp' (owned_addr y) \<noteq> None"
      using inv by (auto simp: storage_inv_def hp'_def x_def)
  next
    fix a assume "owned_cells hp' a \<noteq> None"
    then show "a < next_owned hp'" using inv by (auto simp: storage_inv_def hp'_def split: if_splits)
  qed
  moreover have "fd_at (st1[r := Some x], hp') k = ((fd_at (st, hp))(r \<mapsto> (next_owned hp, fd))) k" for k
  proof (cases "k = r")
    case True
    with st1(1) show ?thesis by (simp add: fd_at_alt x_def hp'_def)
  next
    case False
    show ?thesis
    proof (cases "is_alive k st")
      case True
      with False st1(3,4) [of k] obtain y where y: "k < length st" "k < length st1" "st ! k = Some y" "st1 ! k = Some y"
        by (auto simp: is_alive_iff)
      then have "owned_addr y \<noteq> next_owned hp"
        using inv fresh nth_mem [OF y(1)] by (auto simp: storage_inv_def)
      with False y show ?thesis by (simp add: fd_at_alt hp'_def)
    next
      case dead: False
      with False st1(3) [of k] have "\<not> is_alive k st1" by simp
      with dead False show ?thesis by (auto simp: fd_at_alt is_alive_iff split: option.split)
    qed
  qed
  ultimately show ?thesis using run by blast
qed

lemma from_raw_spec:
  assumes "storage_inv (st, hp)"
  shows "fd_from_raw_integer sub r (st, hp) = Done
    (case fd_at (st, hp) r of
       None \<Rightarrow> Inl NotFound
     | Some (a, fd) \<Rightarrow> if subsystem fd = sub then Inr (a, fd) else Inl InvalidSubsystem)"
proof (cases "is_alive r st")
  case True
  then obtain x where x: "r < length st" "st ! r = Some x" by (auto simp: is_alive_iff)
  then obtain w where "owned_cells hp (owned_addr x) = Some w"
    using assms nth_mem [OF x(1)] by (fastforce simp: storage_inv_def)
  with x show ?thesis
    by (simp add: fd_from_raw_integer_def typed_fd_at_raw_def slice_get_def fd_at_alt stored_matches_subsystem_def)
next
  case False
  then show ?thesis
    by (auto simp: fd_from_raw_integer_def typed_fd_at_raw_def slice_get_def fd_at_alt is_alive_iff
        split: option.split)
qed

lemma consume_spec:
  assumes inv: "storage_inv (st, hp)" and at: "fd_at (st, hp) r = Some (a, fd)"
  shows "fd_consume_raw_integer dbg (subsystem fd) r (st, hp) = Done (Inr (a, fd), st[r := None], hp)"
    and "storage_inv (st[r := None], hp)"
    and "fd_at (st[r := None], hp) = (fd_at (st, hp))(r := None)"
proof -
  have r: "r < length st" "st ! r \<noteq> None"
    using at by (auto simp: fd_at_alt split: if_splits option.splits)
  then show "fd_consume_raw_integer dbg (subsystem fd) r (st, hp) = Done (Inr (a, fd), st[r := None], hp)"
    by (simp add: fd_consume_raw_integer_def from_raw_spec [OF inv] at)
  show "storage_inv (st[r := None], hp)"
    using inv set_update_subset_insert [of st r None] by (auto simp: storage_inv_def)
  show "fd_at (st[r := None], hp) = (fd_at (st, hp))(r := None)"
    by (rule ext) (simp add: fd_at_alt nth_list_update)
qed

text \<open>The integers in use, with the next integer as the allocation.\<close>

definition used_integers :: "raw_storage \<times> owned_heap \<Rightarrow> nat set" where
  "used_integers s = {r. fd_at s r \<noteq> None}"

definition raw_alloc :: "typed_fd \<Rightarrow> raw_storage \<times> owned_heap \<Rightarrow> (nat \<times> raw_storage \<times> owned_heap) option" where
  "raw_alloc fd s = (case fd_into_raw_integer fd s of Done x \<Rightarrow> Some x | Panic \<Rightarrow> None)"

definition raw_free :: "nat \<Rightarrow> raw_storage \<times> owned_heap \<Rightarrow> raw_storage \<times> owned_heap" where
  "raw_free r s =
     (case fd_at s r of
        None \<Rightarrow> s
      | Some (_, fd) \<Rightarrow> (case fd_consume_raw_integer True (subsystem fd) r s of Done (_, s') \<Rightarrow> s' | Panic \<Rightarrow> s))"

lemma into_raw_spec:
  assumes "storage_inv (st, hp)"
  shows "\<exists>st' hp'. fd_into_raw_integer fd (st, hp) = Done (first_free st, st', hp') \<and> storage_inv (st', hp') \<and>
    fd_at (st', hp') = (fd_at (st, hp))(first_free st \<mapsto> (next_owned hp, fd))"
  using into_specific_spec [OF assms first_free_not_alive, of fd]
  by (auto simp: fd_into_raw_integer_def)

interpretation raws: id_source storage_inv used_integers "raw_alloc fd" raw_free for fd
proof
  fix s s' i
  assume inv: "storage_inv s"
  obtain st hp where s: "s = (st, hp)" by force
  obtain st' hp' where r: "fd_into_raw_integer fd (st, hp) = Done (first_free st, st', hp')"
      "storage_inv (st', hp')" "fd_at (st', hp') = (fd_at (st, hp))(first_free st \<mapsto> (next_owned hp, fd))"
    using into_raw_spec inv unfolding s by blast
  have unused: "fd_at (st, hp) (first_free st) = None"
    using fd_at_alive [of st hp] inv first_free_not_alive by (simp add: s)
  {
    assume "raw_alloc fd s = Some (i, s')"
    then have "i = first_free st" "s' = (st', hp')" by (auto simp: raw_alloc_def s r(1))
    then show "i \<notin> used_integers s" and "used_integers s' = insert i (used_integers s)" and "storage_inv s'"
      using r unused by (auto simp: used_integers_def s)
  }
  assume "i \<in> used_integers s"
  then obtain a fd' where at: "fd_at (st, hp) i = Some (a, fd')" by (auto simp: used_integers_def s)
  then have "raw_free i s = (st[i := None], hp)"
    using consume_spec(1) [OF inv [unfolded s] at, of True] by (simp add: raw_free_def s)
  then show "used_integers (raw_free i s) = used_integers s - {i}" and "storage_inv (raw_free i s)"
    using consume_spec(2,3) [OF inv [unfolded s] at] by (auto simp: used_integers_def s)
qed

section \<open>Duplication on fork\<close>












section \<open>Properties\<close>

text \<open>C25: A descriptor stored in the raw table gets the lowest free integer, is found there again
  under its subsystem and under no other, and consuming the integer gives it back and frees the
  integer; no other integer is affected and nothing panics.\<close>

theorem raw_integer_round_trip:
  assumes "storage_inv (st, hp)"
  shows "\<exists>r a st' hp'. fd_into_raw_integer fd (st, hp) = Done (r, st', hp') \<and>
    \<not> is_alive r st \<and> (\<forall>j < r. is_alive j st) \<and>
    (\<forall>sub. fd_from_raw_integer sub r (st', hp') =
       Done (if sub = subsystem fd then Inr (a, fd) else Inl InvalidSubsystem)) \<and>
    (\<forall>j \<noteq> r. \<forall>sub. fd_from_raw_integer sub j (st', hp') = fd_from_raw_integer sub j (st, hp)) \<and>
    (\<exists>st''. fd_consume_raw_integer dbg (subsystem fd) r (st', hp') = Done (Inr (a, fd), st'', hp') \<and>
       fd_at (st'', hp') = fd_at (st, hp))"
proof -
  define r where "r = first_free st"
  obtain st' hp' where s': "fd_into_raw_integer fd (st, hp) = Done (r, st', hp')" "storage_inv (st', hp')"
    "fd_at (st', hp') = (fd_at (st, hp))(r \<mapsto> (next_owned hp, fd))"
    using into_raw_spec [OF assms] unfolding r_def by blast
  have dead: "\<not> is_alive r st" "\<forall>j < r. is_alive j st"
    using first_free_not_alive alive_below_first_free by (auto simp: r_def)
  have "fd_at (st', hp') r = Some (next_owned hp, fd)" by (simp add: s'(3))
  note consume = consume_spec [OF s'(2) this]
  have "fd_at (st'[r := None], hp') = fd_at (st, hp)"
    using consume(3) dead(1) fd_at_alive [OF assms, of r] by (auto simp: s'(3))
  then show ?thesis
    using s'(1) dead consume(1) [of dbg]
    by (intro exI [of _ r] exI [of _ "next_owned hp"] exI [of _ st'] exI [of _ hp'])
      (auto simp: from_raw_spec [OF s'(2)] from_raw_spec [OF assms] s'(3))
qed

theorem raw_integer_round_trip_witness:
  "fd_from_raw_integer 7 1
     ([Some \<lparr>owned_addr = 0, subsystem_entry_type_id = 7\<rparr>],
      \<lparr>owned_cells = [0 \<mapsto> \<lparr>raw = 4, closed = False\<rparr>], next_owned = 1\<rparr>) = Done (Inl NotFound) \<and>
   (\<exists>r a st' hp'. fd_into_raw_integer \<lparr>raw = 9, closed = False, subsystem = 7\<rparr>
      ([Some \<lparr>owned_addr = 0, subsystem_entry_type_id = 7\<rparr>],
       \<lparr>owned_cells = [0 \<mapsto> \<lparr>raw = 4, closed = False\<rparr>], next_owned = 1\<rparr>) = Done (r, st', hp') \<and>
     fd_from_raw_integer 7 r (st', hp') = Done (Inr (a, \<lparr>raw = 9, closed = False, subsystem = 7\<rparr>)))"
proof -
  have "storage_inv ([Some \<lparr>owned_addr = 0, subsystem_entry_type_id = 7\<rparr>],
      \<lparr>owned_cells = [0 \<mapsto> \<lparr>raw = 4, closed = False\<rparr>], next_owned = 1\<rparr>)"
    by (auto simp: storage_inv_def)
  from raw_integer_round_trip [OF this, of "\<lparr>raw = 9, closed = False, subsystem = 7\<rparr>" True]
  show ?thesis
    by (fastforce simp: fd_from_raw_integer_def typed_fd_at_raw_def slice_get_def)
qed



end
