(* ===== verification/Errno.thy ===== *)
theory Errno
  imports Prelude
begin

text \<open>
  Error numbers, \<^verbatim>\<open>litebox_common_linux/src/errno/mod.rs\<close> and \<^verbatim>\<open>generated.rs\<close>: a number
  between 1 and \<open>MAX\<close>, the constants the modelled components return, and the checked conversions
  from integers.
\<close>

section \<open>Error numbers\<close>

datatype errno = Errno (errno_value: nat)

definition EPERM :: errno where "EPERM = Errno 1"

definition ENOENT :: errno where "ENOENT = Errno 2"

definition EINTR :: errno where "EINTR = Errno 4"

definition EIO :: errno where "EIO = Errno 5"

definition EBADF :: errno where "EBADF = Errno 9"

definition EAGAIN :: errno where "EAGAIN = Errno 11"

definition ENOMEM :: errno where "ENOMEM = Errno 12"

definition EACCES :: errno where "EACCES = Errno 13"

definition EFAULT :: errno where "EFAULT = Errno 14"

definition EBUSY :: errno where "EBUSY = Errno 16"

definition EEXIST :: errno where "EEXIST = Errno 17"

definition EXDEV :: errno where "EXDEV = Errno 18"

definition ENOTDIR :: errno where "ENOTDIR = Errno 20"

definition EISDIR :: errno where "EISDIR = Errno 21"

definition EINVAL :: errno where "EINVAL = Errno 22"

definition EFBIG :: errno where "EFBIG = Errno 27"

definition ESPIPE :: errno where "ESPIPE = Errno 29"

definition EROFS :: errno where "EROFS = Errno 30"

definition EPIPE :: errno where "EPIPE = Errno 32"

definition ENOSYS :: errno where "ENOSYS = Errno 38"

definition ENOTEMPTY :: errno where "ENOTEMPTY = Errno 39"

definition ELOOP :: errno where "ELOOP = Errno 40"

definition EOPNOTSUPP :: errno where "EOPNOTSUPP = Errno 95"

definition ETIMEDOUT :: errno where "ETIMEDOUT = Errno 110"

definition ERRNO_MAX :: errno where "ERRNO_MAX = Errno 133"

lemmas errno_defs = EPERM_def ENOENT_def EINTR_def EIO_def EBADF_def EAGAIN_def ENOMEM_def EACCES_def 
  EFAULT_def EBUSY_def EEXIST_def EXDEV_def ENOTDIR_def EISDIR_def EINVAL_def EFBIG_def 
  ESPIPE_def EROFS_def EPIPE_def ENOSYS_def ENOTEMPTY_def ELOOP_def EOPNOTSUPP_def 
  ETIMEDOUT_def

definition as_neg :: "errno \<Rightarrow> int" where
  "as_neg e = - int (errno_value e)"

section \<open>Conversions\<close>

datatype errno_conversion_error = ExpectedPositive | ExpectedNonZero | ExpectedSmallEnough

definition errno_try_from_u8 :: "nat \<Rightarrow> errno_conversion_error + errno" where
  "errno_try_from_u8 v =
     (if v = 0 then Inl ExpectedNonZero
      else if v \<le> errno_value ERRNO_MAX then Inr (Errno v)
      else Inl ExpectedSmallEnough)"

definition errno_try_from_u32 :: "nat \<Rightarrow> errno_conversion_error + errno" where
  "errno_try_from_u32 v = (if v \<le> 255 then errno_try_from_u8 v else Inl ExpectedSmallEnough)"

definition errno_try_from_i32 :: "int \<Rightarrow> errno_conversion_error + errno" where
  "errno_try_from_i32 v = (if v < 0 then Inl ExpectedPositive else errno_try_from_u32 (nat v))"

lemma errno_try_from_u32_eq:
  "errno_try_from_u32 v = Inr e \<longleftrightarrow> 1 \<le> v \<and> v \<le> 133 \<and> e = Errno v"
  by (auto simp: errno_try_from_u32_def errno_try_from_u8_def ERRNO_MAX_def)

lemma errno_round_trip:
  "errno_try_from_i32 v = Inr e \<Longrightarrow> as_neg e = - v"
  by (auto simp: errno_try_from_i32_def errno_try_from_u32_eq as_neg_def split: if_splits)

end
