(* ===== verification/Flags.thy ===== *)
theory Flags
  imports Errno
begin

text \<open>
  Bit flags: \<open>Events\<close> of \<^verbatim>\<open>litebox/src/event/mod.rs\<close>, \<open>OFlags\<close> of
  \<^verbatim>\<open>litebox/src/fs/mod.rs\<close> (x86-64 values), the flag arguments of the event and timer descriptors.
  Flag types are 32-bit words; all of them are declared
  with \<^verbatim>\<open>const _ = !0\<close>, so every bit pattern is a valid value and truncation is the identity.
\<close>

section \<open>Operations of bit flags\<close>

definition contains :: "u32 \<Rightarrow> u32 \<Rightarrow> bool" where
  "contains flags f \<longleftrightarrow> flags AND f = f"

definition set_flag :: "u32 \<Rightarrow> bool \<Rightarrow> u32 \<Rightarrow> u32" where
  "set_flag f on flags = (if on then flags OR f else flags AND NOT f)"

section \<open>Events\<close>

definition EV_IN :: u32 where "EV_IN = 0x0001"

definition EV_PRI :: u32 where "EV_PRI = 0x0002"

definition EV_OUT :: u32 where "EV_OUT = 0x0004"

definition EV_ERR :: u32 where "EV_ERR = 0x0008"

definition EV_HUP :: u32 where "EV_HUP = 0x0010"

definition EV_NVAL :: u32 where "EV_NVAL = 0x0020"

definition EV_RDHUP :: u32 where "EV_RDHUP = 0x2000"

definition ALWAYS_POLLED :: u32 where
  "ALWAYS_POLLED = EV_ERR OR EV_HUP OR EV_NVAL"

section \<open>Open flags\<close>

definition RDONLY :: u32 where "RDONLY = 0x0"

definition WRONLY :: u32 where "WRONLY = 0x1"

definition RDWR :: u32 where "RDWR = 0x2"

definition O_CREAT :: u32 where "O_CREAT = 0x40"

definition O_EXCL :: u32 where "O_EXCL = 0x80"

definition O_NOCTTY :: u32 where "O_NOCTTY = 0x100"

definition O_TRUNC :: u32 where "O_TRUNC = 0x200"

definition O_APPEND :: u32 where "O_APPEND = 0x400"

definition O_NONBLOCK :: u32 where "O_NONBLOCK = 0x800"

definition O_DSYNC :: u32 where "O_DSYNC = 0x1000"

definition O_ASYNC :: u32 where "O_ASYNC = 0x2000"

definition O_DIRECT :: u32 where "O_DIRECT = 0x4000"

definition O_LARGEFILE :: u32 where "O_LARGEFILE = 0x8000"

definition O_DIRECTORY :: u32 where "O_DIRECTORY = 0x10000"

definition O_NOFOLLOW :: u32 where "O_NOFOLLOW = 0x20000"

definition O_NOATIME :: u32 where "O_NOATIME = 0x40000"

definition O_CLOEXEC :: u32 where "O_CLOEXEC = 0x80000"

definition O_SYNC :: u32 where "O_SYNC = 0x101000"

definition O_PATH :: u32 where "O_PATH = 0x200000"

definition STATUS_FLAGS_MASK :: u32 where
  "STATUS_FLAGS_MASK =
     O_APPEND OR O_NONBLOCK OR O_DSYNC OR O_ASYNC OR O_DIRECT OR O_LARGEFILE OR O_NOATIME OR O_SYNC
     OR O_PATH OR RDONLY OR WRONLY OR RDWR"

text \<open>The status word of a file: what \<open>get_status\<close> reports, and \<open>set_status\<close>.\<close>

definition get_status :: "u32 \<Rightarrow> u32" where
  "get_status status = status AND STATUS_FLAGS_MASK"

definition set_status :: "u32 \<Rightarrow> bool \<Rightarrow> u32 \<Rightarrow> u32" where
  "set_status flag on status = (if on then status OR flag else status AND NOT flag)"

definition EFD_SEMAPHORE :: u32 where "EFD_SEMAPHORE = 1"

definition EFD_NONBLOCK :: u32 where "EFD_NONBLOCK = O_NONBLOCK"

definition TFD_NONBLOCK :: u32 where "TFD_NONBLOCK = O_NONBLOCK"

lemmas event_defs = EV_IN_def EV_PRI_def EV_OUT_def EV_ERR_def EV_HUP_def EV_NVAL_def EV_RDHUP_def

lemmas oflag_defs = RDONLY_def WRONLY_def RDWR_def O_CREAT_def O_EXCL_def O_NOCTTY_def O_TRUNC_def
  O_APPEND_def O_NONBLOCK_def O_DSYNC_def O_ASYNC_def O_DIRECT_def O_LARGEFILE_def O_DIRECTORY_def
  O_NOFOLLOW_def O_NOATIME_def O_CLOEXEC_def O_SYNC_def O_PATH_def

section \<open>Facts\<close>

lemma status_mask_bits: "STATUS_FLAGS_MASK = 0x34FC03"
  unfolding STATUS_FLAGS_MASK_def oflag_defs by code_simp

lemma contains_bit: "contains flags (2 ^ n) \<longleftrightarrow> bit flags n" if "n < 32"
proof
  assume "contains flags (2 ^ n)"
  then have "bit (flags AND 2 ^ n) n" using that by (simp add: contains_def bit_exp_iff)
  then show "bit flags n" by (simp add: bit_and_iff)
next
  assume "bit flags n"
  then show "contains flags (2 ^ n)"
    unfolding contains_def by (intro bit_word_eqI) (auto simp: bit_and_iff bit_exp_iff)
qed

lemma nonblock_bit: "O_NONBLOCK = 2 ^ 11"
  by (simp add: O_NONBLOCK_def)

lemma contains_nonblock: "contains flags O_NONBLOCK \<longleftrightarrow> bit flags 11"
  unfolding nonblock_bit by (rule contains_bit) simp

lemma get_status_nonblock: "contains (get_status s) O_NONBLOCK \<longleftrightarrow> bit s 11"
proof -
  have "bit STATUS_FLAGS_MASK 11" unfolding status_mask_bits by code_simp
  then show ?thesis by (simp add: contains_nonblock get_status_def bit_and_iff)
qed

end
