(* ===== verification/Wait.thy ===== *)
theory Wait
  imports Flags
begin

text \<open>
  The blocking loop of \<^verbatim>\<open>litebox/src/event/polling.rs\<close> (\<open>WaitContext::wait_on_events\<close>,
  \<open>Pollee::wait\<close>): try, and while the operation says "try again", wait to be woken and try again.
  The state is what the operation works on. What other threads do while this one waits, and whether
  the wait ends by a wake-up, an interrupt or a time-out, is an explicit schedule; a schedule that
  is used up while the operation still cannot proceed means the thread is still blocked. The contract
  of an operation that can be used this way is a locale: a refused attempt changes nothing.
\<close>

section \<open>The loop\<close>

datatype wait_error = Interrupted | TimedOut

datatype 'e try_op_error = TryAgain | WaitError wait_error | Other 'e

text \<open>How one wait ends: woken after the given change by others, or failed.\<close>

datatype 's wake = Woken "'s \<Rightarrow> 's" | WaitFailed wait_error

fun wait_loop ::
    "('s \<Rightarrow> ('e try_op_error + 'r) \<times> 's) \<Rightarrow> 's wake list \<Rightarrow> 's \<Rightarrow> (('e try_op_error + 'r) \<times> 's) option" where
  "wait_loop try_op [] s =
     (case try_op s of
        (Inl TryAgain, s') \<Rightarrow> None
      | (ret, s') \<Rightarrow> Some (ret, s'))"
| "wait_loop try_op (w # ws) s =
     (case try_op s of
        (Inl TryAgain, s') \<Rightarrow>
          (case w of
             WaitFailed err \<Rightarrow> Some (Inl (WaitError err), s')
           | Woken env \<Rightarrow> wait_loop try_op ws (env s'))
      | (ret, s') \<Rightarrow> Some (ret, s'))"

text \<open>
  \<open>gap\<close> is what happens between the first attempt and the loop, where the observer is registered.
\<close>

definition wait_on_events ::
    "bool \<Rightarrow> ('e + unit) \<Rightarrow> ('s \<Rightarrow> 's) \<Rightarrow> ('s \<Rightarrow> ('e try_op_error + 'r) \<times> 's) \<Rightarrow> 's wake list \<Rightarrow> 's \<Rightarrow>
     (('e try_op_error + 'r) \<times> 's) option" where
  "wait_on_events nonblock registered gap try_op ws s =
     (case try_op s of
        (Inl TryAgain, s') \<Rightarrow>
          if nonblock then Some (Inl TryAgain, s')
          else (case registered of
                  Inl e \<Rightarrow> Some (Inl (Other e), gap s')
                | Inr _ \<Rightarrow> wait_loop try_op ws (gap s'))
      | (ret, s') \<Rightarrow> Some (ret, s'))"

definition pollee_wait ::
    "bool \<Rightarrow> ('s \<Rightarrow> 's) \<Rightarrow> ('s \<Rightarrow> ('e try_op_error + 'r) \<times> 's) \<Rightarrow> 's wake list \<Rightarrow> 's \<Rightarrow>
     (('e try_op_error + 'r) \<times> 's) option" where
  "pollee_wait nonblock gap try_op ws s = wait_on_events nonblock (Inr ()) gap try_op ws s"

text \<open>The conversion of the outcome into an error number.\<close>

definition errno_of_try_op_error :: "errno try_op_error \<Rightarrow> errno" where
  "errno_of_try_op_error e =
     (case e of
        TryAgain \<Rightarrow> EAGAIN
      | WaitError Interrupted \<Rightarrow> EINTR
      | WaitError TimedOut \<Rightarrow> ETIMEDOUT
      | Other e \<Rightarrow> e)"

section \<open>The states a waiting thread meets\<close>

text \<open>The changes of the first wake-ups of a schedule, as long as it has only wake-ups.\<close>

fun wakes :: "'s wake list \<Rightarrow> ('s \<Rightarrow> 's) list" where
  "wakes [] = []"
| "wakes (Woken env # ws) = env # wakes ws"
| "wakes (WaitFailed e # ws) = []"

text \<open>The state at the \<open>k\<close>-th attempt of the loop, when no attempt before changed anything.\<close>

definition state_at :: "('s \<Rightarrow> 's) \<Rightarrow> 's wake list \<Rightarrow> nat \<Rightarrow> 's \<Rightarrow> 's" where
  "state_at gap ws k s = fold (\<lambda>env. env) (take k (wakes ws)) (gap s)"

locale blocking_op =
  fixes try_op :: "'s \<Rightarrow> ('e try_op_error + 'r) \<times> 's"
  assumes again_unchanged: "try_op s = (Inl TryAgain, s') \<Longrightarrow> s' = s"
    and no_wait_error: "try_op s \<noteq> (Inl (WaitError e), s')"
begin

definition again :: "'s \<Rightarrow> bool" where
  "again s \<longleftrightarrow> fst (try_op s) = Inl TryAgain"

lemma again_eq: "again s \<longleftrightarrow> try_op s = (Inl TryAgain, s)"
  using again_unchanged by (cases "try_op s") (auto simp: again_def)

lemma not_again:
  assumes "\<not> again s"
  shows "wait_loop try_op ws s = Some (try_op s)"
    and "wait_on_events nonblock reg gap try_op ws s = Some (try_op s)"
  using assms
  by (cases ws; cases "try_op s"; auto simp: again_def wait_on_events_def split: sum.split try_op_error.split)+

lemma wait_loop_ends:
  assumes "k \<le> length (wakes ws)" and "\<not> again (fold (\<lambda>env. env) (take k (wakes ws)) s)"
    and "\<And>j. j < k \<Longrightarrow> again (fold (\<lambda>env. env) (take j (wakes ws)) s)"
  shows "wait_loop try_op ws s = Some (try_op (fold (\<lambda>env. env) (take k (wakes ws)) s))"
  using assms
proof (induction ws arbitrary: k s rule: wakes.induct)
  case (2 env ws)
  show ?case
  proof (cases k)
    case 0
    with 2 show ?thesis by (simp add: not_again del: wait_loop.simps)
  next
    case (Suc m)
    have "again s" using "2.prems"(3) [of 0] Suc by simp
    moreover have "again (fold (\<lambda>env. env) (take j (wakes ws)) (env s))" if "j < m" for j
      using "2.prems"(3) [of "Suc j"] that Suc by simp
    then have "wait_loop try_op ws (env s) = Some (try_op (fold (\<lambda>env. env) (take m (wakes ws)) (env s)))"
      using "2.prems"(1,2) Suc by (intro "2.IH") simp_all
    ultimately show ?thesis using Suc by (simp add: again_eq)
  qed
qed (simp_all add: not_again del: wait_loop.simps)

lemma wait_loop_effect:
  assumes "wait_loop try_op ws s = Some (ret, s')" and "\<And>e. ret \<noteq> Inl (WaitError e)"
  shows "\<exists>k \<le> length (wakes ws). try_op (fold (\<lambda>env. env) (take k (wakes ws)) s) = (ret, s') \<and>
    ret \<noteq> Inl TryAgain \<and> (\<forall>j < k. again (fold (\<lambda>env. env) (take j (wakes ws)) s))"
  using assms
proof (induction ws arbitrary: s rule: wakes.induct)
  case 1
  show ?case
  proof (cases "again s")
    case True
    with 1 show ?thesis by (simp add: again_eq)
  next
    case False
    with 1 show ?thesis by (auto simp: not_again again_def simp del: wait_loop.simps)
  qed
next
  case (2 env ws)
  show ?case
  proof (cases "again s")
    case True
    with "2.prems"(1) have "wait_loop try_op ws (env s) = Some (ret, s')" by (simp add: again_eq)
    from "2.IH" [OF this "2.prems"(2)] obtain k where "k \<le> length (wakes ws)"
        "try_op (fold (\<lambda>env. env) (take k (wakes ws)) (env s)) = (ret, s')" "ret \<noteq> Inl TryAgain"
        "\<forall>j < k. again (fold (\<lambda>env. env) (take j (wakes ws)) (env s))"
      by blast
    with True show ?thesis
      by (intro exI [of _ "Suc k"]) (auto simp: less_Suc_eq_0_disj)
  next
    case False
    with 2 have "try_op s = (ret, s')" by (simp add: not_again del: wait_loop.simps)
    with False show ?thesis by (intro exI [of _ 0]) (auto simp: again_def)
  qed
next
  case (3 e ws)
  show ?case
  proof (cases "again s")
    case True
    with 3 show ?thesis by (auto simp: again_eq)
  next
    case False
    with 3 show ?thesis by (auto simp: not_again again_def simp del: wait_loop.simps)
  qed
qed

end

end
