(* ===== verification/EventFd.thy ===== *)
theory EventFd
  imports Wait
begin

text \<open>
  The event counter of \<^verbatim>\<open>litebox_shim_linux/src/syscalls/eventfd.rs\<close> (\<open>EventFile\<close>). The
  64-bit counter is a \<open>nat\<close> with the overflow test written out; \<open>notified\<close> records the events the
  file announces to its observers, in order. The lemmas cover the bound of the counter, the account
  of what was written and read, readiness, the state carried over a fork and blocking reads.
\<close>

section \<open>The file\<close>

record event_file =
  counter :: nat
  status :: u32
  semaphore :: bool
  notified :: "u32 list"

definition event_new :: "nat \<Rightarrow> u32 \<Rightarrow> event_file" where
  "event_new count flags =
     \<lparr>counter = count,
      status = set_flag O_NONBLOCK (contains flags EFD_NONBLOCK) RDWR,
      semaphore = contains flags EFD_SEMAPHORE,
      notified = []\<rparr>"

definition fork_state :: "event_file \<Rightarrow> nat \<times> u32" where
  "fork_state e =
     (let flags = set_flag EFD_NONBLOCK (contains (status e) O_NONBLOCK) 0;
          flags' = set_flag EFD_SEMAPHORE (semaphore e) flags
      in (counter e, flags'))"

definition event_try_read :: "event_file \<Rightarrow> (errno try_op_error + nat) \<times> event_file" where
  "event_try_read e =
     (if counter e = 0 then (Inl TryAgain, e)
      else
        let res = (if semaphore e then 1 else counter e)
        in (Inr res, e\<lparr>counter := counter e - res, notified := notified e @ [EV_OUT]\<rparr>))"

definition event_try_write :: "nat \<Rightarrow> event_file \<Rightarrow> (errno try_op_error + nat) \<times> event_file" where
  "event_try_write v e =
     (case checked_add (counter e) v of
        Some new_value \<Rightarrow>
          if new_value \<noteq> u64_max
          then (Inr 8, e\<lparr>counter := new_value, notified := notified e @ [EV_IN]\<rparr>)
          else (Inl TryAgain, e)
      | None \<Rightarrow> (Inl TryAgain, e))"

text \<open>The outcome of a wait with the error converted, as \<^verbatim>\<open>map_err(Errno::from)\<close> does.\<close>

definition to_errno :: "(errno try_op_error + 'r) \<times> 's \<Rightarrow> (errno + 'r) \<times> 's" where
  "to_errno = (\<lambda>(ret, s). (case ret of Inl e \<Rightarrow> Inl (errno_of_try_op_error e) | Inr r \<Rightarrow> Inr r, s))"

definition event_read ::
    "(event_file \<Rightarrow> event_file) \<Rightarrow> event_file wake list \<Rightarrow> event_file \<Rightarrow> ((errno + nat) \<times> event_file) option" where
  "event_read gap ws e =
     map_option to_errno
       (pollee_wait (contains (get_status (status e)) O_NONBLOCK) gap event_try_read ws e)"

definition event_write ::
    "nat \<Rightarrow> (event_file \<Rightarrow> event_file) \<Rightarrow> event_file wake list \<Rightarrow> event_file \<Rightarrow>
     ((errno + nat) \<times> event_file) option" where
  "event_write v gap ws e =
     map_option to_errno
       (pollee_wait (contains (get_status (status e)) O_NONBLOCK) gap (event_try_write v) ws e)"

definition event_check_io_events :: "event_file \<Rightarrow> u32" where
  "event_check_io_events e =
     (let events = (if counter e \<noteq> 0 then EV_IN else 0)
      in if counter e < u64_max - 1 then events OR EV_OUT else events)"

definition event_set_status :: "u32 \<Rightarrow> bool \<Rightarrow> event_file \<Rightarrow> event_file" where
  "event_set_status flag on e = e\<lparr>status := set_status flag on (status e)\<rparr>"

section \<open>Runs of operations\<close>

text \<open>
  A request to the counter and its effect: the amount it adds when accepted and the amount it takes.
  \<open>event_run\<close> is the sequence of the requests in the order the lock admits them.
\<close>

datatype event_request = ReadReq | WriteReq nat | StatusReq u32 bool

definition event_step :: "event_request \<Rightarrow> event_file \<Rightarrow> nat \<times> nat \<times> event_file" where
  "event_step rq e =
     (case rq of
        ReadReq \<Rightarrow> (case event_try_read e of (Inr n, e') \<Rightarrow> (0, n, e') | (Inl _, e') \<Rightarrow> (0, 0, e'))
      | WriteReq v \<Rightarrow> (case event_try_write v e of (Inr _, e') \<Rightarrow> (v, 0, e') | (Inl _, e') \<Rightarrow> (0, 0, e'))
      | StatusReq flag on \<Rightarrow> (0, 0, event_set_status flag on e))"

primrec event_run :: "event_request list \<Rightarrow> event_file \<Rightarrow> nat \<times> nat \<times> event_file" where
  "event_run [] e = (0, 0, e)"
| "event_run (rq # rqs) e =
     (let (w, r, e1) = event_step rq e; (w', r', e2) = event_run rqs e1 in (w + w', r + r', e2))"

section \<open>Facts\<close>

lemma event_try_read_again [simp]: "event_try_read e = (Inl TryAgain, e') \<longleftrightarrow> counter e = 0 \<and> e' = e"
  by (auto simp: event_try_read_def Let_def)

lemma event_try_write_again [simp]:
  "event_try_write v e = (Inl TryAgain, e') \<longleftrightarrow> u64_max \<le> counter e + v \<and> e' = e"
  by (auto simp: event_try_write_def checked_add_def)

lemma event_try_write_ok:
  "counter e + v < u64_max \<Longrightarrow>
   event_try_write v e = (Inr 8, e\<lparr>counter := counter e + v, notified := notified e @ [EV_IN]\<rparr>)"
  by (simp add: event_try_write_def checked_add_def)

interpretation event_reader: blocking_op event_try_read
  by unfold_locales (auto simp: event_try_read_def Let_def split: if_splits)

interpretation event_writer: blocking_op "event_try_write v" for v
  by unfold_locales (auto simp: event_try_write_def split: if_splits option.splits)

lemma event_step_account:
  assumes "counter e < u64_max" and "event_step rq e = (w, r, e')"
  shows "counter e' < u64_max \<and> counter e + w = counter e' + r \<and> semaphore e' = semaphore e"
  using assms
  by (cases rq)
    (auto simp: event_step_def event_try_read_def event_try_write_def checked_add_def event_set_status_def Let_def
      split: if_splits)

lemma event_run_account:
  "counter e < u64_max \<Longrightarrow> event_run rqs e = (w, r, e') \<Longrightarrow>
   counter e' < u64_max \<and> counter e + w = counter e' + r \<and> semaphore e' = semaphore e"
proof (induction rqs arbitrary: e w r)
  case (Cons rq rqs)
  obtain w1 r1 e1 where step: "event_step rq e = (w1, r1, e1)" by (metis prod_cases3)
  obtain w2 r2 e2 where run: "event_run rqs e1 = (w2, r2, e2)" by (metis prod_cases3)
  from Cons.prems(2) have "w = w1 + w2" "r = r1 + r2" "e' = e2" by (auto simp: step run)
  with event_step_account [OF Cons.prems(1) step] Cons.IH [of e1 w2 r2] run show ?case by simp
qed simp

lemma event_again: "event_reader.again e \<longleftrightarrow> counter e = 0"
  by (simp add: event_reader.again_eq)

lemma event_write_again: "event_writer.again v e \<longleftrightarrow> u64_max \<le> counter e + v"
  by (simp add: event_writer.again_eq)

lemma wait_blocking_unfold:
  "try_op e = (Inl TryAgain, e) \<Longrightarrow> pollee_wait False gap try_op ws e = wait_loop try_op ws (gap e)"
  by (simp add: pollee_wait_def wait_on_events_def)

lemma event_in_bit: "contains (event_check_io_events e) EV_IN \<longleftrightarrow> counter e \<noteq> 0"
  unfolding event_check_io_events_def Let_def contains_def event_defs by simp

lemma event_out_bit: "contains (event_check_io_events e) EV_OUT \<longleftrightarrow> counter e < u64_max - 1"
  unfolding event_check_io_events_def Let_def contains_def event_defs by simp

lemma contains_set_other: "contains (set_flag f on flags) f \<longleftrightarrow> on" if "f \<noteq> 0"
proof (cases on)
  case True
  have "(flags OR f) AND f = f"
    by (rule bit_word_eqI) (auto simp: bit_and_iff bit_or_iff)
  with True show ?thesis by (simp add: contains_def set_flag_def)
next
  case False
  have "(flags AND NOT f) AND f = 0"
    by (rule bit_word_eqI) (auto simp: bit_and_iff bit_not_iff)
  with False that show ?thesis by (simp add: contains_def set_flag_def)
qed

lemma fork_state_flags:
  "contains (snd (fork_state e)) EFD_NONBLOCK \<longleftrightarrow> contains (status e) O_NONBLOCK"
  "contains (snd (fork_state e)) EFD_SEMAPHORE \<longleftrightarrow> semaphore e"
  by (cases "semaphore e"; cases "contains (status e) O_NONBLOCK";
      simp add: fork_state_def Let_def set_flag_def contains_def EFD_NONBLOCK_def EFD_SEMAPHORE_def O_NONBLOCK_def)+

section \<open>Properties\<close>

text \<open>C15: Whatever sequence of reads, writes and status changes an event file goes through, its
  counter never exceeds the largest 64-bit value minus one, and the initial value plus the accepted
  writes is the counter plus everything read: no event is lost or delivered twice.\<close>

theorem event_conservation:
  assumes "count < u64_max"
  shows "\<exists>w r e'. event_run rqs (event_new count flags) = (w, r, e') \<and>
    counter e' \<le> u64_max - 1 \<and> count + w = counter e' + r"
proof -
  obtain w r e' where run: "event_run rqs (event_new count flags) = (w, r, e')" by (metis prod_cases3)
  moreover have "counter (event_new count flags) = count" by (simp add: event_new_def)
  ultimately show ?thesis using event_run_account [OF _ run] assms by auto
qed

theorem event_conservation_witness:
  "(2 :: nat) < u64_max \<and>
   (\<exists>w r e'. event_run [WriteReq 5, ReadReq, ReadReq, WriteReq u64_max] (event_new 2 EFD_SEMAPHORE) = (w, r, e') \<and>
      counter e' \<le> u64_max - 1 \<and> 2 + w = counter e' + r)"
  using event_conservation [of 2 "[WriteReq 5, ReadReq, ReadReq, WriteReq u64_max]" EFD_SEMAPHORE] by simp

text \<open>Readiness tells the truth: the file polls readable exactly when a read would succeed and
  writable exactly when a write of one would, a refused read or write changes nothing, and an
  accepted one announces the event that the other side may be waiting for.\<close>

theorem event_readiness_exact:
  "(contains (event_check_io_events e) EV_IN \<longleftrightarrow>
      (\<exists>n e'. event_try_read e = (Inr n, e') \<and> 0 < n \<and> notified e' = notified e @ [EV_OUT])) \<and>
   (contains (event_check_io_events e) EV_OUT \<longleftrightarrow>
      (\<exists>e'. event_try_write 1 e = (Inr 8, e') \<and> notified e' = notified e @ [EV_IN])) \<and>
   (counter e = 0 \<longleftrightarrow> event_try_read e = (Inl TryAgain, e)) \<and>
   (u64_max \<le> counter e + v \<longleftrightarrow> event_try_write v e = (Inl TryAgain, e))"
proof (intro conjI)
  show "contains (event_check_io_events e) EV_IN \<longleftrightarrow>
      (\<exists>n e'. event_try_read e = (Inr n, e') \<and> 0 < n \<and> notified e' = notified e @ [EV_OUT])"
    unfolding event_in_bit by (auto simp: event_try_read_def Let_def)
  show "contains (event_check_io_events e) EV_OUT \<longleftrightarrow>
      (\<exists>e'. event_try_write 1 e = (Inr 8, e') \<and> notified e' = notified e @ [EV_IN])"
    unfolding event_out_bit by (auto simp: event_try_write_def checked_add_def)
qed simp_all

text \<open>C27: The state carried over a fork rebuilds the file: the same counter, semaphore mode and
  blocking mode, hence the same answers to every read, write and poll. Of the status word only the
  access mode and the non-blocking bit survive.\<close>

theorem event_fork_round_trip:
  "let e' = case_prod event_new (fork_state e) in
   counter e' = counter e \<and> semaphore e' = semaphore e \<and> fork_state e' = fork_state e \<and>
   status e' = (if contains (status e) O_NONBLOCK then RDWR OR O_NONBLOCK else RDWR) \<and>
   fst (event_try_read e') = fst (event_try_read e) \<and>
   fst (event_try_write v e') = fst (event_try_write v e) \<and>
   event_check_io_events e' = event_check_io_events e"
proof -
  define e' where "e' = case_prod event_new (fork_state e)"
  have c: "counter e' = counter e" and sem: "semaphore e' = semaphore e"
    and st: "status e' = (if contains (status e) O_NONBLOCK then RDWR OR O_NONBLOCK else RDWR)"
    using fork_state_flags [of e]
    by (auto simp: e'_def event_new_def case_prod_unfold set_flag_def RDWR_def O_NONBLOCK_def fork_state_def Let_def)
  then have "fork_state e' = fork_state e"
    by (auto simp: fork_state_def Let_def contains_def RDWR_def O_NONBLOCK_def)
  moreover have "fst (event_try_read e') = fst (event_try_read e)"
    "fst (event_try_write v e') = fst (event_try_write v e)"
    "event_check_io_events e' = event_check_io_events e"
    using c sem by (auto simp: event_try_read_def event_try_write_def event_check_io_events_def Let_def
      split: option.split)
  ultimately show ?thesis using c sem st unfolding e'_def [symmetric] Let_def by blast
qed

text \<open>A blocking read on an empty counter returns at the first moment the counter is positive,
  whatever the other threads did until then, with the amount taken at that moment and nothing else
  changed.\<close>

theorem event_read_wakes:
  assumes "\<not> contains (get_status (status e)) O_NONBLOCK" and "counter e = 0"
    and "k \<le> length (wakes ws)" and "0 < counter (state_at gap ws k e)"
    and "\<forall>j < k. counter (state_at gap ws j e) = 0"
  shows "event_read gap ws e =
    (let s = state_at gap ws k e; n = (if semaphore s then 1 else counter s)
     in Some (Inr n, s\<lparr>counter := counter s - n, notified := notified s @ [EV_OUT]\<rparr>))"
proof -
  have "wait_loop event_try_read ws (gap e) = Some (event_try_read (state_at gap ws k e))"
    using event_reader.wait_loop_ends [of k ws "gap e"] assms(3-5) by (simp add: state_at_def event_again)
  then show ?thesis
    using assms(1,2,4) wait_blocking_unfold [of event_try_read e]
    by (simp add: event_read_def to_errno_def event_try_read_def Let_def)
qed

theorem event_read_wakes_witness:
  "event_read (\<lambda>e. e) [Woken (\<lambda>e. snd (event_try_write 0 e)), Woken (\<lambda>e. snd (event_try_write 7 e))] (event_new 0 0)
     = Some (Inr 7, \<lparr>counter = 0, status = RDWR, semaphore = False, notified = [EV_IN, EV_IN, EV_OUT]\<rparr>)"
proof -
  let ?e = "event_new 0 0"
  let ?ws = "[Woken (\<lambda>e. snd (event_try_write 0 e)), Woken (\<lambda>e. snd (event_try_write 7 e))]"
  have e: "?e = \<lparr>counter = 0, status = RDWR, semaphore = False, notified = []\<rparr>"
    by (simp add: event_new_def contains_def set_flag_def EFD_NONBLOCK_def EFD_SEMAPHORE_def O_NONBLOCK_def RDWR_def)
  have s: "state_at (\<lambda>e. e) ?ws 2 ?e = \<lparr>counter = 7, status = RDWR, semaphore = False, notified = [EV_IN, EV_IN]\<rparr>"
    by (simp add: state_at_def e event_try_write_def checked_add_def)
  have z: "counter (state_at (\<lambda>e. e) ?ws j ?e) = 0" if "j < 2" for j
    using that by (cases j) (simp_all add: state_at_def e event_try_write_def checked_add_def)
  have b: "\<not> contains (get_status (status ?e)) O_NONBLOCK"
    by (simp add: e contains_def get_status_def status_mask_bits RDWR_def O_NONBLOCK_def)
  show ?thesis
    using event_read_wakes [of ?e 2 ?ws "\<lambda>e. e"] b z s by (simp add: e)
qed

end
