(* ===== verification/TimerFd.thy ===== *)
theory TimerFd
  imports Wait
begin

text \<open>
  The timer descriptor of \<^verbatim>\<open>litebox_shim_linux/src/syscalls/timerfd.rs\<close>. Time is read from the
  platform, so every operation takes the instant \<open>now\<close>; the platform's instants are a record of
  the two operations of the \<^verbatim>\<open>Instant\<close> trait. Durations are whole nanoseconds. What the timer
  needs of a clock is a locale, interpreted on the instants of the Linux userland platform. The
  lemmas count expirations: nothing depends on when the timer is observed.
\<close>

section \<open>Durations and instants\<close>

text \<open>The largest \<^verbatim>\<open>core::time::Duration\<close>: \<open>u64::MAX\<close> seconds and 999999999 nanoseconds.\<close>

abbreviation DURATION_MAX :: nat where
  "DURATION_MAX \<equiv> 18446744073709551615999999999"

definition duration_saturating_mul :: "nat \<Rightarrow> nat \<Rightarrow> nat" where
  "duration_saturating_mul d n = min (d * n) DURATION_MAX"

definition saturating_add_u64 :: "nat \<Rightarrow> nat \<Rightarrow> nat" where
  "saturating_add_u64 a b = min (a + b) u64_max"

record 'i clock =
  checked_duration_since :: "'i \<Rightarrow> 'i \<Rightarrow> nat option"
  instant_checked_add :: "'i \<Rightarrow> nat \<Rightarrow> 'i option"

text \<open>The instants of the Linux userland platform are durations since an arbitrary origin.\<close>

definition linux_userland_clock :: "nat clock" where
  "linux_userland_clock =
     \<lparr>checked_duration_since = (\<lambda>self earlier. if earlier \<le> self then Some (self - earlier) else None),
      instant_checked_add = (\<lambda>self d. if self + d \<le> DURATION_MAX then Some (self + d) else None)\<rparr>"

section \<open>The timer\<close>

record 'i timer_state =
  deadline :: "'i option"
  interval :: nat
  accrued :: nat

definition timer_default :: "'i timer_state" where
  "timer_default = \<lparr>deadline = None, interval = 0, accrued = 0\<rparr>"

definition resync :: "'i clock \<Rightarrow> 'i \<Rightarrow> 'i timer_state \<Rightarrow> 'i timer_state" where
  "resync ck now st =
     (case deadline st of
        None \<Rightarrow> st
      | Some dl \<Rightarrow>
          (case checked_duration_since ck now dl of
             None \<Rightarrow> st
           | Some overdue \<Rightarrow>
               if interval st = 0
               then st\<lparr>accrued := saturating_add_u64 (accrued st) 1, deadline := None\<rparr>
               else
                 let interval_nanos = max (interval st) 1;
                     elapsed_nanos = overdue + interval_nanos;
                     missed = elapsed_nanos div interval_nanos;
                     advance = duration_saturating_mul (interval st) (if missed \<le> u32_max then missed else u32_max)
                 in st\<lparr>accrued := saturating_add_u64 (accrued st) (if missed \<le> u64_max then missed else u64_max),
                       deadline := instant_checked_add ck dl advance\<rparr>))"

definition remaining :: "'i clock \<Rightarrow> 'i \<Rightarrow> 'i timer_state \<Rightarrow> nat" where
  "remaining ck now st =
     (case Option.bind (deadline st) (\<lambda>d. checked_duration_since ck d now) of None \<Rightarrow> 0 | Some r \<Rightarrow> r)"

record 'i timerfd_file =
  timer :: "'i timer_state"
  timer_status :: u32
  timer_notified :: "u32 list"
  is_realtime :: bool

definition timerfd_new :: "u32 \<Rightarrow> bool \<Rightarrow> 'i timerfd_file" where
  "timerfd_new flags realtime =
     \<lparr>timer = timer_default,
      timer_status = set_flag O_NONBLOCK (contains flags TFD_NONBLOCK) RDONLY,
      timer_notified = [],
      is_realtime = realtime\<rparr>"

definition set_time ::
    "'i clock \<Rightarrow> 'i \<Rightarrow> 'i option \<Rightarrow> nat \<Rightarrow> 'i timerfd_file \<Rightarrow> (nat \<times> nat) \<times> 'i timerfd_file" where
  "set_time ck now dl iv f =
     (let st = resync ck now (timer f);
          prev = (interval st, remaining ck now st);
          st' = resync ck now (st\<lparr>deadline := dl, interval := iv, accrued := 0\<rparr>);
          already_due = accrued st' > 0
      in (prev, f\<lparr>timer := st',
                  timer_notified := timer_notified f @ (if already_due then [EV_IN] else [])\<rparr>))"

definition get_time :: "'i clock \<Rightarrow> 'i \<Rightarrow> 'i timerfd_file \<Rightarrow> (nat \<times> nat) \<times> 'i timerfd_file" where
  "get_time ck now f =
     (let st = resync ck now (timer f) in ((interval st, remaining ck now st), f\<lparr>timer := st\<rparr>))"

definition timer_try_read :: "'i clock \<Rightarrow> 'i \<Rightarrow> 'i timerfd_file \<Rightarrow> (errno + nat) \<times> 'i timerfd_file" where
  "timer_try_read ck now f =
     (let st = resync ck now (timer f)
      in if accrued st = 0 then (Inl EAGAIN, f\<lparr>timer := st\<rparr>)
         else (Inr (accrued st), f\<lparr>timer := st\<lparr>accrued := 0\<rparr>\<rparr>))"

definition timer_read :: "'i clock \<Rightarrow> 'i \<Rightarrow> 'i timerfd_file \<Rightarrow> (errno + nat) \<times> 'i timerfd_file" where
  "timer_read ck now f =
     (if \<not> contains (get_status (timer_status f)) O_NONBLOCK then (Inl EOPNOTSUPP, f)
      else timer_try_read ck now f)"

definition timer_check_io_events :: "'i clock \<Rightarrow> 'i \<Rightarrow> 'i timerfd_file \<Rightarrow> u32 \<times> 'i timerfd_file" where
  "timer_check_io_events ck now f =
     (let st = resync ck now (timer f)
      in (if accrued st > 0 then EV_IN else 0, f\<lparr>timer := st\<rparr>))"

section \<open>Sequences of observations\<close>

text \<open>An observation of an armed timer, and the total that the reads of a sequence return.\<close>

datatype observation = ReadObs | PollObs | GetTimeObs

definition observe :: "'i clock \<Rightarrow> observation \<Rightarrow> 'i \<Rightarrow> 'i timerfd_file \<Rightarrow> nat \<times> 'i timerfd_file" where
  "observe ck ob now f =
     (case ob of
        ReadObs \<Rightarrow> (case timer_try_read ck now f of (Inr n, f') \<Rightarrow> (n, f') | (Inl _, f') \<Rightarrow> (0, f'))
      | PollObs \<Rightarrow> (0, snd (timer_check_io_events ck now f))
      | GetTimeObs \<Rightarrow> (0, snd (get_time ck now f)))"

primrec observe_all :: "'i clock \<Rightarrow> (observation \<times> 'i) list \<Rightarrow> 'i timerfd_file \<Rightarrow> nat \<times> 'i timerfd_file" where
  "observe_all ck [] f = (0, f)"
| "observe_all ck (x # xs) f =
     (let (n, f1) = observe ck (fst x) (snd x) f; (m, f2) = observe_all ck xs f1 in (n + m, f2))"

text \<open>How often a timer armed for \<open>d\<close> with interval \<open>iv\<close> has expired by the time \<open>t\<close>.\<close>

definition expirations :: "nat \<Rightarrow> nat \<Rightarrow> nat \<Rightarrow> nat" where
  "expirations d iv t = (if t < d then 0 else if iv = 0 then 1 else (t - d) div iv + 1)"


lemma expirations_next:
  assumes "0 < iv" and "d \<le> t"
  shows "t < d + iv * expirations d iv t \<and> d + iv * expirations d iv t \<le> t + iv"
proof -
  define q r where "q = (t - d) div iv" and "r = (t - d) mod iv"
  have "t - d = iv * q + r" "r < iv" using assms(1) by (simp_all add: q_def r_def)
  moreover have count: "expirations d iv t = q + 1" using assms by (simp add: expirations_def q_def)
  ultimately show ?thesis using assms(2) unfolding count distrib_left by linarith
qed

text \<open>Counting from the next deadline: nothing is counted twice and nothing is missed.\<close>

lemma expirations_resume:
  assumes "0 < iv" and "t \<le> t'" and "d' = d + iv * expirations d iv t"
  shows "expirations d iv t' = expirations d iv t + expirations d' iv t'"
proof (cases "d \<le> t")
  case True
  define m where "m = expirations d iv t"
  have next_: "t < d'" "d' \<le> t + iv" using expirations_next [OF assms(1) True] assms(3) by simp_all
  show ?thesis
  proof (cases "t' < d'")
    case True
    have "(t' - d) div iv < m"
      using True \<open>d \<le> t\<close> assms by (simp add: m_def div_less_iff_less_mult mult.commute)
    moreover have "(t - d) div iv \<le> (t' - d) div iv" using assms(2) by (intro div_le_mono) simp
    ultimately show ?thesis using True \<open>d \<le> t\<close> assms(1,2) by (simp add: m_def expirations_def)
  next
    case False
    then have "t' - d = (t' - d') + iv * m" using assms(3) by (simp add: m_def)
    then have "(t' - d) div iv = m + (t' - d') div iv" using assms(1) by simp
    then show ?thesis using False \<open>d \<le> t\<close> assms(1,2) by (simp add: m_def [symmetric]) (simp add: expirations_def)
  qed
next
  case False
  then show ?thesis using assms by (simp add: expirations_def)
qed

section \<open>What the timer needs of a clock\<close>

text \<open>
  The instants have positions on a line of nanoseconds: differences are exact, and adding a duration
  is exact up to the limit of the clock.
\<close>

locale exact_clock =
  fixes ck :: "'i clock" and pos :: "'i \<Rightarrow> nat" and lim :: nat
  assumes since_pos: "checked_duration_since ck a b = (if pos b \<le> pos a then Some (pos a - pos b) else None)"
    and add_pos: "pos a + d \<le> lim \<Longrightarrow> \<exists>c. instant_checked_add ck a d = Some c \<and> pos c = pos a + d"
    and lim_representable: "lim \<le> DURATION_MAX"
begin

lemma resync_not_due: "deadline st = Some dl \<Longrightarrow> pos now < pos dl \<Longrightarrow> resync ck now st = st"
  by (simp add: resync_def since_pos)

lemma resync_single:
  assumes "deadline st = Some dl" and "pos dl \<le> pos now" and "interval st = 0"
  shows "resync ck now st = st\<lparr>accrued := saturating_add_u64 (accrued st) 1, deadline := None\<rparr>"
  using assms by (simp add: resync_def since_pos)

lemma resync_periodic:
  assumes "deadline st = Some dl" and "pos dl \<le> pos now" and "0 < interval st"
    and n: "n = expirations (pos dl) (interval st) (pos now)" "n \<le> u32_max"
    and "pos now + interval st \<le> lim"
  shows "\<exists>dl'. resync ck now st = st\<lparr>accrued := saturating_add_u64 (accrued st) n, deadline := Some dl'\<rparr> \<and>
    pos dl' = pos dl + interval st * n"
proof -
  have "max (interval st) 1 = interval st" using assms(3) by simp
  then have missed: "(pos now - pos dl + max (interval st) 1) div max (interval st) 1 = n"
    using div_add_self2 [of "interval st" "pos now - pos dl"] assms(2,3) n(1)
    unfolding expirations_def by (simp del: add_diff_assoc2)
  have "pos dl + interval st * n \<le> lim"
    using expirations_next [OF assms(3,2)] assms(6) n(1) by simp
  then have "duration_saturating_mul (interval st) n = interval st * n"
    and "\<exists>c. instant_checked_add ck dl (interval st * n) = Some c \<and> pos c = pos dl + interval st * n"
    using lim_representable add_pos by (auto simp: duration_saturating_mul_def)
  moreover have "resync ck now st = st\<lparr>accrued := saturating_add_u64 (accrued st) n,
      deadline := instant_checked_add ck dl (duration_saturating_mul (interval st) n)\<rparr>"
    using assms(3) n(2)
    unfolding resync_def assms(1) option.case since_pos if_P [OF assms(2)] Let_def missed by simp
  ultimately show ?thesis by auto
qed

text \<open>
  The timer armed for \<open>d\<close> with interval \<open>iv\<close>, when \<open>taken\<close> expirations were read and the last
  observation was at \<open>t\<close>.
\<close>

definition tracks :: "nat \<Rightarrow> nat \<Rightarrow> nat \<Rightarrow> nat \<Rightarrow> 'i timer_state \<Rightarrow> bool" where
  "tracks d iv t taken st \<longleftrightarrow>
     interval st = iv \<and> taken + accrued st = expirations d iv t \<and>
     (if iv = 0 \<and> d \<le> t then deadline st = None
      else \<exists>dl. deadline st = Some dl \<and> pos dl = d + iv * expirations d iv t)"

lemma tracks_resync:
  assumes tr: "tracks d iv t taken st" and "t \<le> pos now"
    and bound: "expirations d iv (pos now) \<le> u32_max" "pos now + iv \<le> lim"
  shows "tracks d iv (pos now) taken (resync ck now st)"
proof (cases "iv = 0")
  case True
  show ?thesis
  proof (cases "d \<le> t")
    case True
    then show ?thesis using tr \<open>iv = 0\<close> assms(2) by (auto simp: tracks_def resync_def expirations_def)
  next
    case False
    then obtain dl where dl: "deadline st = Some dl" "pos dl = d"
      using tr \<open>iv = 0\<close> by (auto simp: tracks_def)
    show ?thesis
    proof (cases "d \<le> pos now")
      case True
      then show ?thesis
        using resync_single [OF dl(1)] tr dl(2) False \<open>iv = 0\<close>
        by (simp add: tracks_def expirations_def saturating_add_u64_def)
    next
      case later: False
      then show ?thesis
        using resync_not_due [OF dl(1)] tr dl False \<open>iv = 0\<close> by (simp add: tracks_def expirations_def)
    qed
  qed
next
  case False
  then have iv: "0 < iv" by simp
  obtain dl where dl: "deadline st = Some dl" "pos dl = d + iv * expirations d iv t"
    using tr False by (auto simp: tracks_def)
  note resume = expirations_resume [OF iv assms(2) dl(2)]
  show ?thesis
  proof (cases "pos dl \<le> pos now")
    case True
    have "expirations (pos dl) (interval st) (pos now) \<le> u32_max"
      using resume bound(1) tr by (simp add: tracks_def)
    then obtain dl' where "resync ck now st =
        st\<lparr>accrued := saturating_add_u64 (accrued st) (expirations (pos dl) iv (pos now)), deadline := Some dl'\<rparr>"
        "pos dl' = pos dl + iv * expirations (pos dl) iv (pos now)"
      using resync_periodic [OF dl(1) True _ refl] iv bound(2) tr by (auto simp: tracks_def)
    then show ?thesis
      using tr resume bound(1) dl iv by (simp add: tracks_def saturating_add_u64_def algebra_simps)
  next
    case later: False
    then have "expirations (pos dl) iv (pos now) = 0" by (simp add: expirations_def)
    then show ?thesis
      using resync_not_due [OF dl(1)] later tr resume dl iv by (simp add: tracks_def)
  qed
qed

end

context exact_clock begin

lemma tracks_observe:
  assumes "tracks d iv t taken (timer f)" and "t \<le> pos now"
    and "expirations d iv (pos now) \<le> u32_max" and "pos now + iv \<le> lim"
    and "observe ck ob now f = (n, f')"
  shows "tracks d iv (pos now) (taken + n) (timer f')"
  using tracks_resync [OF assms(1-4)] assms(5)
  by (cases ob)
    (auto simp: observe_def timer_try_read_def timer_check_io_events_def get_time_def Let_def tracks_def
      split: if_splits)

lemma expirations_mono: "t \<le> t' \<Longrightarrow> expirations d iv t \<le> expirations d iv t'"
  by (auto simp: expirations_def div_le_mono)

lemma tracks_observe_all:
  assumes "tracks d iv t taken (timer f)" and "sorted (t # map (\<lambda>x. pos (snd x)) xs)"
    and "T = last (t # map (\<lambda>x. pos (snd x)) xs)"
    and "expirations d iv T \<le> u32_max" and "T + iv \<le> lim"
    and "observe_all ck xs f = (n, f')"
  shows "tracks d iv T (taken + n) (timer f')"
  using assms
proof (induction xs arbitrary: t taken f n)
  case (Cons x xs)
  obtain k f1 where step: "observe ck (fst x) (snd x) f = (k, f1)" by fastforce
  obtain m where rest: "observe_all ck xs f1 = (m, f')" and n: "n = k + m"
    using Cons.prems(6) step by (auto split: prod.splits)
  have "sorted (pos (snd x) # map (\<lambda>x. pos (snd x)) xs)" and T: "T = last (pos (snd x) # map (\<lambda>x. pos (snd x)) xs)"
    using Cons.prems(2,3) by simp_all
  moreover from this have "pos (snd x) \<le> T"
    by (cases "xs = []") (auto simp: last_map)
  moreover from this have "tracks d iv (pos (snd x)) (taken + k) (timer f1)"
    using tracks_observe [OF Cons.prems(1) _ _ _ step] Cons.prems(2,4,5) expirations_mono [of "pos (snd x)" T d iv] by simp
  ultimately show ?case
    using Cons.IH [of "pos (snd x)" "taken + k" f1 m] Cons.prems(4,5) rest n by (simp add: add.assoc)
qed simp

lemma tracks_armed:
  assumes "interval st = iv" and "deadline st = Some dl" and "accrued st = 0" and "pos now < pos dl"
  shows "tracks (pos dl) iv (pos now) 0 st"
  using assms by (simp add: tracks_def expirations_def)

lemma tracks_set_time:
  assumes "expirations (pos dl) iv (pos now) \<le> u32_max" and "pos now + iv \<le> lim"
  shows "tracks (pos dl) iv (pos now) 0 (timer (snd (set_time ck now (Some dl) iv f)))"
proof (cases "pos now < pos dl")
  case True
  then show ?thesis
    by (simp add: set_time_def Let_def resync_not_due tracks_def expirations_def)
next
  case False
  define st where "st = (resync ck now (timer f))\<lparr>deadline := Some dl, interval := iv, accrued := 0\<rparr>"
  have st: "deadline st = Some dl" "interval st = iv" "accrued st = 0" by (simp_all add: st_def)
  have "tracks (pos dl) iv (pos now) 0 (resync ck now st)"
  proof (cases "iv = 0")
    case True
    then show ?thesis
      using resync_single [OF st(1)] False st by (simp add: tracks_def expirations_def saturating_add_u64_def)
  next
    case iv: False
    then obtain dl' where "resync ck now st = st\<lparr>accrued := saturating_add_u64 (accrued st)
          (expirations (pos dl) iv (pos now)), deadline := Some dl'\<rparr>"
        "pos dl' = pos dl + iv * expirations (pos dl) iv (pos now)"
      using resync_periodic [OF st(1) _ _ refl, of now] False st assms by auto
    then show ?thesis using st iv assms(1) by (simp add: tracks_def saturating_add_u64_def)
  qed
  then show ?thesis by (simp add: set_time_def Let_def st_def)
qed

lemma tracks_remaining:
  assumes "tracks d iv (pos now) taken st"
  shows "(interval st, remaining ck now st) =
    (iv, if iv = 0 \<and> d \<le> pos now then 0 else d + iv * expirations d iv (pos now) - pos now)"
  using assms by (auto simp: tracks_def remaining_def since_pos split: if_splits)

end

interpretation linux_timer: exact_clock linux_userland_clock "\<lambda>t. t" DURATION_MAX
  by unfold_locales (auto simp: linux_userland_clock_def)

text \<open>
  The bound on the missed intervals matters: past it the deadline is advanced by less than was
  counted, so the same intervals are counted again by the next observation.
\<close>

lemma timer_saturation_recounts:
  "let st = resync linux_userland_clock 8589934592 \<lparr>deadline = Some 0, interval = 1, accrued = 0\<rparr> in
   accrued st = 8589934593 \<and> accrued (resync linux_userland_clock 8589934592 st) = 12884901891"
  by code_simp

section \<open>Properties\<close>



text \<open>Setting the time of an armed timer reports the interval it had and the time that was left
  to its next deadline, replaces both, forgets what had accrued, and announces readability exactly
  when the new deadline has already passed.\<close>

theorem timer_set_time_reports:
  assumes "t \<le> t'" and "expirations d iv t' \<le> u32_max" and "t' + iv \<le> DURATION_MAX"
    and "expirations d' iv' t' \<le> u32_max" and "t' + iv' \<le> DURATION_MAX"
  shows "let f1 = snd (set_time linux_userland_clock t (Some d) iv f);
             (prev, f2) = set_time linux_userland_clock t' (Some d') iv' f1 in
    prev = (iv, if t' < d then d - t' else if iv = 0 then 0 else iv - (t' - d) mod iv) \<and>
    interval (timer f2) = iv' \<and> accrued (timer f2) = expirations d' iv' t' \<and>
    timer_notified f2 = timer_notified f1 @ (if d' \<le> t' then [EV_IN] else [])"
proof -
  define f1 where "f1 = snd (set_time linux_userland_clock t (Some d) iv f)"
  obtain prev f2 where f2: "set_time linux_userland_clock t' (Some d') iv' f1 = (prev, f2)" by fastforce
  have "linux_timer.tracks d iv t 0 (timer f1)"
    using linux_timer.tracks_set_time [of d iv t f] linux_timer.expirations_mono [OF assms(1), of d iv] assms(1-3)
    by (simp add: f1_def)
  then have "linux_timer.tracks d iv t' 0 (resync linux_userland_clock t' (timer f1))"
    using assms(1-3) by (intro linux_timer.tracks_resync)
  from linux_timer.tracks_remaining [OF this] f2
  have prev: "prev = (iv, if iv = 0 \<and> d \<le> t' then 0 else d + iv * expirations d iv t' - t')"
    by (auto simp: set_time_def Let_def)
  have "d + iv * expirations d iv t' - t' = iv - (t' - d) mod iv" if "d \<le> t'" "0 < iv"
  proof -
    have "t' - d = iv * ((t' - d) div iv) + (t' - d) mod iv" by simp
    moreover have "(t' - d) mod iv < iv" using that by simp
    ultimately have "d + (iv * ((t' - d) div iv) + iv) - t' = iv - (t' - d) mod iv" using that by linarith
    with that show ?thesis by (simp add: expirations_def distrib_left)
  qed
  then have left: "prev = (iv, if t' < d then d - t' else if iv = 0 then 0 else iv - (t' - d) mod iv)"
    using prev by (auto simp: expirations_def)
  have tr: "linux_timer.tracks d' iv' t' 0 (timer f2)"
    using linux_timer.tracks_set_time [of d' iv' t' f1] assms(4,5) f2 by simp
  have "timer_notified f2 = timer_notified f1 @ (if accrued (timer f2) > 0 then [EV_IN] else [])"
    using f2 by (auto simp: set_time_def Let_def)
  moreover have "accrued (timer f2) > 0 \<longleftrightarrow> d' \<le> t'"
    using tr by (auto simp: linux_timer.tracks_def expirations_def)
  ultimately show ?thesis
    using left tr unfolding f1_def [symmetric] by (simp add: f2 linux_timer.tracks_def)
qed

theorem timer_set_time_reports_witness:
  "let f1 = snd (set_time linux_userland_clock 3 (Some 10) 10 (timerfd_new 0 True));
       (prev, f2) = set_time linux_userland_clock 27 (Some 20) 0 f1 in
   prev = (10, 3) \<and> interval (timer f2) = 0 \<and> accrued (timer f2) = 1 \<and> timer_notified f2 = [EV_IN]"
proof -
  have "timer_notified (snd (set_time linux_userland_clock 3 (Some 10) 10 (timerfd_new 0 True))) = []"
    by (simp add: set_time_def Let_def timerfd_new_def timer_default_def resync_def linux_userland_clock_def)
  then show ?thesis
    using timer_set_time_reports [of 3 27 10 10 20 0 "timerfd_new 0 True"]
    by (simp add: expirations_def Let_def case_prod_unfold)
qed

end
