(* ===== verification/Pipe.thy ===== *)
theory Pipe
  imports Wait
begin

text \<open>
  The two ends of a pipe of \<^verbatim>\<open>litebox/src/pipes.rs\<close> (\<open>WriteEnd\<close>, \<open>ReadEnd\<close>, \<open>new_pipe\<close>).
  The ring buffer is a library outside the repository: its operations are a record passed to the
  definitions, and \<open>ring_laws\<close> states what its documentation promises, with \<open>q\<close> the queued elements
  and \<open>cap\<close> the capacity. One record holds both ends, with the reference counts of the ends, their
  shutdown flags and what each end's observers are told. A read buffer is given by its length, and
  the elements stored at its front are returned. The lemmas cover order, atomicity of small writes,
  end of file and readiness.
\<close>

section \<open>The ring buffer\<close>

record ('r, 't) ringbuf =
  rb_new :: "nat \<Rightarrow> 'r"
  vacant_len :: "'r \<Rightarrow> nat"
  occupied_len :: "'r \<Rightarrow> nat"
  is_full :: "'r \<Rightarrow> bool"
  is_empty :: "'r \<Rightarrow> bool"
  push_slice :: "'t list \<Rightarrow> 'r \<Rightarrow> nat \<times> 'r"
  pop_slice :: "nat \<Rightarrow> 'r \<Rightarrow> 't list \<times> 'r"
  peek_slice :: "nat \<Rightarrow> 'r \<Rightarrow> 't list"

definition ring_laws :: "('r, 't) ringbuf \<Rightarrow> ('r \<Rightarrow> 't list) \<Rightarrow> ('r \<Rightarrow> nat) \<Rightarrow> bool" where
  "ring_laws rb q cap \<longleftrightarrow>
     (\<forall>n. 0 < n \<longrightarrow> q (rb_new rb n) = [] \<and> cap (rb_new rb n) = n) \<and>
     (\<forall>r. length (q r) \<le> cap r \<and> vacant_len rb r = cap r - length (q r) \<and> occupied_len rb r = length (q r) \<and>
        (is_full rb r \<longleftrightarrow> length (q r) = cap r) \<and> (is_empty rb r \<longleftrightarrow> q r = [])) \<and>
     (\<forall>xs r k r'. push_slice rb xs r = (k, r') \<longrightarrow>
        k = min (length xs) (cap r - length (q r)) \<and> q r' = q r @ take k xs \<and> cap r' = cap r \<and>
        (k = 0 \<longrightarrow> r' = r)) \<and>
     (\<forall>n r xs r'. pop_slice rb n r = (xs, r') \<longrightarrow>
        xs = take n (q r) \<and> q r' = drop n (q r) \<and> cap r' = cap r \<and> (xs = [] \<longrightarrow> r' = r)) \<and>
     (\<forall>n r. peek_slice rb n r = take n (q r))"

section \<open>The ends\<close>

record 'r pipe =
  ring :: 'r
  w_shutdown :: bool
  r_shutdown :: bool
  w_strong :: nat
  r_strong :: nat
  w_status :: u32
  r_status :: u32
  atomic_slice_guarantee_size :: nat
  w_notified :: "u32 list"
  r_notified :: "u32 list"

datatype pipe_error = ThisEndShutdown | PeerShutdown | WouldBlock | PipeWaitError wait_error

datatype read_error = ReadClosedFd | NotForReading | ReadWouldBlock | ReadWaitError wait_error

datatype write_error = WriteClosedFd | ReadEndClosed | NotForWriting | WriteWouldBlock | WriteWaitError wait_error

definition pipe_error_of :: "pipe_error try_op_error \<Rightarrow> pipe_error" where
  "pipe_error_of e = (case e of TryAgain \<Rightarrow> WouldBlock | WaitError w \<Rightarrow> PipeWaitError w | Other e \<Rightarrow> e)"

definition read_error_of :: "pipe_error \<Rightarrow> read_error outcome" where
  "read_error_of e =
     (case e of
        ThisEndShutdown \<Rightarrow> Done ReadClosedFd
      | PeerShutdown \<Rightarrow> Panic
      | WouldBlock \<Rightarrow> Done ReadWouldBlock
      | PipeWaitError w \<Rightarrow> Done (ReadWaitError w))"

definition write_error_of :: "pipe_error \<Rightarrow> write_error" where
  "write_error_of e =
     (case e of
        ThisEndShutdown \<Rightarrow> WriteClosedFd
      | PeerShutdown \<Rightarrow> ReadEndClosed
      | WouldBlock \<Rightarrow> WriteWouldBlock
      | PipeWaitError w \<Rightarrow> WriteWaitError w)"

text \<open>A new pipe, with one reference to each end.\<close>

definition new_pipe :: "('r, 't) ringbuf \<Rightarrow> nat \<Rightarrow> u32 \<Rightarrow> nat option \<Rightarrow> 'r pipe" where
  "new_pipe rb capacity flags atomic =
     \<lparr>ring = rb_new rb capacity, w_shutdown = False, r_shutdown = False, w_strong = 1, r_strong = 1,
      w_status = flags OR WRONLY, r_status = flags OR RDONLY,
      atomic_slice_guarantee_size = (case atomic of None \<Rightarrow> 0 | Some n \<Rightarrow> n),
      w_notified = [], r_notified = []\<rparr>"

definition reader_gone :: "'r pipe \<Rightarrow> bool" where
  "reader_gone p \<longleftrightarrow> (if r_strong p > 0 then r_shutdown p else True)"

definition writer_gone :: "'r pipe \<Rightarrow> bool" where
  "writer_gone p \<longleftrightarrow> (if w_strong p > 0 then w_shutdown p else True)"

text \<open>Telling the peer's observers, when the peer still exists.\<close>

definition notify_reader :: "u32 \<Rightarrow> 'r pipe \<Rightarrow> 'r pipe" where
  "notify_reader ev p = (if r_strong p > 0 then p\<lparr>r_notified := r_notified p @ [ev]\<rparr> else p)"

definition notify_writer :: "u32 \<Rightarrow> 'r pipe \<Rightarrow> 'r pipe" where
  "notify_writer ev p = (if w_strong p > 0 then p\<lparr>w_notified := w_notified p @ [ev]\<rparr> else p)"

definition try_write :: "('r, 't) ringbuf \<Rightarrow> 't list \<Rightarrow> 'r pipe \<Rightarrow> (pipe_error try_op_error + nat) \<times> 'r pipe" where
  "try_write rb buf p =
     (if w_shutdown p then (Inl (Other ThisEndShutdown), p)
      else if reader_gone p then (Inl (Other PeerShutdown), p)
      else if buf = [] then (Inr 0, p)
      else
        let total_size = length buf;
            (write_len, ring') =
              (if vacant_len rb (ring p) < total_size \<and> total_size \<le> atomic_slice_guarantee_size p
               then (0, ring p)
               else push_slice rb buf (ring p));
            p' = p\<lparr>ring := ring'\<rparr>
        in if write_len > 0 then (Inr write_len, notify_reader EV_IN p') else (Inl TryAgain, p'))"

text \<open>
  \<open>gap\<close> is what others do between the first look into the buffer and the test whether the writer is
  gone.
\<close>

definition try_read ::
    "('r, 't) ringbuf \<Rightarrow> ('r pipe \<Rightarrow> 'r pipe) \<Rightarrow> nat \<Rightarrow> 'r pipe \<Rightarrow>
     (pipe_error try_op_error + 't list) \<times> 'r pipe" where
  "try_read rb gap n p =
     (if r_shutdown p then (Inl (Other ThisEndShutdown), p)
      else if n = 0 then (Inr [], p)
      else
        let (xs, ring') = pop_slice rb n (ring p); p' = p\<lparr>ring := ring'\<rparr>
        in if xs \<noteq> [] then (Inr xs, notify_writer EV_OUT p')
           else
             let p2 = gap p'
             in if writer_gone p2
                then (let (ys, ring2) = pop_slice rb n (ring p2) in (Inr ys, p2\<lparr>ring := ring2\<rparr>))
                else (Inl TryAgain, p2))"

definition peek :: "('r, 't) ringbuf \<Rightarrow> nat \<Rightarrow> 'r pipe \<Rightarrow> 't list" where
  "peek rb n p = (if n = 0 then [] else peek_slice rb n (ring p))"

definition write_end_write ::
    "('r, 't) ringbuf \<Rightarrow> ('r pipe \<Rightarrow> 'r pipe) \<Rightarrow> 'r pipe wake list \<Rightarrow> 't list \<Rightarrow> 'r pipe \<Rightarrow>
     ((pipe_error + nat) \<times> 'r pipe) option" where
  "write_end_write rb gap ws buf p =
     map_option (\<lambda>(ret, p'). (case ret of Inl e \<Rightarrow> Inl (pipe_error_of e) | Inr k \<Rightarrow> Inr k, p'))
       (pollee_wait (contains (get_status (w_status p)) O_NONBLOCK) gap (try_write rb buf) ws p)"


definition write_end_check_io_events :: "('r, 't) ringbuf \<Rightarrow> 'r pipe \<Rightarrow> u32" where
  "write_end_check_io_events rb p =
     (let events = (if reader_gone p then EV_ERR else 0)
      in if \<not> w_shutdown p \<and> \<not> is_full rb (ring p) then events OR EV_OUT else events)"

definition read_end_check_io_events :: "('r, 't) ringbuf \<Rightarrow> 'r pipe \<Rightarrow> u32" where
  "read_end_check_io_events rb p =
     (let peer_shutdown = writer_gone p; events = (if peer_shutdown then EV_HUP else 0)
      in if \<not> r_shutdown p \<and> (\<not> is_empty rb (ring p) \<or> peer_shutdown) then events OR EV_IN else events)"

text \<open>Cloning and dropping a reference to an end; the last drop shuts the end down and tells the peer.\<close>

definition clone_writer :: "'r pipe \<Rightarrow> 'r pipe" where
  "clone_writer p = p\<lparr>w_strong := w_strong p + 1\<rparr>"

definition clone_reader :: "'r pipe \<Rightarrow> 'r pipe" where
  "clone_reader p = p\<lparr>r_strong := r_strong p + 1\<rparr>"

definition drop_writer :: "'r pipe \<Rightarrow> 'r pipe" where
  "drop_writer p =
     (let p' = p\<lparr>w_strong := w_strong p - 1\<rparr>
      in if w_strong p = 1 then notify_reader EV_HUP (p'\<lparr>w_shutdown := True\<rparr>) else p')"

definition drop_reader :: "'r pipe \<Rightarrow> 'r pipe" where
  "drop_reader p =
     (let p' = p\<lparr>r_strong := r_strong p - 1\<rparr>
      in if r_strong p = 1 then notify_writer EV_ERR (p'\<lparr>r_shutdown := True\<rparr>) else p')"

section \<open>Sequences of operations\<close>

text \<open>What an operation puts into the pipe, what it takes out, and the pipe after it.\<close>

datatype 't pipe_op = WriteOp "'t list" | ReadOp nat | PeekOp nat | CloneWriter | CloneReader | DropWriter | DropReader

definition pipe_step :: "('r, 't) ringbuf \<Rightarrow> 't pipe_op \<Rightarrow> 'r pipe \<Rightarrow> 't list \<times> 't list \<times> 'r pipe" where
  "pipe_step rb op p =
     (case op of
        WriteOp buf \<Rightarrow> (case try_write rb buf p of (Inr k, p') \<Rightarrow> (take k buf, [], p') | (Inl _, p') \<Rightarrow> ([], [], p'))
      | ReadOp n \<Rightarrow> (case try_read rb (\<lambda>p. p) n p of (Inr xs, p') \<Rightarrow> ([], xs, p') | (Inl _, p') \<Rightarrow> ([], [], p'))
      | PeekOp n \<Rightarrow> ([], [], p)
      | CloneWriter \<Rightarrow> ([], [], clone_writer p)
      | CloneReader \<Rightarrow> ([], [], clone_reader p)
      | DropWriter \<Rightarrow> ([], [], drop_writer p)
      | DropReader \<Rightarrow> ([], [], drop_reader p))"

primrec pipe_run :: "('r, 't) ringbuf \<Rightarrow> 't pipe_op list \<Rightarrow> 'r pipe \<Rightarrow> 't list \<times> 't list \<times> 'r pipe" where
  "pipe_run rb [] p = ([], [], p)"
| "pipe_run rb (op # ops) p =
     (let (w, r, p1) = pipe_step rb op p; (w', r', p2) = pipe_run rb ops p1 in (w @ w', r @ r', p2))"

section \<open>Facts\<close>

lemma ring_new: "ring_laws rb q cap \<Longrightarrow> 0 < n \<Longrightarrow> q (rb_new rb n) = [] \<and> cap (rb_new rb n) = n"
  by (simp add: ring_laws_def)

lemma ring_state:
  assumes "ring_laws rb q cap"
  shows "length (q r) \<le> cap r" "vacant_len rb r = cap r - length (q r)" "occupied_len rb r = length (q r)"
    "is_full rb r \<longleftrightarrow> length (q r) = cap r" "is_empty rb r \<longleftrightarrow> q r = []" "peek_slice rb n r = take n (q r)"
  using assms by (simp_all add: ring_laws_def)

lemma ring_push:
  assumes "ring_laws rb q cap"
  obtains r' where "push_slice rb xs r = (min (length xs) (cap r - length (q r)), r')"
    "q r' = q r @ take (cap r - length (q r)) xs" "cap r' = cap r"
    "min (length xs) (cap r - length (q r)) = 0 \<Longrightarrow> r' = r"
proof -
  obtain k r' where push: "push_slice rb xs r = (k, r')" by fastforce
  then have "k = min (length xs) (cap r - length (q r)) \<and> q r' = q r @ take k xs \<and> cap r' = cap r \<and> (k = 0 \<longrightarrow> r' = r)"
    using assms unfolding ring_laws_def by blast
  then show ?thesis using that push by (auto simp: min_def)
qed

lemma ring_pop:
  assumes "ring_laws rb q cap"
  obtains r' where "pop_slice rb n r = (take n (q r), r')" "q r' = drop n (q r)" "cap r' = cap r"
    "take n (q r) = [] \<Longrightarrow> r' = r"
proof -
  obtain xs r' where pop: "pop_slice rb n r = (xs, r')" by fastforce
  then have "xs = take n (q r) \<and> q r' = drop n (q r) \<and> cap r' = cap r \<and> (xs = [] \<longrightarrow> r' = r)"
    using assms unfolding ring_laws_def by blast
  then show ?thesis using that pop by auto
qed

lemma notify_simps [simp]:
  "ring (notify_reader ev p) = ring p" "ring (notify_writer ev p) = ring p"
  "w_strong (notify_reader ev p) = w_strong p" "r_strong (notify_reader ev p) = r_strong p"
  "w_strong (notify_writer ev p) = w_strong p" "r_strong (notify_writer ev p) = r_strong p"
  "w_shutdown (notify_reader ev p) = w_shutdown p" "r_shutdown (notify_reader ev p) = r_shutdown p"
  "w_shutdown (notify_writer ev p) = w_shutdown p" "r_shutdown (notify_writer ev p) = r_shutdown p"
  by (simp_all add: notify_reader_def notify_writer_def)

text \<open>The outcome of an attempt to write, by cases.\<close>

lemma try_write_cases:
  assumes "ring_laws rb q cap"
  obtains (error) e where "try_write rb buf p = (Inl (Other e), p)" "w_shutdown p \<or> reader_gone p"
  | (nothing) "try_write rb buf p = (Inr 0, p)" "buf = []" "\<not> w_shutdown p" "\<not> reader_gone p"
  | (refused) "try_write rb buf p = (Inl TryAgain, p)" "buf \<noteq> []" "\<not> w_shutdown p" "\<not> reader_gone p"
      "cap (ring p) - length (q (ring p)) < length buf"
      "length buf \<le> atomic_slice_guarantee_size p \<or> length (q (ring p)) = cap (ring p)"
  | (written) k r' where "try_write rb buf p = (Inr k, notify_reader EV_IN (p\<lparr>ring := r'\<rparr>))" "0 < k" "buf \<noteq> []"
      "\<not> w_shutdown p" "\<not> reader_gone p" "k = min (length buf) (cap (ring p) - length (q (ring p)))"
      "q r' = q (ring p) @ take k buf" "cap r' = cap (ring p)"
      "length buf \<le> atomic_slice_guarantee_size p \<Longrightarrow> k = length buf"
proof -
  note ring = ring_state [OF assms, where r = "ring p"]
  obtain r' where r': "push_slice rb buf (ring p) = (min (length buf) (cap (ring p) - length (q (ring p))), r')"
    "q r' = q (ring p) @ take (cap (ring p) - length (q (ring p))) buf" "cap r' = cap (ring p)"
    "min (length buf) (cap (ring p) - length (q (ring p))) = 0 \<Longrightarrow> r' = ring p"
    using ring_push [OF assms] by blast
  show ?thesis
  proof (cases "w_shutdown p \<or> reader_gone p \<or> buf = []")
    case True
    then consider "w_shutdown p" | "\<not> w_shutdown p" "reader_gone p" | "\<not> w_shutdown p" "\<not> reader_gone p" "buf = []"
      by blast
    then show ?thesis
    proof cases
      case 1
      then show ?thesis by (intro error [of ThisEndShutdown]) (simp_all add: try_write_def)
    next
      case 2
      then show ?thesis by (intro error [of PeerShutdown]) (simp_all add: try_write_def)
    next
      case 3
      show ?thesis by (rule nothing) (use 3 in \<open>simp_all add: try_write_def\<close>)
    qed
  next
    case open': False
    show ?thesis
    proof (cases "cap (ring p) - length (q (ring p)) < length buf \<and>
        (length buf \<le> atomic_slice_guarantee_size p \<or> length (q (ring p)) = cap (ring p))")
      case True
      with open' r' ring show ?thesis by (intro refused) (auto simp: try_write_def Let_def)
    next
      case False
      with open' r' ring show ?thesis
        by (intro written [of "min (length buf) (cap (ring p) - length (q (ring p)))" r'])
          (auto simp: try_write_def Let_def min_def)
    qed
  qed
qed

text \<open>The outcome of an attempt to read that is not disturbed.\<close>

lemma try_read_eq:
  assumes "ring_laws rb q cap"
  obtains r' where "q r' = drop n (q (ring p))" "cap r' = cap (ring p)"
    "try_read rb (\<lambda>p. p) n p =
      (if r_shutdown p then (Inl (Other ThisEndShutdown), p)
       else if n = 0 then (Inr [], p)
       else if q (ring p) \<noteq> [] then (Inr (take n (q (ring p))), notify_writer EV_OUT (p\<lparr>ring := r'\<rparr>))
       else if writer_gone p then (Inr [], p) else (Inl TryAgain, p))"
proof -
  obtain r' where r': "pop_slice rb n (ring p) = (take n (q (ring p)), r')" "q r' = drop n (q (ring p))"
    "cap r' = cap (ring p)" "take n (q (ring p)) = [] \<Longrightarrow> r' = ring p"
    using ring_pop [OF assms] by blast
  then show ?thesis
    by (intro that [of r']) (auto simp: try_read_def Let_def)
qed

lemma try_write_blocking:
  assumes "ring_laws rb q cap"
  shows "blocking_op (try_write rb buf)"
proof
  fix p p' assume again: "try_write rb buf p = (Inl TryAgain, p')"
  show "p' = p" by (rule try_write_cases [OF assms, of buf p]) (use again in simp_all)
next
  fix p e p' show "try_write rb buf p \<noteq> (Inl (WaitError e), p')"
    by (rule try_write_cases [OF assms, of buf p]) simp_all
qed


lemma pipe_step_fifo:
  assumes "ring_laws rb q cap" and "pipe_step rb op p = (w, r, p')"
  shows "q (ring p) @ w = r @ q (ring p') \<and> cap (ring p') = cap (ring p)"
proof (cases op)
  case (WriteOp buf)
  with assms(2) have step: "pipe_step rb (WriteOp buf) p = (w, r, p')" by simp
  show ?thesis
    by (rule try_write_cases [OF assms(1), of buf p]) (use step in \<open>auto simp: pipe_step_def\<close>)
next
  case (ReadOp n)
  with assms(2) have step: "pipe_step rb (ReadOp n) p = (w, r, p')" by simp
  show ?thesis
    by (rule try_read_eq [OF assms(1), of n p]) (use step in \<open>auto simp: pipe_step_def split: if_splits\<close>)
qed (use assms(2) in \<open>auto simp: pipe_step_def clone_writer_def clone_reader_def drop_writer_def drop_reader_def Let_def\<close>)

lemma pipe_run_fifo:
  assumes "ring_laws rb q cap"
  shows "pipe_run rb ops p = (w, r, p') \<Longrightarrow> q (ring p) @ w = r @ q (ring p') \<and> cap (ring p') = cap (ring p)"
proof (induction ops arbitrary: p w r)
  case (Cons op ops)
  obtain w1 r1 p1 where step: "pipe_step rb op p = (w1, r1, p1)" by (metis prod_cases3)
  obtain w2 r2 p2 where run: "pipe_run rb ops p1 = (w2, r2, p2)" by (metis prod_cases3)
  from Cons.prems have "w = w1 @ w2" "r = r1 @ r2" "p' = p2" by (auto simp: step run)
  with pipe_step_fifo [OF assms step] Cons.IH [of p1 w2 r2] run show ?case by (metis append_assoc)
qed simp

lemma try_read_gap:
  assumes laws: "ring_laws rb q cap" and "\<not> r_shutdown p" and "0 < n"
  shows "(q (ring p) \<noteq> [] \<and> try_read rb gap n p = try_read rb (\<lambda>p. p) n p) \<or>
    (q (ring p) = [] \<and> writer_gone (gap p) \<and>
      (\<exists>p'. try_read rb gap n p = (Inr (take n (q (ring (gap p)))), p') \<and>
        q (ring p') = drop n (q (ring (gap p))) \<and> writer_gone p')) \<or>
    (q (ring p) = [] \<and> \<not> writer_gone (gap p) \<and> try_read rb gap n p = (Inl TryAgain, gap p))"
proof -
  obtain r' where r': "pop_slice rb n (ring p) = (take n (q (ring p)), r')" "take n (q (ring p)) = [] \<Longrightarrow> r' = ring p"
    using ring_pop [OF laws, of n "ring p"] by blast
  obtain r2 where r2: "pop_slice rb n (ring (gap p)) = (take n (q (ring (gap p))), r2)" "q r2 = drop n (q (ring (gap p)))"
    using ring_pop [OF laws, of n "ring (gap p)"] by blast
  have "writer_gone (s\<lparr>ring := x\<rparr>) = writer_gone s" for s :: "'a pipe" and x by (simp add: writer_gone_def)
  then show ?thesis using r' r2 assms(2,3) by (auto simp: try_read_def Let_def)
qed

lemma read_in_bit:
  assumes "ring_laws rb q cap"
  shows "contains (read_end_check_io_events rb p) EV_IN \<longleftrightarrow> \<not> r_shutdown p \<and> (q (ring p) \<noteq> [] \<or> writer_gone p)"
    and "contains (read_end_check_io_events rb p) EV_HUP \<longleftrightarrow> writer_gone p"
  using ring_state(5) [OF assms, where r = "ring p"]
  unfolding read_end_check_io_events_def Let_def contains_def event_defs by auto

lemma write_out_bit:
  assumes "ring_laws rb q cap"
  shows "contains (write_end_check_io_events rb p) EV_OUT \<longleftrightarrow> \<not> w_shutdown p \<and> length (q (ring p)) \<noteq> cap (ring p)"
    and "contains (write_end_check_io_events rb p) EV_ERR \<longleftrightarrow> reader_gone p"
  using ring_state(4) [OF assms, where r = "ring p"]
  unfolding write_end_check_io_events_def Let_def contains_def event_defs by auto

text \<open>A ring buffer that keeps its laws: a list with its capacity.\<close>

definition list_ring :: "(nat \<times> 't list, 't) ringbuf" where
  "list_ring =
     \<lparr>rb_new = (\<lambda>n. (n, [])),
      vacant_len = (\<lambda>(c, xs). c - length (take c xs)),
      occupied_len = (\<lambda>(c, xs). length (take c xs)),
      is_full = (\<lambda>(c, xs). length (take c xs) = c),
      is_empty = (\<lambda>(c, xs). take c xs = []),
      push_slice = (\<lambda>ys (c, xs). let k = min (length ys) (c - length (take c xs)) in
        (k, c, if k = 0 then xs else take c xs @ take k ys)),
      pop_slice = (\<lambda>n (c, xs). let ys = take n (take c xs) in (ys, c, if ys = [] then xs else drop n (take c xs))),
      peek_slice = (\<lambda>n (c, xs). take n (take c xs))\<rparr>"

abbreviation list_queue :: "nat \<times> 't list \<Rightarrow> 't list" where
  "list_queue r \<equiv> take (fst r) (snd r)"

lemma list_ring_laws: "ring_laws list_ring list_queue fst"
  unfolding ring_laws_def list_ring_def
  by (auto simp: Let_def case_prod_unfold split: if_splits) (auto simp: min_def split: if_splits)

section \<open>Properties\<close>

text \<open>C10: A pipe is a queue: over any sequence of writes, reads, peeks and reference changes, what
  the writes accepted is, in order, what the reads returned followed by what is still in the pipe,
  and never more than the capacity is queued.\<close>

theorem pipe_fifo:
  assumes "ring_laws rb q cap" and "0 < capacity"
  shows "\<exists>w r p'. pipe_run rb ops (new_pipe rb capacity flags atomic) = (w, r, p') \<and>
    w = r @ q (ring p') \<and> length (q (ring p')) \<le> capacity"
proof -
  obtain w r p' where run: "pipe_run rb ops (new_pipe rb capacity flags atomic) = (w, r, p')" by (metis prod_cases3)
  have "q (ring (new_pipe rb capacity flags atomic)) = []" "cap (ring (new_pipe rb capacity flags atomic)) = capacity"
    using ring_new [OF assms] by (simp_all add: new_pipe_def)
  with pipe_run_fifo [OF assms(1) run] ring_state(1) [OF assms(1), where r = "ring p'"] run show ?thesis by auto
qed

theorem pipe_fifo_witness:
  "\<exists>w r p'. pipe_run list_ring [WriteOp ''ab'', ReadOp 1, WriteOp ''cde'', DropWriter, ReadOp 9]
        (new_pipe list_ring 3 0 None) = (w, r, p') \<and>
      w = r @ list_queue (ring p') \<and> length (list_queue (ring p')) \<le> 3"
  using pipe_fifo [OF list_ring_laws, of 3 "[WriteOp ''ab'', ReadOp 1, WriteOp ''cde'', DropWriter, ReadOp 9]" 0 None]
  by simp

text \<open>C28: What a write does, on every branch: errors when an end is gone; otherwise everything when
  it fits; when it does not fit, nothing if it is short enough to be atomic (or nothing fits), and as
  much as fits if it is longer. The queue grows by exactly the elements reported.\<close>

theorem pipe_write_outcomes:
  assumes "ring_laws rb q cap"
  shows "let room = cap (ring p) - length (q (ring p));
             res = (if w_shutdown p then Inl (Other ThisEndShutdown)
                    else if reader_gone p then Inl (Other PeerShutdown)
                    else if length buf \<le> room then Inr (length buf)
                    else if length buf \<le> atomic_slice_guarantee_size p \<or> room = 0 then Inl TryAgain
                    else Inr room) in
    \<exists>p'. try_write rb buf p = (res, p') \<and>
      q (ring p') = q (ring p) @ (case res of Inr k \<Rightarrow> take k buf | Inl _ \<Rightarrow> [])"
proof (rule try_write_cases [OF assms, of buf p])
  fix e assume "try_write rb buf p = (Inl (Other e), p)" and "w_shutdown p \<or> reader_gone p"
  then show ?thesis by (auto simp: try_write_def Let_def split: if_splits)
next
  assume "try_write rb buf p = (Inr 0, p)" and "buf = []" and "\<not> w_shutdown p" and "\<not> reader_gone p"
  then show ?thesis by (simp add: Let_def)
next
  assume "try_write rb buf p = (Inl TryAgain, p)" and "\<not> w_shutdown p" and "\<not> reader_gone p"
    and "cap (ring p) - length (q (ring p)) < length buf"
    and "length buf \<le> atomic_slice_guarantee_size p \<or> length (q (ring p)) = cap (ring p)"
  then show ?thesis by (auto simp: Let_def)
next
  fix k r' assume "try_write rb buf p = (Inr k, notify_reader EV_IN (p\<lparr>ring := r'\<rparr>))" and "0 < k"
    and "\<not> w_shutdown p" and "\<not> reader_gone p" and "k = min (length buf) (cap (ring p) - length (q (ring p)))"
    and "q r' = q (ring p) @ take k buf"
    and "length buf \<le> atomic_slice_guarantee_size p \<Longrightarrow> k = length buf"
  then show ?thesis by (auto simp: Let_def)
qed

theorem pipe_write_outcomes_witness:
  "\<exists>p'. try_write list_ring ''abcd'' (new_pipe list_ring 3 0 (Some 2)) = (Inr 3, p') \<and> list_queue (ring p') = ''abc''"
  using pipe_write_outcomes [OF list_ring_laws, of "new_pipe list_ring 3 0 (Some 2)" "''abcd''"]
  by (simp add: new_pipe_def reader_gone_def list_ring_def)

text \<open>C29: Whatever other threads do between a reader's look into the empty buffer and its test
  whether the writer has left, a read returns the front of the queue as it is at one moment, end of
  file is reported only when the writer has left and the queue is empty, and a reader is told to
  wait only while the writer is there.\<close>

theorem pipe_read_linearizes:
  assumes "ring_laws rb q cap" and "\<not> r_shutdown p" and "0 < n" and "try_read rb gap n p = (res, p')"
  shows "(case res of
      Inr xs \<Rightarrow> (\<exists>s \<in> {p, gap p}. xs = take n (q (ring s)) \<and> q (ring p') = drop n (q (ring s))) \<and>
        (xs = [] \<longrightarrow> writer_gone p' \<and> q (ring p') = [])
    | Inl e \<Rightarrow> e = TryAgain \<and> p' = gap p \<and> q (ring p) = [] \<and> \<not> writer_gone (gap p))"
proof -
  obtain r' where r': "q r' = drop n (q (ring p))"
    "try_read rb (\<lambda>p. p) n p =
      (if r_shutdown p then (Inl (Other ThisEndShutdown), p)
       else if n = 0 then (Inr [], p)
       else if q (ring p) \<noteq> [] then (Inr (take n (q (ring p))), notify_writer EV_OUT (p\<lparr>ring := r'\<rparr>))
       else if writer_gone p then (Inr [], p) else (Inl TryAgain, p))"
    using try_read_eq [OF assms(1), of n p] by blast
  from try_read_gap [OF assms(1-3), of gap] show ?thesis
  proof (elim disjE conjE exE)
    assume "q (ring p) \<noteq> []" and "try_read rb gap n p = try_read rb (\<lambda>p. p) n p"
    then show ?thesis using assms(2-4) r' by auto
  next
    fix p2 assume "try_read rb gap n p = (Inr (take n (q (ring (gap p)))), p2)"
      and "q (ring p2) = drop n (q (ring (gap p)))" and "writer_gone p2"
    then show ?thesis using assms(3,4) by auto
  qed (use assms(4) in auto)
qed

text \<open>The last bytes of a writer that leaves in between are not lost.\<close>

theorem pipe_read_linearizes_witness:
  "let p = new_pipe list_ring 3 0 None;
       gap = (\<lambda>p. drop_writer (snd (try_write list_ring ''x'' p))) in
   \<not> r_shutdown p \<and> fst (try_read list_ring gap 2 p) = Inr ''x'' \<and>
   (\<exists>s \<in> {p, gap p}. ''x'' = take 2 (list_queue (ring s)))"
proof -
  let ?p = "new_pipe list_ring 3 0 None :: (nat \<times> char list) pipe"
  let ?gap = "\<lambda>p. drop_writer (snd (try_write list_ring ''x'' p))"
  have open': "\<not> r_shutdown ?p" by (simp add: new_pipe_def)
  have run: "fst (try_read list_ring ?gap 2 ?p) = Inr ''x''"
    by (simp add: try_read_def new_pipe_def list_ring_def try_write_def reader_gone_def drop_writer_def
        notify_reader_def notify_writer_def writer_gone_def Let_def)
  then obtain p' where "try_read list_ring ?gap 2 ?p = (Inr ''x'', p')" by (metis prod.collapse)
  from pipe_read_linearizes [OF list_ring_laws open' zero_less_numeral this] run open'
  show ?thesis unfolding Let_def sum.case by blast
qed

text \<open>The poll flags of both ends are exact: the read end polls readable exactly when a read would
  not be told to wait, and reports a hang-up exactly when the writer is gone; the write end polls
  writable without error exactly when one more element can be written.\<close>

theorem pipe_readiness_exact:
  assumes "ring_laws rb q cap" and "\<not> r_shutdown p" and "0 < n"
  shows "(contains (read_end_check_io_events rb p) EV_IN \<longleftrightarrow>
      fst (try_read rb (\<lambda>p. p) n p) \<noteq> Inl TryAgain) \<and>
    (contains (read_end_check_io_events rb p) EV_HUP \<longleftrightarrow> writer_gone p) \<and>
    (contains (write_end_check_io_events rb p) EV_OUT \<and> \<not> contains (write_end_check_io_events rb p) EV_ERR \<longleftrightarrow>
      fst (try_write rb [x] p) = Inr 1)"
proof (intro conjI)
  show "contains (read_end_check_io_events rb p) EV_IN \<longleftrightarrow> fst (try_read rb (\<lambda>p. p) n p) \<noteq> Inl TryAgain"
    unfolding read_in_bit(1) [OF assms(1)]
    by (rule try_read_eq [OF assms(1), of n p]) (use assms(2,3) in auto)
  show "contains (read_end_check_io_events rb p) EV_HUP \<longleftrightarrow> writer_gone p"
    by (rule read_in_bit(2) [OF assms(1)])
  show "contains (write_end_check_io_events rb p) EV_OUT \<and> \<not> contains (write_end_check_io_events rb p) EV_ERR \<longleftrightarrow>
      fst (try_write rb [x] p) = Inr 1"
    unfolding write_out_bit [OF assms(1)]
    by (rule try_write_cases [OF assms(1), of "[x]" p])
      (use ring_state(1) [OF assms(1), where r = "ring p"] in auto)
qed

theorem pipe_readiness_exact_witness:
  "let rb = list_ring :: (nat \<times> char list, char) ringbuf; p = drop_writer (new_pipe rb 3 0 None) in
   \<not> r_shutdown p \<and> contains (read_end_check_io_events rb p) EV_IN \<and>
   fst (try_read rb (\<lambda>p. p) 2 p) \<noteq> Inl TryAgain"
proof -
  define p where "p = drop_writer (new_pipe (list_ring :: (nat \<times> char list, char) ringbuf) 3 0 None)"
  have p: "\<not> r_shutdown p" "writer_gone p"
    by (simp_all add: p_def drop_writer_def new_pipe_def writer_gone_def notify_reader_def Let_def)
  from pipe_readiness_exact [OF list_ring_laws this(1), of 2 "CHR ''x''"] p show ?thesis
    unfolding Let_def p_def [symmetric] using read_in_bit(1) [OF list_ring_laws, of p] by simp
qed



end
