(* ===== verification/PipeTable.thy ===== *)
theory PipeTable
  imports Pipe DescriptorTable
begin

text \<open>
  The pipe subsystem of \<^verbatim>\<open>litebox/src/pipes.rs\<close> (\<open>Pipes\<close>, \<open>DetachedPipeEnd\<close>): pipes reached
  through the descriptor table. The table holds the entries of the subsystem with type \<open>ty\<close>; an entry
  is a reference to one end, and the pipes are cells of a heap. A reference taken by a detached
  handle or by a call in progress is counted beside the table. The lemmas relate the reference
  counts of the ends to the descriptors and handles: an end is shut exactly when none is left.
\<close>

section \<open>The subsystem\<close>

datatype pipe_end = Receiver nat | Sender nat

datatype half_type = SenderHalf | ReceiverHalf

record ('r, 'm) pipes_world =
  table :: "(pipe_end, 'm) descriptors"
  pipes :: "nat \<Rightarrow> 'r pipe"
  next_pipe :: nat

text \<open>The flags of the subsystem and their conversion to and from open flags.\<close>

definition NON_BLOCKING :: u32 where "NON_BLOCKING = 1"

definition from_oflags_truncate :: "u32 \<Rightarrow> u32" where
  "from_oflags_truncate oflags = set_flag NON_BLOCKING (contains oflags O_NONBLOCK) 0"

definition oflags_of :: "u32 \<Rightarrow> u32" where
  "oflags_of flags = set_flag O_NONBLOCK (contains flags NON_BLOCKING) 0"

definition pipe_of :: "pipe_end \<Rightarrow> nat" where
  "pipe_of e = (case e of Receiver a \<Rightarrow> a | Sender a \<Rightarrow> a)"

definition update_pipe :: "nat \<Rightarrow> ('r pipe \<Rightarrow> 'r pipe) \<Rightarrow> ('r, 'm) pipes_world \<Rightarrow> ('r, 'm) pipes_world" where
  "update_pipe a f w = w\<lparr>pipes := (pipes w)(a := f (pipes w a))\<rparr>"

definition clone_end :: "pipe_end \<Rightarrow> ('r, 'm) pipes_world \<Rightarrow> ('r, 'm) pipes_world" where
  "clone_end e w = (case e of Receiver a \<Rightarrow> update_pipe a clone_reader w | Sender a \<Rightarrow> update_pipe a clone_writer w)"

definition drop_end :: "pipe_end \<Rightarrow> ('r, 'm) pipes_world \<Rightarrow> ('r, 'm) pipes_world" where
  "drop_end e w = (case e of Receiver a \<Rightarrow> update_pipe a drop_reader w | Sender a \<Rightarrow> update_pipe a drop_writer w)"

definition create_pipe ::
    "('r, 't) ringbuf \<Rightarrow> type_id \<Rightarrow> nat \<Rightarrow> u32 \<Rightarrow> nat option \<Rightarrow> ('r, 'm) pipes_world \<Rightarrow>
     ((typed_fd \<times> typed_fd) \<times> ('r, 'm) pipes_world) outcome" where
  "create_pipe rb ty capacity flags atomic w =
     (let p = new_pipe rb capacity (oflags_of flags) atomic; a = next_pipe w in
      obind (insert_fd ty (Sender a) (table w)) (\<lambda>(sender, t1).
      obind (insert_fd ty (Receiver a) t1) (\<lambda>(receiver, t2).
        Done ((sender, receiver), w\<lparr>table := t2, pipes := (pipes w)(a := p), next_pipe := a + 1\<rparr>))))"

definition pipes_close ::
    "typed_fd \<Rightarrow> ('r, 'm) pipes_world \<Rightarrow> (typed_fd \<times> ('r, 'm) pipes_world) outcome" where
  "pipes_close fd w =
     obind (remove_fd fd (table w)) (\<lambda>(removed, fd', t').
       let w' = w\<lparr>table := t'\<rparr> in
       Done (fd', case removed of None \<Rightarrow> w' | Some e \<Rightarrow> drop_end e w'))"

text \<open>An operation on one pipe, as an operation on the whole.\<close>

definition on_pipe ::
    "nat \<Rightarrow> ('r pipe \<Rightarrow> 'a \<times> 'r pipe) \<Rightarrow> ('r, 'm) pipes_world \<Rightarrow> 'a \<times> ('r, 'm) pipes_world" where
  "on_pipe a op w = (let (res, p') = op (pipes w a) in (res, w\<lparr>pipes := (pipes w)(a := p')\<rparr>))"

definition end_read ::
    "('r, 't) ringbuf \<Rightarrow> (('r, 'm) pipes_world \<Rightarrow> ('r, 'm) pipes_world) \<Rightarrow> ('r, 'm) pipes_world wake list \<Rightarrow>
     pipe_end \<Rightarrow> nat \<Rightarrow> ('r, 'm) pipes_world \<Rightarrow>
     ((read_error + 't list) \<times> ('r, 'm) pipes_world) option outcome" where
  "end_read rb gap ws e n w =
     (case e of
        Sender _ \<Rightarrow> Done (Some (Inl NotForReading, w))
      | Receiver a \<Rightarrow>
          (case pollee_wait (contains (get_status (r_status (pipes w a))) O_NONBLOCK) gap
                  (on_pipe a (try_read rb (\<lambda>p. p) n)) ws w of
             None \<Rightarrow> Done None
           | Some (Inr xs, w') \<Rightarrow> Done (Some (Inr xs, w'))
           | Some (Inl err, w') \<Rightarrow> obind (read_error_of (pipe_error_of err)) (\<lambda>err'. Done (Some (Inl err', w')))))"

definition end_write ::
    "('r, 't) ringbuf \<Rightarrow> (('r, 'm) pipes_world \<Rightarrow> ('r, 'm) pipes_world) \<Rightarrow> ('r, 'm) pipes_world wake list \<Rightarrow>
     pipe_end \<Rightarrow> 't list \<Rightarrow> ('r, 'm) pipes_world \<Rightarrow>
     ((write_error + nat) \<times> ('r, 'm) pipes_world) option" where
  "end_write rb gap ws e buf w =
     (case e of
        Receiver _ \<Rightarrow> Some (Inl NotForWriting, w)
      | Sender a \<Rightarrow>
          map_option (\<lambda>(ret, w'). (case ret of Inl err \<Rightarrow> Inl (write_error_of (pipe_error_of err)) | Inr k \<Rightarrow> Inr k, w'))
            (pollee_wait (contains (get_status (w_status (pipes w a))) O_NONBLOCK) gap
               (on_pipe a (try_write rb buf)) ws w))"

text \<open>A call through a descriptor holds its own reference to the end while it runs.\<close>

definition pipes_read ::
    "('r, 't) ringbuf \<Rightarrow> (('r, 'm) pipes_world \<Rightarrow> ('r, 'm) pipes_world) \<Rightarrow> ('r, 'm) pipes_world wake list \<Rightarrow>
     typed_fd \<Rightarrow> nat \<Rightarrow> ('r, 'm) pipes_world \<Rightarrow>
     ((read_error + 't list) \<times> ('r, 'm) pipes_world) option outcome" where
  "pipes_read rb gap ws fd n w =
     obind (get_entry fd (table w)) (\<lambda>ent.
       case ent of
         None \<Rightarrow> Done (Some (Inl ReadClosedFd, w))
       | Some (Sender _) \<Rightarrow> Done (Some (Inl NotForReading, w))
       | Some (Receiver a) \<Rightarrow>
           obind (end_read rb gap ws (Receiver a) n (clone_end (Receiver a) w)) (\<lambda>res.
             Done (map_option (\<lambda>(ret, w'). (ret, drop_end (Receiver a) w')) res)))"

definition pipes_write ::
    "('r, 't) ringbuf \<Rightarrow> (('r, 'm) pipes_world \<Rightarrow> ('r, 'm) pipes_world) \<Rightarrow> ('r, 'm) pipes_world wake list \<Rightarrow>
     typed_fd \<Rightarrow> 't list \<Rightarrow> ('r, 'm) pipes_world \<Rightarrow>
     ((write_error + nat) \<times> ('r, 'm) pipes_world) option outcome" where
  "pipes_write rb gap ws fd buf w =
     obind (get_entry fd (table w)) (\<lambda>ent.
       case ent of
         None \<Rightarrow> Done (Some (Inl WriteClosedFd, w))
       | Some (Receiver _) \<Rightarrow> Done (Some (Inl NotForWriting, w))
       | Some (Sender a) \<Rightarrow>
           Done (map_option (\<lambda>(ret, w'). (ret, drop_end (Sender a) w'))
             (end_write rb gap ws (Sender a) buf (clone_end (Sender a) w))))"

datatype closed_error = PipeClosedFd

text \<open>What the operations that only fail on a closed descriptor have in common.\<close>

definition on_entry :: "(pipe_end \<Rightarrow> 'a) \<Rightarrow> typed_fd \<Rightarrow> ('r, 'm) pipes_world \<Rightarrow> (closed_error + 'a) outcome" where
  "on_entry f fd w =
     obind (get_entry fd (table w)) (\<lambda>ent. Done (case ent of None \<Rightarrow> Inl PipeClosedFd | Some e \<Rightarrow> Inr (f e)))"

definition detach_end ::
    "typed_fd \<Rightarrow> ('r, 'm) pipes_world \<Rightarrow> ((closed_error + pipe_end) \<times> ('r, 'm) pipes_world) outcome" where
  "detach_end fd w =
     obind (on_entry (\<lambda>e. e) fd w) (\<lambda>res.
       case res of Inl err \<Rightarrow> Done (Inl err, w) | Inr e \<Rightarrow> Done (Inr e, clone_end e w))"

definition buffered_bytes :: "('r, 't) ringbuf \<Rightarrow> pipe_end \<Rightarrow> ('r, 'm) pipes_world \<Rightarrow> nat" where
  "buffered_bytes rb e w = (case e of Receiver a \<Rightarrow> occupied_len rb (ring (pipes w a)) | Sender _ \<Rightarrow> 0)"

definition readable_bytes ::
    "('r, 't) ringbuf \<Rightarrow> typed_fd \<Rightarrow> ('r, 'm) pipes_world \<Rightarrow> (closed_error + nat) outcome" where
  "readable_bytes rb fd w =
     on_entry (\<lambda>e. case e of Receiver a \<Rightarrow> occupied_len rb (ring (pipes w a)) | Sender _ \<Rightarrow> 0) fd w"

definition end_half_pipe_type :: "pipe_end \<Rightarrow> half_type" where
  "end_half_pipe_type e = (case e of Sender _ \<Rightarrow> SenderHalf | Receiver _ \<Rightarrow> ReceiverHalf)"

definition half_pipe_type :: "typed_fd \<Rightarrow> ('r, 'm) pipes_world \<Rightarrow> (closed_error + half_type) outcome" where
  "half_pipe_type fd w = on_entry end_half_pipe_type fd w"

definition get_flags :: "typed_fd \<Rightarrow> ('r, 'm) pipes_world \<Rightarrow> (closed_error + u32) outcome" where
  "get_flags fd w =
     on_entry (\<lambda>e. from_oflags_truncate (get_status (case e of
        Receiver a \<Rightarrow> r_status (pipes w a) | Sender a \<Rightarrow> w_status (pipes w a)))) fd w"

definition set_end_status :: "pipe_end \<Rightarrow> u32 \<Rightarrow> bool \<Rightarrow> ('r, 'm) pipes_world \<Rightarrow> ('r, 'm) pipes_world" where
  "set_end_status e om on w =
     (case e of
        Receiver a \<Rightarrow> update_pipe a (\<lambda>p. p\<lparr>r_status := set_status om on (r_status p)\<rparr>) w
      | Sender a \<Rightarrow> update_pipe a (\<lambda>p. p\<lparr>w_status := set_status om on (w_status p)\<rparr>) w)"

definition update_flags ::
    "typed_fd \<Rightarrow> u32 \<Rightarrow> bool \<Rightarrow> ('r, 'm) pipes_world \<Rightarrow> ((closed_error + unit) \<times> ('r, 'm) pipes_world) outcome" where
  "update_flags fd m on w =
     obind (on_entry (\<lambda>e. e) fd w) (\<lambda>res.
       case res of Inl err \<Rightarrow> Done (Inl err, w) | Inr e \<Rightarrow> Done (Inr (), set_end_status e (oflags_of m) on w))"

text \<open>\<open>with_iopollable\<close> hands out the end; what a caller asks of it is its readiness.\<close>

definition end_check_io_events :: "('r, 't) ringbuf \<Rightarrow> pipe_end \<Rightarrow> ('r, 'm) pipes_world \<Rightarrow> u32" where
  "end_check_io_events rb e w =
     (case e of
        Receiver a \<Rightarrow> read_end_check_io_events rb (pipes w a)
      | Sender a \<Rightarrow> write_end_check_io_events rb (pipes w a))"

definition with_iopollable :: "(pipe_end \<Rightarrow> 'a) \<Rightarrow> typed_fd \<Rightarrow> ('r, 'm) pipes_world \<Rightarrow> (closed_error + 'a) outcome" where
  "with_iopollable f fd w = on_entry f fd w"

section \<open>Detached ends\<close>

definition end_strong_count :: "pipe_end \<Rightarrow> ('r, 'm) pipes_world \<Rightarrow> nat" where
  "end_strong_count e w = (case e of Receiver a \<Rightarrow> r_strong (pipes w a) | Sender a \<Rightarrow> w_strong (pipes w a))"

definition peer_shutdown :: "pipe_end \<Rightarrow> ('r, 'm) pipes_world \<Rightarrow> bool" where
  "peer_shutdown e w = (case e of Receiver a \<Rightarrow> writer_gone (pipes w a) | Sender _ \<Rightarrow> False)"

definition at_eof :: "('r, 't) ringbuf \<Rightarrow> pipe_end \<Rightarrow> ('r, 'm) pipes_world \<Rightarrow> bool" where
  "at_eof rb e w =
     (case e of
        Receiver a \<Rightarrow> writer_gone (pipes w a) \<and> is_empty rb (ring (pipes w a))
      | Sender _ \<Rightarrow> False)"

definition end_peek :: "('r, 't) ringbuf \<Rightarrow> pipe_end \<Rightarrow> nat \<Rightarrow> ('r, 'm) pipes_world \<Rightarrow> 't list" where
  "end_peek rb e n w = (case e of Receiver a \<Rightarrow> peek rb n (pipes w a) | Sender _ \<Rightarrow> [])"

section \<open>Reachable states\<close>

text \<open>
  The states the calls lead to. \<open>k\<close> counts, per end, the references that detached handles and calls
  in progress hold; a call through a descriptor takes one, makes its attempts and drops it. An attempt
  needs a reference of the caller, and its outcome is irrelevant here.
\<close>

definition shutdown_of :: "pipe_end \<Rightarrow> ('r, 'm) pipes_world \<Rightarrow> bool" where
  "shutdown_of e w = (case e of Receiver a \<Rightarrow> r_shutdown (pipes w a) | Sender a \<Rightarrow> w_shutdown (pipes w a))"

inductive pipe_world :: "('r, 't) ringbuf \<Rightarrow> type_id \<Rightarrow> ('r, 'm) pipes_world \<Rightarrow> (pipe_end \<Rightarrow> nat) \<Rightarrow> bool"
  for rb :: "('r, 't) ringbuf" and ty :: type_id where
  pw_start: "table w = new_from_litebox_creation \<Longrightarrow> next_pipe w = 0 \<Longrightarrow> pipe_world rb ty w (\<lambda>_. 0)"
| pw_create: "pipe_world rb ty w k \<Longrightarrow> create_pipe rb ty capacity flags atomic w = Done (fds, w') \<Longrightarrow>
    pipe_world rb ty w' k"
| pw_dup: "pipe_world rb ty w k \<Longrightarrow> denotes (table w) fd \<noteq> None \<Longrightarrow> duplicate fd (table w) = Done (res, t') \<Longrightarrow>
    pipe_world rb ty (w\<lparr>table := t'\<rparr>) k"
| pw_close: "pipe_world rb ty w k \<Longrightarrow> subsystem fd = ty \<Longrightarrow> denotes (table w) fd \<noteq> None \<Longrightarrow>
    pipes_close fd w = Done (fd', w') \<Longrightarrow> pipe_world rb ty w' k"
| pw_detach: "pipe_world rb ty w k \<Longrightarrow> subsystem fd = ty \<Longrightarrow> detach_end fd w = Done (Inr e, w') \<Longrightarrow>
    pipe_world rb ty w' (k(e := k e + 1))"
| pw_release: "pipe_world rb ty w k \<Longrightarrow> 0 < k e \<Longrightarrow> pipe_world rb ty (drop_end e w) (k(e := k e - 1))"
| pw_read: "pipe_world rb ty w k \<Longrightarrow> 0 < k (Receiver a) \<Longrightarrow> on_pipe a (try_read rb (\<lambda>p. p) n) w = (res, w') \<Longrightarrow>
    pipe_world rb ty w' k"
| pw_write: "pipe_world rb ty w k \<Longrightarrow> 0 < k (Sender a) \<Longrightarrow> on_pipe a (try_write rb buf) w = (res', w') \<Longrightarrow>
    pipe_world rb ty w' k"
| pw_flags: "pipe_world rb ty w k \<Longrightarrow> pipe_world rb ty (set_end_status e om on w) k"

section \<open>Reference counts\<close>

lemma end_drop:
  "end_strong_count e (drop_end e' w) = (if e = e' then end_strong_count e w - 1 else end_strong_count e w)"
  "shutdown_of e (drop_end e' w) \<longleftrightarrow> shutdown_of e w \<or> (e = e' \<and> end_strong_count e w = 1)"
  "table (drop_end e' w) = table w" "next_pipe (drop_end e' w) = next_pipe w"
  by (auto simp: end_strong_count_def shutdown_of_def drop_end_def update_pipe_def drop_reader_def drop_writer_def Let_def
      split: pipe_end.split)

lemma end_clone:
  "end_strong_count e (clone_end e' w) = (if e = e' then end_strong_count e w + 1 else end_strong_count e w)"
  "shutdown_of e (clone_end e' w) \<longleftrightarrow> shutdown_of e w"
  "table (clone_end e' w) = table w" "next_pipe (clone_end e' w) = next_pipe w"
  by (auto simp: end_strong_count_def shutdown_of_def clone_end_def update_pipe_def clone_reader_def clone_writer_def
      split: pipe_end.split)

lemma end_set_status:
  "end_strong_count e (set_end_status e' m on w) = end_strong_count e w"
  "shutdown_of e (set_end_status e' m on w) = shutdown_of e w"
  "table (set_end_status e' m on w) = table w" "next_pipe (set_end_status e' m on w) = next_pipe w"
  by (auto simp: end_strong_count_def shutdown_of_def set_end_status_def update_pipe_def split: pipe_end.split)

lemma try_write_refs:
  "try_write rb buf p = (res, p') \<Longrightarrow>
   w_strong p' = w_strong p \<and> r_strong p' = r_strong p \<and> w_shutdown p' = w_shutdown p \<and> r_shutdown p' = r_shutdown p"
  by (auto simp: try_write_def Let_def split: if_splits prod.splits)

lemma try_read_refs:
  "try_read rb (\<lambda>p. p) n p = (res, p') \<Longrightarrow>
   w_strong p' = w_strong p \<and> r_strong p' = r_strong p \<and> w_shutdown p' = w_shutdown p \<and> r_shutdown p' = r_shutdown p"
  by (auto simp: try_read_def Let_def split: if_splits prod.splits)

lemma end_on_pipe:
  assumes "on_pipe a op w = (res, w')"
    and "\<And>p r p'. op p = (r, p') \<Longrightarrow>
      w_strong p' = w_strong p \<and> r_strong p' = r_strong p \<and> w_shutdown p' = w_shutdown p \<and> r_shutdown p' = r_shutdown p"
  shows "end_strong_count e w' = end_strong_count e w" "shutdown_of e w' = shutdown_of e w"
    "table w' = table w" "next_pipe w' = next_pipe w"
  using assms(1) assms(2) [of "pipes w a"]
  by (auto simp: on_pipe_def Let_def end_strong_count_def shutdown_of_def split: prod.splits pipe_end.split if_splits)

definition bound :: "type_id \<Rightarrow> (pipe_end, 'm) descriptors \<Rightarrow> pipe_end \<Rightarrow> bool" where
  "bound ty t e \<longleftrightarrow> (\<exists>j c. view t j = Some (c, Any ty e))"

definition ends_inv :: "type_id \<Rightarrow> ('r, 'm) pipes_world \<Rightarrow> (pipe_end \<Rightarrow> nat) \<Rightarrow> bool" where
  "ends_inv ty w k \<longleftrightarrow>
     table_inv (\<lambda>_. 0) (table w) \<and>
     (\<forall>e. bound ty (table w) e \<longrightarrow> pipe_of e < next_pipe w) \<and>
     (\<forall>i j c c' e. view (table w) i = Some (c, Any ty e) \<longrightarrow> view (table w) j = Some (c', Any ty e) \<longrightarrow> c = c') \<and>
     (\<forall>e. pipe_of e < next_pipe w \<longrightarrow>
        end_strong_count e w = (if bound ty (table w) e then 1 else 0) + k e \<and>
        (shutdown_of e w \<longleftrightarrow> end_strong_count e w = 0)) \<and>
     (\<forall>e. next_pipe w \<le> pipe_of e \<longrightarrow> k e = 0)"

lemma ends_invD:
  assumes "ends_inv ty w k"
  shows "table_inv (\<lambda>_. 0) (table w)" "bound ty (table w) e \<Longrightarrow> pipe_of e < next_pipe w"
    "view (table w) i = Some (c, Any ty e) \<Longrightarrow> view (table w) j = Some (c', Any ty e) \<Longrightarrow> c = c'"
    "pipe_of e < next_pipe w \<Longrightarrow> end_strong_count e w = (if bound ty (table w) e then 1 else 0) + k e"
    "pipe_of e < next_pipe w \<Longrightarrow> shutdown_of e w \<longleftrightarrow> end_strong_count e w = 0"
    "0 < k e \<Longrightarrow> pipe_of e < next_pipe w"
  using assms unfolding ends_inv_def by (blast, blast, blast, blast, blast, metis not_le_imp_less less_irrefl)

lemma ends_inv_same_table:
  assumes "ends_inv ty w k" and "table w' = table w" and "next_pipe w' = next_pipe w"
    and "\<And>e. pipe_of e < next_pipe w \<Longrightarrow> end_strong_count e w' + k e = end_strong_count e w + k' e"
    and "\<And>e. pipe_of e < next_pipe w \<Longrightarrow> shutdown_of e w' \<longleftrightarrow> end_strong_count e w' = 0"
    and "\<And>e. next_pipe w \<le> pipe_of e \<Longrightarrow> k' e = 0"
  shows "ends_inv ty w' k'"
  using assms unfolding ends_inv_def by (auto 0 3)

lemma view_same_cell: "view d i = Some (c, b) \<Longrightarrow> view d j = Some (c, b') \<Longrightarrow> b = b'"
  by (auto simp: view_Some)

lemma ends_inv_drop:
  assumes "ends_inv ty w k" and "0 < k e"
  shows "ends_inv ty (drop_end e w) (k(e := k e - 1))"
proof (rule ends_inv_same_table [OF assms(1) end_drop(3,4)])
  fix e' assume e': "pipe_of e' < next_pipe w"
  have "k e' \<le> end_strong_count e' w" using ends_invD(4) [OF assms(1) e'] by simp
  then show "end_strong_count e' (drop_end e w) + k e' = end_strong_count e' w + (k(e := k e - 1)) e'"
    using assms(2) by (cases "e' = e") (simp_all add: end_drop)
  show "shutdown_of e' (drop_end e w) \<longleftrightarrow> end_strong_count e' (drop_end e w) = 0"
    using ends_invD(5) [OF assms(1) e'] \<open>k e' \<le> end_strong_count e' w\<close> assms(2) by (auto simp: end_drop)
next
  fix e' assume "next_pipe w \<le> pipe_of e'"
  with assms show "(k(e := k e - 1)) e' = 0" by (auto simp: ends_inv_def)
qed

lemma ends_inv_detach:
  assumes inv: "ends_inv ty w k" and "subsystem fd = ty" and "detach_end fd w = Done (Inr e, w')"
  shows "ends_inv ty w' (k(e := k e + 1))"
proof -
  have ent: "get_entry fd (table w) = Done (map_option snd (denotes (table w) fd))"
    by (rule get_entry_spec [OF ends_invD(1) [OF inv]])
  with assms(3) obtain c where den: "denotes (table w) fd = Some (c, e)" and w': "w' = clone_end e w"
    by (cases "denotes (table w) fd") (auto simp: detach_end_def on_entry_def)
  then obtain b where "view (table w) (raw fd) = Some (c, b)" "any_type b = ty" "any_value b = e"
    using assms(2) by (auto simp: denotes_def split: option.splits if_splits)
  then have "bound ty (table w) e" unfolding bound_def by (metis any.collapse)
  then have e: "pipe_of e < next_pipe w" "0 < end_strong_count e w"
    using ends_invD(2,4) [OF inv] by auto
  show ?thesis
    unfolding w'
  proof (rule ends_inv_same_table [OF inv end_clone(3,4)])
    fix e' assume e': "pipe_of e' < next_pipe w"
    show "end_strong_count e' (clone_end e w) + k e' = end_strong_count e' w + (k(e := k e + 1)) e'"
      by (simp add: end_clone)
    show "shutdown_of e' (clone_end e w) \<longleftrightarrow> end_strong_count e' (clone_end e w) = 0"
      using ends_invD(5) [OF inv e'] e(2) by (auto simp: end_clone)
  next
    fix e' assume "next_pipe w \<le> pipe_of e'"
    with inv e(1) show "(k(e := k e + 1)) e' = 0" by (auto simp: ends_inv_def)
  qed
qed

lemma ends_inv_close:
  assumes inv: "ends_inv ty w k" and "subsystem fd = ty" and "denotes (table w) fd = Some (c, e)"
    and "pipes_close fd w = Done (fd', w')"
  shows "ends_inv ty w' k"
proof -
  have v: "view (table w) (raw fd) = Some (c, Any ty e)"
    using assms(2,3) by (auto simp: denotes_def split: option.splits if_splits) (metis any.collapse)
  define last where "last \<longleftrightarrow> (\<forall>j b. view (table w) j = Some (c, b) \<longrightarrow> j = raw fd)"
  obtain t' where t': "remove_fd fd (table w) = Done (if last then Some e else None, fd\<lparr>closed := True\<rparr>, t')"
    "table_inv (\<lambda>_. 0) t'" "view t' = (view (table w))(raw fd := None)"
    using remove_fd_last [OF ends_invD(1) [OF inv] assms(3)] unfolding last_def by auto
  have w': "w' = (if last then drop_end e (w\<lparr>table := t'\<rparr>) else w\<lparr>table := t'\<rparr>)"
    using assms(4) t'(1) by (auto simp: pipes_close_def)
  have bound': "bound ty t' x \<longleftrightarrow> bound ty (table w) x \<and> \<not> (last \<and> x = e)" for x
  proof (cases "x = e")
    case True
    have "bound ty t' e \<longleftrightarrow> (\<exists>j c'. j \<noteq> raw fd \<and> view (table w) j = Some (c', Any ty e))"
      by (auto simp: bound_def t'(3))
    also have "\<dots> \<longleftrightarrow> \<not> last"
      using ends_invD(3) [OF inv _ v] view_same_cell [OF v] v unfolding last_def by metis
    finally show ?thesis using True v by (auto simp: bound_def)
  next
    case False
    with v have "view t' j = Some (c', Any ty x) \<longleftrightarrow> view (table w) j = Some (c', Any ty x)" for j c'
      by (simp add: t'(3))
    with False show ?thesis by (simp add: bound_def)
  qed
  have count: "end_strong_count x (w\<lparr>table := t'\<rparr>) = end_strong_count x w" "shutdown_of x (w\<lparr>table := t'\<rparr>) = shutdown_of x w" for x
    by (auto simp: end_strong_count_def shutdown_of_def split: pipe_end.split)
  have "bound ty (table w) e" using v by (auto simp: bound_def)
  note strong = ends_invD(2,4,5) [OF inv]
  have nx: "next_pipe w' = next_pipe w" by (simp add: w' end_drop)
  show ?thesis
    unfolding ends_inv_def nx
  proof (intro conjI allI impI)
    fix x assume x: "pipe_of x < next_pipe w"
    then show "end_strong_count x w' = (if bound ty (table w') x then 1 else 0) + k x"
      using strong(2) [of x] \<open>bound ty (table w) e\<close> by (auto simp: w' end_drop count bound')
    from x show "shutdown_of x w' \<longleftrightarrow> end_strong_count x w' = 0"
      using strong(2,3) [of x] \<open>bound ty (table w) e\<close> by (auto simp: w' end_drop count)
  qed (use inv t'(2) strong(1) ends_invD(3) [OF inv] in
      \<open>auto simp: w' end_drop bound' t'(3) ends_inv_def split: if_splits\<close>)
qed

lemma owned_fd_new_room: "insert_fd sub e d = Done (fd, d') \<Longrightarrow> first_free (entries d) \<le> u32_max"
  by (auto simp: insert_fd_def free_slot_def arc_new_def Let_def obind_eq_Done owned_fd_new_def split: if_splits)

lemma insert_fd_view:
  assumes "table_inv h d" and "insert_fd sub e d = Done (fd, d')"
  shows "\<exists>i c. table_inv h d' \<and> view d' = (view d)(i \<mapsto> (c, Any sub e)) \<and> view d i = None"
  using insert_fd_spec [OF assms(1) owned_fd_new_room [OF assms(2)], of sub e] assms(2) first_free_view [OF assms(1)]
  by auto

lemma duplicate_view:
  assumes "table_inv h d" and "\<not> closed fd" and "view d (raw fd) = Some (a, b)" and "duplicate fd d = Done (res, d')"
  shows "\<exists>i. table_inv h d' \<and> view d' = (view d)(i \<mapsto> (a, b)) \<and> view d i = None"
proof -
  have "first_free (entries d) \<le> u32_max"
    using assms(2,4)
    by (auto simp: duplicate_def free_slot_def as_usize_def Let_def obind_eq_Done owned_fd_new_def split: if_splits)
  from duplicate_spec [OF assms(1) this assms(2,3)] assms(4) first_free_view [OF assms(1)] show ?thesis by auto
qed

lemma bound_upd:
  assumes "view t' = (view t)(i \<mapsto> (c, b))" and "view t i = None"
  shows "bound ty t' x \<longleftrightarrow> bound ty t x \<or> b = Any ty x"
proof -
  have "view t' j = Some (c', Any ty x) \<longleftrightarrow> view t j = Some (c', Any ty x) \<or> (j = i \<and> c' = c \<and> b = Any ty x)" for j c'
    using assms by auto
  then show ?thesis by (auto simp: bound_def)
qed

lemma ends_inv_create:
  assumes inv: "ends_inv ty w k" and create: "create_pipe rb ty capacity flags atomic w = Done (fds, w')"
  shows "ends_inv ty w' k"
proof -
  define a where "a = next_pipe w"
  obtain s t1 where s: "insert_fd ty (Sender a) (table w) = Done (s, t1)"
    using create by (auto simp: create_pipe_def Let_def obind_eq_Done a_def)
  obtain r t2 where r: "insert_fd ty (Receiver a) t1 = Done (r, t2)"
    and w': "w' = w\<lparr>table := t2, pipes := (pipes w)(a := new_pipe rb capacity (oflags_of flags) atomic), next_pipe := a + 1\<rparr>"
    using create s by (auto simp: create_pipe_def Let_def obind_eq_Done a_def)
  obtain i c where t1: "table_inv (\<lambda>_. 0) t1" "view t1 = (view (table w))(i \<mapsto> (c, Any ty (Sender a)))" "view (table w) i = None"
    using insert_fd_view [OF ends_invD(1) [OF inv] s] by blast
  obtain i' c' where t2: "table_inv (\<lambda>_. 0) t2" "view t2 = (view t1)(i' \<mapsto> (c', Any ty (Receiver a)))" "view t1 i' = None"
    using insert_fd_view [OF t1(1) r] by blast
  have fresh: "\<not> bound ty (table w) (Sender a)" "\<not> bound ty (table w) (Receiver a)"
    using ends_invD(2) [OF inv, of "Sender a"] ends_invD(2) [OF inv, of "Receiver a"] by (auto simp: a_def pipe_of_def)
  have bound': "bound ty t2 x \<longleftrightarrow> bound ty (table w) x \<or> x = Sender a \<or> x = Receiver a" for x
    unfolding bound_upd [OF t2(2,3)] bound_upd [OF t1(2,3)] by auto
  have old: "end_strong_count x w' = end_strong_count x w" "shutdown_of x w' = shutdown_of x w" if "pipe_of x \<noteq> a" for x
    using that by (auto simp: w' end_strong_count_def shutdown_of_def pipe_of_def split: pipe_end.splits)
  have new: "end_strong_count x w' = 1" "\<not> shutdown_of x w'" if "pipe_of x = a" for x
    using that by (auto simp: w' end_strong_count_def shutdown_of_def pipe_of_def new_pipe_def split: pipe_end.splits)
  have ends: "pipe_of x = a \<longleftrightarrow> x = Sender a \<or> x = Receiver a" for x by (cases x) (auto simp: pipe_of_def)
  have k: "k x = 0" if "pipe_of x = a" for x using inv that by (auto simp: ends_inv_def a_def)
  have nx: "next_pipe w' = Suc a" and tb: "table w' = t2" by (simp_all add: w')
  show ?thesis
    unfolding ends_inv_def nx tb
  proof (intro conjI allI impI)
    fix x assume x: "pipe_of x < Suc a"
    show "end_strong_count x w' = (if bound ty t2 x then 1 else 0) + k x"
      using ends_invD(4) [OF inv, of x] old(1) [of x] new(1) [of x] k [of x] ends [of x] x
      by (cases "pipe_of x = a") (auto simp: bound' a_def)
    show "shutdown_of x w' \<longleftrightarrow> end_strong_count x w' = 0"
      using ends_invD(5) [OF inv, of x] old [of x] new [of x] x
      by (cases "pipe_of x = a") (auto simp: a_def)
  next
    fix i j c c' e assume "view t2 i = Some (c, Any ty e)" and "view t2 j = Some (c', Any ty e)"
    then show "c = c'"
      using ends_invD(3) [OF inv, of i c e j c'] fresh t1(2) t2(2) by (auto simp: bound_def split: if_splits)
  next
    fix x assume "bound ty t2 x"
    then show "pipe_of x < Suc a"
      using ends_invD(2) [OF inv, of x] ends [of x] by (auto simp: bound' a_def)
  qed (use t2(1) inv in \<open>auto simp: ends_inv_def a_def\<close>)
qed

lemma ends_inv_dup:
  assumes inv: "ends_inv ty w k" and den: "denotes (table w) fd = Some (c, e)" and "duplicate fd (table w) = Done (res, t')"
  shows "ends_inv ty (w\<lparr>table := t'\<rparr>) k"
proof -
  obtain b where b: "\<not> closed fd" "view (table w) (raw fd) = Some (c, b)"
    using den by (auto simp: denotes_def split: option.splits if_splits)
  obtain i where t': "table_inv (\<lambda>_. 0) t'" "view t' = (view (table w))(i \<mapsto> (c, b))" "view (table w) i = None"
    using duplicate_view [OF ends_invD(1) [OF inv] b assms(3)] by blast
  have "bound ty t' x \<longleftrightarrow> bound ty (table w) x" for x
    using b(2) unfolding bound_upd [OF t'(2,3)] by (auto simp: bound_def)
  moreover have "c1 = c2" if "view t' j = Some (c1, Any ty x)" and "view t' j' = Some (c2, Any ty x)" for j j' c1 c2 x
    using that t'(2) b(2) ends_invD(3) [OF inv] by (auto split: if_splits)
  moreover have "end_strong_count x (w\<lparr>table := t'\<rparr>) = end_strong_count x w" "shutdown_of x (w\<lparr>table := t'\<rparr>) = shutdown_of x w" for x
    by (auto simp: end_strong_count_def shutdown_of_def split: pipe_end.split)
  ultimately show ?thesis using inv t'(1) unfolding ends_inv_def by (auto 0 3)
qed

lemma reachable_ends_inv: "pipe_world rb ty w k \<Longrightarrow> ends_inv ty w k"
proof (induction rule: pipe_world.induct)
  case (pw_start w)
  then show ?case using new_table_inv by (auto simp: ends_inv_def bound_def)
next
  case (pw_create w k capacity flags atomic fds w')
  then show ?case by (blast intro: ends_inv_create)
next
  case (pw_dup w k fd res t')
  then show ?case by (auto intro: ends_inv_dup)
next
  case (pw_close w k fd fd' w')
  then show ?case by (auto intro: ends_inv_close)
next
  case (pw_detach w k fd e w')
  then show ?case by (blast intro: ends_inv_detach)
next
  case (pw_release w k e)
  then show ?case by (blast intro: ends_inv_drop)
next
  case (pw_read w k a n res w')
  note same = end_on_pipe [OF pw_read.hyps(3) try_read_refs]
  show ?case by (rule ends_inv_same_table [OF pw_read.IH])
      (use ends_invD(5) [OF pw_read.IH] pw_read.IH in \<open>auto simp: same ends_inv_def\<close>)
next
  case (pw_write w k a buf res' w')
  note same = end_on_pipe [OF pw_write.hyps(3) try_write_refs]
  show ?case by (rule ends_inv_same_table [OF pw_write.IH])
      (use ends_invD(5) [OF pw_write.IH] pw_write.IH in \<open>auto simp: same ends_inv_def\<close>)
next
  case (pw_flags w k e om on)
  show ?case by (rule ends_inv_same_table [OF pw_flags.IH])
      (use ends_invD(5) [OF pw_flags.IH] pw_flags.IH in \<open>auto simp: end_set_status ends_inv_def\<close>)
qed

lemma reachable_gone:
  assumes "pipe_world rb ty w k" and "a < next_pipe w"
  shows "writer_gone (pipes w a) \<longleftrightarrow> k (Sender a) = 0 \<and> \<not> bound ty (table w) (Sender a)"
    and "reader_gone (pipes w a) \<longleftrightarrow> k (Receiver a) = 0 \<and> \<not> bound ty (table w) (Receiver a)"
    and "r_shutdown (pipes w a) \<longleftrightarrow> r_strong (pipes w a) = 0" and "w_shutdown (pipes w a) \<longleftrightarrow> w_strong (pipes w a) = 0"
proof -
  have p: "pipe_of (Sender a) < next_pipe w" "pipe_of (Receiver a) < next_pipe w" using assms(2) by (simp_all add: pipe_of_def)
  note inv = reachable_ends_inv [OF assms(1)]
  note s = ends_invD(4,5) [OF inv p(1)] and r = ends_invD(4,5) [OF inv p(2)]
  show "writer_gone (pipes w a) \<longleftrightarrow> k (Sender a) = 0 \<and> \<not> bound ty (table w) (Sender a)"
    using s by (auto simp: writer_gone_def end_strong_count_def shutdown_of_def)
  show "reader_gone (pipes w a) \<longleftrightarrow> k (Receiver a) = 0 \<and> \<not> bound ty (table w) (Receiver a)"
    using r by (auto simp: reader_gone_def end_strong_count_def shutdown_of_def)
  show "r_shutdown (pipes w a) \<longleftrightarrow> r_strong (pipes w a) = 0" "w_shutdown (pipes w a) \<longleftrightarrow> w_strong (pipes w a) = 0"
    using r s by (simp_all add: end_strong_count_def shutdown_of_def)
qed

text \<open>The world after the first pipe is created, with the write end at index 0.\<close>

lemma first_pipe:
  assumes "table w = new_from_litebox_creation" and "next_pipe w = 0"
  shows "\<exists>s r w'. create_pipe rb ty capacity flags atomic w = Done ((s, r), w') \<and> next_pipe w' = 1 \<and>
    s = \<lparr>raw = 0, closed = False, subsystem = ty\<rparr> \<and> r = \<lparr>raw = 1, closed = False, subsystem = ty\<rparr> \<and>
    view (table w') = [0 \<mapsto> (0, Any ty (Sender 0)), 1 \<mapsto> (1, Any ty (Receiver 0))] \<and>
    pipes w' 0 = new_pipe rb capacity (oflags_of flags) atomic"
  by (auto simp: create_pipe_def Let_def insert_fd_def free_slot_def arc_new_def fill_slot_def owned_fd_new_def assms
      new_from_litebox_creation_def view_alt fun_eq_iff nth_Cons' split: if_splits)

section \<open>Properties\<close>

text \<open>C9: In every reachable state an end of a pipe counts as gone for its peer exactly when no
  descriptor of the table and no handle or call in progress refers to it: end of file and broken
  pipe are signalled neither too early nor too late.\<close>

theorem pipe_end_gone_iff_unreferenced:
  assumes "pipe_world rb ty w k" and "a < next_pipe w"
  shows "(writer_gone (pipes w a) \<longleftrightarrow> k (Sender a) = 0 \<and> (\<forall>j c. view (table w) j \<noteq> Some (c, Any ty (Sender a)))) \<and>
    (reader_gone (pipes w a) \<longleftrightarrow> k (Receiver a) = 0 \<and> (\<forall>j c. view (table w) j \<noteq> Some (c, Any ty (Receiver a))))"
  using reachable_gone(1,2) [OF assms] by (simp add: bound_def)

theorem pipe_end_gone_iff_unreferenced_witness:
  "\<exists>w. pipe_world (list_ring :: (nat \<times> char list, char) ringbuf) 7 (w :: (nat \<times> char list, unit) pipes_world) (\<lambda>_. 0) \<and>
     0 < next_pipe w \<and> \<not> writer_gone (pipes w 0)"
proof -
  let ?w = "\<lparr>table = new_from_litebox_creation, pipes = undefined, next_pipe = 0\<rparr> :: (nat \<times> char list, unit) pipes_world"
  obtain s r w' where w': "create_pipe (list_ring :: (nat \<times> char list, char) ringbuf) 7 5 0 None ?w = Done ((s, r), w')"
    "next_pipe w' = 1" "view (table w') = [0 \<mapsto> (0, Any 7 (Sender 0)), 1 \<mapsto> (1, Any 7 (Receiver 0))]"
    using first_pipe [of ?w list_ring 7 5 0 None] by auto
  have "pipe_world list_ring 7 w' (\<lambda>_. 0)"
    using pw_create [OF pw_start w'(1)] by simp
  moreover have "view (table w') 0 = Some (0, Any 7 (Sender 0))" by (simp add: w'(3))
  ultimately show ?thesis
    using pipe_end_gone_iff_unreferenced [of list_ring 7 w' "\<lambda>_. 0" 0] w'(2) by (metis zero_less_one)
qed

text \<open>Closing a descriptor of a write end succeeds, keeps what is queued and shuts the end exactly
  when it was the last reference; then a reader is told of the hang-up and its reads return what
  is left and after that end of file, without ever waiting.\<close>

theorem pipe_close_last_writer:
  assumes "pipe_world rb ty w k" and "subsystem fd = ty" and "denotes (table w) fd = Some (c, Sender a)"
    and "ring_laws rb q cap" and "0 < n" and "\<not> reader_gone (pipes w a)"
  shows "\<exists>fd' w'. pipes_close fd w = Done (fd', w') \<and> closed fd' \<and> ring (pipes w' a) = ring (pipes w a) \<and>
    (if k (Sender a) = 0 \<and> (\<forall>j b. view (table w) j = Some (c, b) \<longrightarrow> j = raw fd)
     then r_notified (pipes w' a) = r_notified (pipes w a) @ [EV_HUP] \<and>
       fst (try_read rb (\<lambda>p. p) n (pipes w' a)) = Inr (take n (q (ring (pipes w a))))
     else \<not> writer_gone (pipes w' a) \<and> r_notified (pipes w' a) = r_notified (pipes w a))"
proof -
  define last where "last \<longleftrightarrow> (\<forall>j b. view (table w) j = Some (c, b) \<longrightarrow> j = raw fd)"
  note inv = reachable_ends_inv [OF assms(1)]
  have v: "view (table w) (raw fd) = Some (c, Any ty (Sender a))"
    using assms(2,3) by (auto simp: denotes_def split: option.splits if_splits) (metis any.collapse)
  then have bd: "bound ty (table w) (Sender a)" by (auto simp: bound_def)
  then have a: "a < next_pipe w" using ends_invD(2) [OF inv bd] by (simp add: pipe_of_def)
  note gone = reachable_gone [OF assms(1) a]
  have strong: "w_strong (pipes w a) = 1 + k (Sender a)"
    using ends_invD(4) [OF inv, of "Sender a"] a bd by (simp add: end_strong_count_def pipe_of_def)
  obtain t' where t': "remove_fd fd (table w) = Done (if last then Some (Sender a) else None, fd\<lparr>closed := True\<rparr>, t')"
    using remove_fd_last [OF ends_invD(1) [OF inv] assms(3)] unfolding last_def by auto
  define w' where "w' = (if last then drop_end (Sender a) (w\<lparr>table := t'\<rparr>) else w\<lparr>table := t'\<rparr>)"
  have close: "pipes_close fd w = Done (fd\<lparr>closed := True\<rparr>, w')"
    using t' by (simp add: pipes_close_def w'_def)
  have p': "pipes w' a = (if last then drop_writer (pipes w a) else pipes w a)"
    by (simp add: w'_def drop_end_def update_pipe_def)
  have open': "\<not> w_shutdown (pipes w a)" "0 < r_strong (pipes w a)" "\<not> r_shutdown (pipes w a)"
    using gone(3,4) strong assms(6) by (auto simp: reader_gone_def split: if_splits)
  have rng: "ring (pipes w' a) = ring (pipes w a)" by (simp add: p' drop_writer_def Let_def)
  show ?thesis
  proof (cases "k (Sender a) = 0 \<and> last")
    case True
    then have p'': "pipes w' a = (pipes w a)\<lparr>w_strong := 0, w_shutdown := True,
        r_notified := r_notified (pipes w a) @ [EV_HUP]\<rparr>"
      using strong open'(2) by (simp add: p' drop_writer_def notify_reader_def)
    have "fst (try_read rb (\<lambda>p. p) n (pipes w' a)) = Inr (take n (q (ring (pipes w a))))"
      by (rule try_read_eq [OF assms(4), of n "pipes w' a"])
        (use open'(3) assms(5) in \<open>simp add: p'' writer_gone_def\<close>)
    with True p'' close rng show ?thesis unfolding last_def by auto
  next
    case False
    with strong open'(1) have "\<not> writer_gone (pipes w' a)" "r_notified (pipes w' a) = r_notified (pipes w a)"
      by (auto simp: p' drop_writer_def writer_gone_def Let_def)
    with False close rng show ?thesis unfolding last_def by auto
  qed
qed

theorem pipe_close_last_writer_witness:
  "\<exists>w fd fd' w'. pipe_world (list_ring :: (nat \<times> char list, char) ringbuf) 7
       (w :: (nat \<times> char list, unit) pipes_world) (\<lambda>_. 0) \<and>
     pipes_close fd w = Done (fd', w') \<and> r_notified (pipes w' 0) = [EV_HUP] \<and>
     fst (try_read (list_ring :: (nat \<times> char list, char) ringbuf) (\<lambda>p. p) 4 (pipes w' 0)) = Inr []"
proof -
  let ?rb = "list_ring :: (nat \<times> char list, char) ringbuf"
  let ?w = "\<lparr>table = new_from_litebox_creation, pipes = undefined, next_pipe = 0\<rparr> :: (nat \<times> char list, unit) pipes_world"
  obtain s r w where w: "create_pipe ?rb 7 5 0 None ?w = Done ((s, r), w)" "next_pipe w = 1"
    "s = \<lparr>raw = 0, closed = False, subsystem = 7\<rparr>"
    "view (table w) = [0 \<mapsto> (0, Any 7 (Sender 0)), 1 \<mapsto> (1, Any 7 (Receiver 0))]"
    "pipes w 0 = new_pipe ?rb 5 (oflags_of 0) None"
    using first_pipe [of ?w ?rb 7 5 0 None] by auto
  have reach: "pipe_world ?rb 7 w (\<lambda>_. 0)" using pw_create [OF pw_start w(1)] by simp
  have den: "denotes (table w) s = Some (0, Sender 0)" by (simp add: denotes_def w(3,4))
  have last: "\<forall>j b. view (table w) j = Some (0, b) \<longrightarrow> j = raw s" by (auto simp: w(3,4) split: if_splits)
  have "\<not> reader_gone (pipes w 0)" "list_queue (ring (pipes w 0)) = []" "r_notified (pipes w 0) = []"
    by (simp_all add: w(5) new_pipe_def reader_gone_def list_ring_def)
  with pipe_close_last_writer [OF reach _ den list_ring_laws, of 4] last obtain fd' w' where
    "pipes_close s w = Done (fd', w')" "r_notified (pipes w' 0) = [EV_HUP]"
    "fst (try_read ?rb (\<lambda>p. p) 4 (pipes w' 0)) = Inr []"
    by (auto simp: w(3))
  with reach show ?thesis by blast
qed

end
