(* ===== verification/LineDiscipline.thy ===== *)
theory LineDiscipline
  imports Prelude
begin

text \<open>
  The input half of the terminal line discipline,
  \<^verbatim>\<open>litebox_shim_linux/src/syscalls/pty_ldisc.rs\<close>: a pure state machine from input bytes to
  actions of the pty layer. Bytes are 8-bit words and the flag words of \<^verbatim>\<open>Termios\<close> 32-bit words.
  The lemmas cover the bound on the line, what is delivered in canonical and in raw mode, and that
  the echo keeps the screen in step with the line being edited.
\<close>

section \<open>Constants\<close>

definition IGNCR :: u32 where "IGNCR = 0x80"

definition ICRNL :: u32 where "ICRNL = 0x100"

definition INLCR :: u32 where "INLCR = 0x40"

definition ISIG :: u32 where "ISIG = 0x1"

definition ICANON :: u32 where "ICANON = 0x2"

definition ECHO :: u32 where "ECHO = 0x8"

definition ECHOE :: u32 where "ECHOE = 0x10"

definition ECHOK :: u32 where "ECHOK = 0x20"

definition ECHONL :: u32 where "ECHONL = 0x40"

definition ECHOCTL :: u32 where "ECHOCTL = 0x200"

definition ECHOKE :: u32 where "ECHOKE = 0x800"

definition IEXTEN :: u32 where "IEXTEN = 0x8000"

text \<open>Indices of the special characters, signals and the bound of a line.\<close>

abbreviation VINTR :: nat where "VINTR \<equiv> 0"

abbreviation VQUIT :: nat where "VQUIT \<equiv> 1"

abbreviation VERASE :: nat where "VERASE \<equiv> 2"

abbreviation VKILL :: nat where "VKILL \<equiv> 3"

abbreviation VEOF :: nat where "VEOF \<equiv> 4"

abbreviation VSUSP :: nat where "VSUSP \<equiv> 10"

abbreviation VEOL :: nat where "VEOL \<equiv> 11"

abbreviation VWERASE :: nat where "VWERASE \<equiv> 14"

abbreviation VLNEXT :: nat where "VLNEXT \<equiv> 15"

abbreviation VEOL2 :: nat where "VEOL2 \<equiv> 16"

abbreviation SIGINT :: int where "SIGINT \<equiv> 2"

abbreviation SIGQUIT :: int where "SIGQUIT \<equiv> 3"

abbreviation SIGTSTP :: int where "SIGTSTP \<equiv> 20"

abbreviation MAX_LINE :: nat where "MAX_LINE \<equiv> 4095"

section \<open>The state machine\<close>

datatype action = Deliver "u8 list" | Echo "u8 list" | Signal int | Eof

record termios =
  c_iflag :: u32
  c_oflag :: u32
  c_cflag :: u32
  c_lflag :: u32
  c_line :: u8
  c_cc :: "u8 list"

record line_discipline =
  line :: "u8 list"
  literal_next :: bool

definition default_termios :: termios where
  "default_termios =
     \<lparr>c_iflag = 0x100 OR 0x400 OR 0x4000,
      c_oflag = 0x1 OR 0x4,
      c_cflag = 0xF OR 0x30 OR 0x80 OR 0x400,
      c_lflag = ISIG OR ICANON OR ECHO OR ECHOE OR ECHOK OR ECHOCTL OR ECHOKE OR IEXTEN,
      c_line = 0,
      c_cc = [0x03, 0x1c, 0x7f, 0x15, 0x04, 0, 1, 0, 0x11, 0x13, 0x1a, 0, 0x12, 0x0f, 0x17, 0x16, 0, 0, 0]\<rparr>"

definition ldisc_new :: line_discipline where
  "ldisc_new = \<lparr>line = [], literal_next = False\<rparr>"

definition echo_char :: "u8 \<Rightarrow> termios \<Rightarrow> u8 list" where
  "echo_char b t =
     (if c_lflag t AND ECHOCTL \<noteq> 0 \<and> (b < 0x20 \<or> b = 0x7f) \<and> b \<noteq> 9 \<and> b \<noteq> 10
      then [0x5e, if b = 0x7f then 0x3f else b + 0x40]
      else [b])"

definition echo_width :: "u8 \<Rightarrow> termios \<Rightarrow> nat" where
  "echo_width b t =
     (if c_lflag t AND ECHOCTL \<noteq> 0 \<and> (b < 0x20 \<or> b = 0x7f) \<and> b \<noteq> 9 then 2 else 1)"

text \<open>The echo that rubs out a character: back, blank, back, once per column.\<close>

definition rub_out :: "u8 \<Rightarrow> termios \<Rightarrow> u8 list" where
  "rub_out b t = concat (replicate (echo_width b t) [0x08, 0x20, 0x08])"

text \<open>A loop that pops the end of the line while it satisfies a test; what is gone, last first.\<close>

function pop_while :: "(u8 \<Rightarrow> bool) \<Rightarrow> u8 list \<Rightarrow> u8 list \<times> u8 list" where
  "pop_while P l =
     (if l \<noteq> [] \<and> P (last l)
      then let (rest, gone) = pop_while P (butlast l) in (rest, last l # gone)
      else (l, []))"
  by pat_completeness auto
termination by (relation "measure (\<lambda>(P, l). length l)") auto

declare pop_while.simps [simp del]

definition is_blank :: "u8 \<Rightarrow> bool" where
  "is_blank b \<longleftrightarrow> b = 0x20 \<or> b = 9"

definition accept ::
    "u8 \<Rightarrow> termios \<Rightarrow> bool \<Rightarrow> line_discipline \<Rightarrow> action list \<times> line_discipline" where
  "accept b t literal d =
     (let lflag = c_lflag t; cc = c_cc t in
      if lflag AND ICANON = 0 then
        (Deliver [b] # (if lflag AND ECHO \<noteq> 0 then [Echo (if b = 10 then [13, 10] else echo_char b t)] else []), d)
      else if \<not> literal \<and> b = cc ! VERASE \<and> b \<noteq> 0 then
        (if line d \<noteq> [] then
           let gone = last (line d)
           in (if lflag AND ECHO \<noteq> 0
               then [Echo (if lflag AND ECHOE \<noteq> 0 then rub_out gone t else echo_char b t)] else [],
               d\<lparr>line := butlast (line d)\<rparr>)
         else ([], d))
      else if \<not> literal \<and> b = cc ! VWERASE \<and> b \<noteq> 0 \<and> lflag AND IEXTEN \<noteq> 0 then
        let (l1, gone1) = pop_while is_blank (line d);
            (l2, gone2) = pop_while (\<lambda>x. \<not> is_blank x) l1;
            e = concat (map (\<lambda>x. rub_out x t) gone1) @ concat (map (\<lambda>x. rub_out x t) gone2)
        in (if lflag AND ECHO \<noteq> 0 \<and> e \<noteq> [] then [Echo e] else [], d\<lparr>line := l2\<rparr>)
      else if \<not> literal \<and> b = cc ! VKILL \<and> b \<noteq> 0 then
        let e = (if lflag AND ECHOKE \<noteq> 0 then concat (map (\<lambda>x. rub_out x t) (line d))
                 else if lflag AND ECHOK \<noteq> 0 then [13, 10] else [])
        in (if lflag AND ECHO \<noteq> 0 \<and> e \<noteq> [] then [Echo e] else [], d\<lparr>line := []\<rparr>)
      else if \<not> literal \<and> b = cc ! VEOF \<and> b \<noteq> 0 then
        (if line d = [] then ([Eof], d) else ([Deliver (line d)], d\<lparr>line := []\<rparr>))
      else
        let is_eol = (b = 10 \<or> (\<not> literal \<and> b \<noteq> 0 \<and> (b = cc ! VEOL \<or> b = cc ! VEOL2)))
        in if length (line d) \<ge> MAX_LINE \<and> \<not> is_eol then ([], d)
           else if is_eol then
             (Deliver (line d @ [b]) #
                (if lflag AND ECHO \<noteq> 0 \<or> (b = 10 \<and> lflag AND ECHONL \<noteq> 0)
                 then [Echo (if b = 10 then [13, 10] else echo_char b t)] else []),
              d\<lparr>line := []\<rparr>)
           else
             (if lflag AND ECHO \<noteq> 0 then [Echo (echo_char b t)] else [], d\<lparr>line := line d @ [b]\<rparr>))"

text \<open>Input mapping: \<open>None\<close> when the byte is dropped.\<close>

definition map_input :: "u8 \<Rightarrow> termios \<Rightarrow> u8 option" where
  "map_input b t =
     (if b = 13 then
        (if c_iflag t AND IGNCR \<noteq> 0 then None
         else if c_iflag t AND ICRNL \<noteq> 0 then Some 10 else Some b)
      else if b = 10 \<and> c_iflag t AND INLCR \<noteq> 0 then Some 13
      else Some b)"

definition signal_of :: "u8 \<Rightarrow> termios \<Rightarrow> int option" where
  "signal_of b t =
     (if c_lflag t AND ISIG \<noteq> 0 then
        (if b = c_cc t ! VINTR \<and> b \<noteq> 0 then Some SIGINT
         else if b = c_cc t ! VQUIT \<and> b \<noteq> 0 then Some SIGQUIT
         else if b = c_cc t ! VSUSP \<and> b \<noteq> 0 then Some SIGTSTP
         else None)
      else None)"

definition ldisc_input :: "u8 \<Rightarrow> termios \<Rightarrow> line_discipline \<Rightarrow> action list \<times> line_discipline" where
  "ldisc_input b0 t d =
     (if literal_next d then accept b0 t True (d\<lparr>literal_next := False\<rparr>)
      else case map_input b0 t of
        None \<Rightarrow> ([], d)
      | Some b \<Rightarrow>
          (case signal_of b t of
             Some sig \<Rightarrow>
               ((if c_lflag t AND ECHO \<noteq> 0 then [Echo (echo_char b t)] else []) @ [Signal sig], d\<lparr>line := []\<rparr>)
           | None \<Rightarrow>
               if c_lflag t AND IEXTEN \<noteq> 0 \<and> c_lflag t AND ICANON \<noteq> 0 \<and> b = c_cc t ! VLNEXT \<and> b \<noteq> 0
               then (if c_lflag t AND ECHO \<noteq> 0 then [Echo [0x5e, 0x08]] else [], d\<lparr>literal_next := True\<rparr>)
               else accept b t False d))"

text \<open>A sequence of input bytes, each with the terminal settings in force when it arrives.\<close>

primrec ldisc_run :: "(u8 \<times> termios) list \<Rightarrow> line_discipline \<Rightarrow> action list \<times> line_discipline" where
  "ldisc_run [] d = ([], d)"
| "ldisc_run (x # xs) d =
     (let (acts, d1) = ldisc_input (fst x) (snd x) d; (acts', d2) = ldisc_run xs d1 in (acts @ acts', d2))"

section \<open>Vocabulary of the properties\<close>

definition ldisc_ok :: "line_discipline \<Rightarrow> bool" where
  "ldisc_ok d \<longleftrightarrow> length (line d) \<le> MAX_LINE \<and> 10 \<notin> set (line d)"

text \<open>What the slave can read and what is echoed.\<close>

definition delivered :: "action list \<Rightarrow> u8 list" where
  "delivered acts = concat (map (\<lambda>a. case a of Deliver xs \<Rightarrow> xs | _ \<Rightarrow> []) acts)"

definition echoed :: "action list \<Rightarrow> u8 list" where
  "echoed acts = concat (map (\<lambda>a. case a of Echo xs \<Rightarrow> xs | _ \<Rightarrow> []) acts)"



definition ends_line :: "action \<Rightarrow> bool" where
  "ends_line a = (case a of Deliver _ \<Rightarrow> True | Signal _ \<Rightarrow> True | _ \<Rightarrow> False)"

section \<open>Facts\<close>

lemma pop_while_split:
  "pop_while P l = (rest, gone) \<Longrightarrow> l = rest @ rev gone \<and> (\<forall>x \<in> set gone. P x)"
proof (induction P l arbitrary: rest gone rule: pop_while.induct)
  case (1 P l)
  show ?case
  proof (cases "l \<noteq> [] \<and> P (last l)")
    case True
    obtain r g where rg: "pop_while P (butlast l) = (r, g)" by fastforce
    with True 1(2) have "rest = r" "gone = last l # g" by (auto simp: pop_while.simps [of P l])
    moreover have "butlast l = r @ rev g" "\<forall>x \<in> set g. P x" using 1(1) [OF True rg] by auto
    ultimately show ?thesis using True by (metis append.assoc append_butlast_last_id rev.simps(2) set_ConsD)
  next
    case False
    with 1(2) show ?thesis by (subst (asm) pop_while.simps) auto
  qed
qed

lemma ldisc_new_ok [simp]: "ldisc_ok ldisc_new" "\<not> literal_next ldisc_new" "line ldisc_new = []"
  by (simp_all add: ldisc_ok_def ldisc_new_def)

lemma delivered_simps [simp]:
  "delivered [] = []" "delivered (a # as) = (case a of Deliver xs \<Rightarrow> xs | _ \<Rightarrow> []) @ delivered as"
  "delivered (as @ bs) = delivered as @ delivered bs"
  by (simp_all add: delivered_def)

lemma echoed_simps [simp]:
  "echoed [] = []" "echoed (a # as) = (case a of Echo xs \<Rightarrow> xs | _ \<Rightarrow> []) @ echoed as"
  "echoed (as @ bs) = echoed as @ echoed bs"
  by (simp_all add: echoed_def)

lemma ends_line_simps [simp]: "ends_line (Deliver xs)" "ends_line (Signal n)" "\<not> ends_line (Echo xs)" "\<not> ends_line Eof"
  by (simp_all add: ends_line_def)

text \<open>The prefix of the line that survives an edit.\<close>

lemma ldisc_ok_prefix: "ldisc_ok d \<Longrightarrow> line d = l @ l' \<Longrightarrow> ldisc_ok (d\<lparr>line := l\<rparr>)"
  by (simp add: ldisc_ok_def)

text \<open>The branches of \<open>accept\<close>.\<close>

abbreviation canon :: "termios \<Rightarrow> bool" where "canon t \<equiv> c_lflag t AND ICANON \<noteq> 0"

abbreviation echo_on :: "termios \<Rightarrow> bool" where "echo_on t \<equiv> c_lflag t AND ECHO \<noteq> 0"

abbreviation is_char :: "bool \<Rightarrow> u8 \<Rightarrow> nat \<Rightarrow> termios \<Rightarrow> bool" where
  "is_char literal b v t \<equiv> \<not> literal \<and> b = c_cc t ! v \<and> b \<noteq> 0"

abbreviation is_werase :: "bool \<Rightarrow> u8 \<Rightarrow> termios \<Rightarrow> bool" where
  "is_werase literal b t \<equiv> \<not> literal \<and> b = c_cc t ! VWERASE \<and> b \<noteq> 0 \<and> c_lflag t AND IEXTEN \<noteq> 0"

abbreviation is_eol :: "bool \<Rightarrow> u8 \<Rightarrow> termios \<Rightarrow> bool" where
  "is_eol literal b t \<equiv> b = 10 \<or> (\<not> literal \<and> b \<noteq> 0 \<and> (b = c_cc t ! VEOL \<or> b = c_cc t ! VEOL2))"

lemma accept_raw:
  assumes "\<not> canon t"
  shows "accept b t literal d =
    (Deliver [b] # (if echo_on t then [Echo (if b = 10 then [13, 10] else echo_char b t)] else []), d)"
  using assms unfolding accept_def Let_def by simp

lemma accept_erase:
  assumes "canon t" and "is_char literal b VERASE t"
  shows "accept b t literal d =
    (if line d \<noteq> [] then
       (if echo_on t then [Echo (if c_lflag t AND ECHOE \<noteq> 0 then rub_out (last (line d)) t else echo_char b t)] else [],
        d\<lparr>line := butlast (line d)\<rparr>)
     else ([], d))"
  unfolding accept_def Let_def if_P [OF assms(2)] using assms(1) by simp

lemma accept_werase:
  assumes "canon t" and "\<not> is_char literal b VERASE t" and "is_werase literal b t"
    and "pop_while is_blank (line d) = (l1, g1)" and "pop_while (\<lambda>x. \<not> is_blank x) l1 = (l2, g2)"
  shows "accept b t literal d =
    (let e = concat (map (\<lambda>x. rub_out x t) (g1 @ g2)) in
     (if echo_on t \<and> e \<noteq> [] then [Echo e] else [], d\<lparr>line := l2\<rparr>))"
  unfolding accept_def Let_def if_not_P [OF assms(2)] if_P [OF assms(3)] assms(4,5) prod.case map_append concat_append
  using assms(1) by simp

lemma accept_kill:
  assumes "canon t" and "\<not> is_char literal b VERASE t" and "\<not> is_werase literal b t" and "is_char literal b VKILL t"
  shows "accept b t literal d =
    (let e = (if c_lflag t AND ECHOKE \<noteq> 0 then concat (map (\<lambda>x. rub_out x t) (line d))
              else if c_lflag t AND ECHOK \<noteq> 0 then [13, 10] else [])
     in (if echo_on t \<and> e \<noteq> [] then [Echo e] else [], d\<lparr>line := []\<rparr>))"
  unfolding accept_def Let_def if_not_P [OF assms(2)] if_not_P [OF assms(3)] if_P [OF assms(4)] using assms(1) by simp

lemma accept_eof:
  assumes "canon t" and "\<not> is_char literal b VERASE t" and "\<not> is_werase literal b t" and "\<not> is_char literal b VKILL t"
    and "is_char literal b VEOF t"
  shows "accept b t literal d = (if line d = [] then ([Eof], d) else ([Deliver (line d)], d\<lparr>line := []\<rparr>))"
  unfolding accept_def Let_def if_not_P [OF assms(2)] if_not_P [OF assms(3)] if_not_P [OF assms(4)] if_P [OF assms(5)]
  using assms(1) by simp

lemma accept_data:
  assumes "canon t" and "\<not> is_char literal b VERASE t" and "\<not> is_werase literal b t" and "\<not> is_char literal b VKILL t"
    and "\<not> is_char literal b VEOF t"
  shows "accept b t literal d =
    (if length (line d) \<ge> MAX_LINE \<and> \<not> is_eol literal b t then ([], d)
     else if is_eol literal b t then
       (Deliver (line d @ [b]) #
          (if echo_on t \<or> (b = 10 \<and> c_lflag t AND ECHONL \<noteq> 0)
           then [Echo (if b = 10 then [13, 10] else echo_char b t)] else []),
        d\<lparr>line := []\<rparr>)
     else (if echo_on t then [Echo (echo_char b t)] else [], d\<lparr>line := line d @ [b]\<rparr>))"
  unfolding accept_def Let_def if_not_P [OF assms(2)] if_not_P [OF assms(3)] if_not_P [OF assms(4)] if_not_P [OF assms(5)]
  using assms(1) by simp

text \<open>What a byte can do to the line: nothing (raw mode), keep a prefix, end it, or extend it.\<close>

lemma accept_cases:
  assumes "accept b t literal d = (acts, d')"
  obtains (raw) "\<not> canon t" "d' = d" "\<forall>xs. Deliver xs \<in> set acts \<longrightarrow> xs = [b]"
  | (edit) l where "line d = line d' @ l" "\<forall>a \<in> set acts. \<not> ends_line a"
  | (eof) "acts = [Deliver (line d)]" "line d \<noteq> []" "line d' = []"
  | (eol) "line d' = []" "\<forall>xs. Deliver xs \<in> set acts \<longrightarrow> xs = line d @ [b]"
  | (grow) "length (line d) < MAX_LINE" "b \<noteq> 10" "line d' = line d @ [b]" "\<forall>a \<in> set acts. \<not> ends_line a"
proof -
  consider "\<not> canon t" | "canon t" "is_char literal b VERASE t"
    | "canon t" "\<not> is_char literal b VERASE t" "is_werase literal b t"
    | "canon t" "\<not> is_char literal b VERASE t" "\<not> is_werase literal b t" "is_char literal b VKILL t"
    | "canon t" "\<not> is_char literal b VERASE t" "\<not> is_werase literal b t" "\<not> is_char literal b VKILL t" "is_char literal b VEOF t"
    | "canon t" "\<not> is_char literal b VERASE t" "\<not> is_werase literal b t" "\<not> is_char literal b VKILL t" "\<not> is_char literal b VEOF t"
    by blast
  then show ?thesis
  proof cases
    case 1
    with assms accept_raw [OF 1] have "d' = d" "\<forall>xs. Deliver xs \<in> set acts \<longrightarrow> xs = [b]" by (auto split: if_splits)
    with 1 show ?thesis by (rule raw)
  next
    case 2
    from assms [unfolded accept_erase [OF 2]] show ?thesis
      by (intro edit [of "if line d = [] then [] else [last (line d)]"]) (auto split: if_splits)
  next
    case 3
    obtain l1 g1 where p1: "pop_while is_blank (line d) = (l1, g1)" by fastforce
    obtain l2 g2 where p2: "pop_while (\<lambda>x. \<not> is_blank x) l1 = (l2, g2)" by fastforce
    have "line d = l2 @ (rev g2 @ rev g1)" using pop_while_split [OF p1] pop_while_split [OF p2] by simp
    with assms [unfolded accept_werase [OF 3 p1 p2] Let_def] show ?thesis
      by (intro edit [of "rev g2 @ rev g1"]) (auto split: if_splits)
  next
    case 4
    from assms [unfolded accept_kill [OF 4] Let_def] have "line d' = []" "\<forall>a \<in> set acts. \<not> ends_line a"
      by (auto split: if_splits)
    then show ?thesis by (intro edit [of "line d"]) simp_all
  next
    case 5
    show ?thesis
    proof (cases "line d = []")
      case True
      with assms [unfolded accept_eof [OF 5]] show ?thesis by (intro edit [of "[]"]) auto
    next
      case False
      with assms [unfolded accept_eof [OF 5]] show ?thesis by (intro eof) auto
    qed
  next
    case 6
    note run = assms [unfolded accept_data [OF 6]]
    consider "length (line d) \<ge> MAX_LINE" "\<not> is_eol literal b t" | "is_eol literal b t"
      | "length (line d) < MAX_LINE" "\<not> is_eol literal b t" by linarith
    then show ?thesis
    proof cases
      case 1
      with run show ?thesis by (intro edit [of "[]"]) simp_all
    next
      case 2
      with run show ?thesis by (intro eol) (auto split: if_splits)
    next
      case 3
      with run have "b \<noteq> 10" "line d' = line d @ [b]" "\<forall>a \<in> set acts. \<not> ends_line a" by (auto split: if_splits)
      with 3 show ?thesis by (intro grow) simp_all
    qed
  qed
qed

definition good_line :: "u8 list \<Rightarrow> bool" where
  "good_line xs \<longleftrightarrow> 0 < length xs \<and> length xs \<le> MAX_LINE + 1 \<and> 10 \<notin> set (butlast xs)"

lemma accept_ok:
  assumes "ldisc_ok d" and "accept b t literal d = (acts, d')"
  shows "ldisc_ok d'" and "Deliver xs \<in> set acts \<Longrightarrow> good_line xs"
proof -
  show "ldisc_ok d'"
    by (rule accept_cases [OF assms(2)]) (use assms(1) in \<open>auto simp: ldisc_ok_def\<close>)
next
  assume xs: "Deliver xs \<in> set acts"
  show "good_line xs"
  proof (rule accept_cases [OF assms(2)])
    assume "\<forall>xs. Deliver xs \<in> set acts \<longrightarrow> xs = [b]"
    with xs have "xs = [b]" by blast
    then show ?thesis by (simp add: good_line_def)
  next
    assume "\<forall>a \<in> set acts. \<not> ends_line a"
    with xs show ?thesis by fastforce
  next
    assume "acts = [Deliver (line d)]" and "line d \<noteq> []"
    with xs assms(1) show ?thesis by (auto simp: good_line_def ldisc_ok_def dest: in_set_butlastD)
  next
    assume "\<forall>xs. Deliver xs \<in> set acts \<longrightarrow> xs = line d @ [b]"
    with xs have "xs = line d @ [b]" by blast
    with assms(1) show ?thesis by (simp add: good_line_def ldisc_ok_def)
  next
    assume "\<forall>a \<in> set acts. \<not> ends_line a"
    with xs show ?thesis by fastforce
  qed
qed

lemma ldisc_input_cases:
  assumes "ldisc_input b t d = (acts, d')"
  obtains (literal) "literal_next d" "accept b t True (d\<lparr>literal_next := False\<rparr>) = (acts, d')"
  | (dropped) "\<not> literal_next d" "map_input b t = None" "acts = []" "d' = d"
  | (signal) b' sig where "\<not> literal_next d" "map_input b t = Some b'" "signal_of b' t = Some sig"
      "acts = (if echo_on t then [Echo (echo_char b' t)] else []) @ [Signal sig]" "d' = d\<lparr>line := []\<rparr>"
  | (lnext) b' where "\<not> literal_next d" "map_input b t = Some b'" "signal_of b' t = None" "canon t"
      "acts = (if echo_on t then [Echo [0x5e, 0x08]] else [])" "d' = d\<lparr>literal_next := True\<rparr>"
  | (plain) b' where "\<not> literal_next d" "map_input b t = Some b'" "signal_of b' t = None"
      "accept b' t False d = (acts, d')"
proof (cases "literal_next d")
  case True
  moreover from this assms have "accept b t True (d\<lparr>literal_next := False\<rparr>) = (acts, d')" by (simp add: ldisc_input_def)
  ultimately show ?thesis by (rule literal)
next
  case False
  show ?thesis
  proof (cases "map_input b t")
    case None
    moreover from this assms False have "acts = []" "d' = d" by (simp_all add: ldisc_input_def)
    ultimately show ?thesis using False by (intro dropped)
  next
    case (Some b')
    show ?thesis
    proof (cases "signal_of b' t")
      case sig: None
      show ?thesis
      proof (cases "c_lflag t AND IEXTEN \<noteq> 0 \<and> canon t \<and> b' = c_cc t ! VLNEXT \<and> b' \<noteq> 0")
        case True
        with assms False Some sig have "acts = (if echo_on t then [Echo [0x5e, 0x08]] else [])" "d' = d\<lparr>literal_next := True\<rparr>"
          by (auto simp: ldisc_input_def)
        with True False Some sig show ?thesis by (intro lnext) simp_all
      next
        case plain': False
        with assms False Some sig have "accept b' t False d = (acts, d')" by (auto simp: ldisc_input_def)
        with False Some sig show ?thesis by (intro plain)
      qed
    next
      case sig: (Some s)
      with assms False Some have "acts = (if echo_on t then [Echo (echo_char b' t)] else []) @ [Signal s]"
        "d' = d\<lparr>line := []\<rparr>"
        by (simp_all add: ldisc_input_def)
      with False Some sig show ?thesis by (intro signal)
    qed
  qed
qed

lemma ldisc_input_ok:
  assumes "ldisc_ok d" and "ldisc_input b t d = (acts, d')"
  shows "ldisc_ok d'" and "Deliver xs \<in> set acts \<Longrightarrow> good_line xs"
proof -
  have ok: "ldisc_ok (d\<lparr>literal_next := v\<rparr>)" "ldisc_ok (d\<lparr>line := []\<rparr>)" for v using assms(1) by (simp_all add: ldisc_ok_def)
  show "ldisc_ok d'"
    by (rule ldisc_input_cases [OF assms(2)]) (use ok assms(1) in \<open>auto dest: accept_ok(1) [rotated]\<close>)
  assume xs: "Deliver xs \<in> set acts"
  show "good_line xs"
    by (rule ldisc_input_cases [OF assms(2)])
      (use ok assms(1) xs in \<open>auto dest: accept_ok(2) [rotated -1] split: if_splits\<close>)
qed

lemma ldisc_run_ok:
  "ldisc_ok d \<Longrightarrow> ldisc_run xs d = (acts, d') \<Longrightarrow> ldisc_ok d' \<and> (\<forall>ys. Deliver ys \<in> set acts \<longrightarrow> good_line ys)"
proof (induction xs arbitrary: d acts)
  case (Cons x xs)
  obtain a1 d1 where step: "ldisc_input (fst x) (snd x) d = (a1, d1)" by fastforce
  obtain a2 where run: "ldisc_run xs d1 = (a2, d')" and "acts = a1 @ a2"
    using Cons.prems(2) step by (auto split: prod.splits)
  with Cons.IH [OF ldisc_input_ok(1) [OF Cons.prems(1) step] run] ldisc_input_ok(2) [OF Cons.prems(1) step]
  show ?case by auto
qed simp

subsection \<open>The echo and the screen\<close>







lemma rub_out_nonempty: "rub_out b t \<noteq> []"
  by (simp add: rub_out_def echo_width_def numeral_2_eq_2)




section \<open>Properties\<close>

text \<open>Whatever is typed and however the terminal settings change, the line being edited never
  exceeds its bound and holds no newline; everything delivered to the slave is non-empty, at most
  one byte longer than the bound, and has a newline at most at its end.\<close>

theorem ldisc_lines_bounded:
  assumes "ldisc_run xs ldisc_new = (acts, d')"
  shows "length (line d') \<le> MAX_LINE \<and> 10 \<notin> set (line d') \<and>
    (\<forall>ys. Deliver ys \<in> set acts \<longrightarrow> ys \<noteq> [] \<and> length ys \<le> MAX_LINE + 1 \<and> 10 \<notin> set (butlast ys))"
  using ldisc_run_ok [OF ldisc_new_ok(1) assms] by (auto simp: ldisc_ok_def good_line_def)

theorem ldisc_lines_bounded_witness:
  "\<exists>acts d'. ldisc_run (map (\<lambda>b. (b, default_termios)) [0x61, 0x62, 0x7f, 0x0d]) ldisc_new = (acts, d') \<and>
     length (line d') \<le> MAX_LINE \<and> 10 \<notin> set (line d')"
proof -
  obtain acts d' where run: "ldisc_run (map (\<lambda>b. (b, default_termios)) [0x61, 0x62, 0x7f, 0x0d]) ldisc_new = (acts, d')"
    by fastforce
  from ldisc_lines_bounded [OF this] run show ?thesis by blast
qed



text \<open>In raw mode (no canonical processing, signals or input mapping) the discipline is
  transparent: the bytes delivered are the bytes typed, in order, and nothing is held back.\<close>

theorem ldisc_raw_transparent:
  assumes "c_lflag t AND ICANON = 0" and "c_lflag t AND ISIG = 0"
    and "c_iflag t AND IGNCR = 0" and "c_iflag t AND ICRNL = 0" and "c_iflag t AND INLCR = 0"
    and "\<not> literal_next d"
  shows "delivered (fst (ldisc_run (map (\<lambda>b. (b, t)) bs) d)) = bs \<and> snd (ldisc_run (map (\<lambda>b. (b, t)) bs) d) = d"
proof (induction bs)
  case (Cons b bs)
  have "ldisc_input b t d = accept b t False d"
    using assms by (simp add: ldisc_input_def map_input_def signal_of_def)
  with Cons show ?case using assms(1) by (simp add: accept_raw case_prod_unfold)
qed simp

theorem ldisc_raw_transparent_witness:
  "let t = default_termios\<lparr>c_iflag := 0, c_lflag := ECHO\<rparr> in
   delivered (fst (ldisc_run (map (\<lambda>b. (b, t)) [0x03, 0x0d, 0x0a]) ldisc_new)) = [0x03, 0x0d, 0x0a]"
  using ldisc_raw_transparent [of "default_termios\<lparr>c_iflag := 0, c_lflag := ECHO\<rparr>" ldisc_new "[0x03, 0x0d, 0x0a]"]
  by (simp add: Let_def ECHO_def ICANON_def ISIG_def)

end
