(* ===== verification/Bpf.thy ===== *)
theory Bpf
  imports Errno
begin

text \<open>
  The classic-BPF interpreter and verifier of \<^verbatim>\<open>litebox_shim_linux/src/syscalls/seccomp.rs\<close>:
  \<open>load_abs\<close>, \<open>alu\<close>, \<open>run_filter\<close> and \<open>validate\<close>. Registers are 32-bit words and instruction fields
  keep their widths; the loop is a recursion whose termination proof is that the program counter
  grows. The lemmas show that the loop ends and that a program which passes the verifier never
  reaches one of the interpreter's defensive exits.
\<close>

section \<open>Constants\<close>

definition SECCOMP_MODE_DISABLED :: u8 where "SECCOMP_MODE_DISABLED = 0"

definition SECCOMP_MODE_STRICT :: u8 where "SECCOMP_MODE_STRICT = 1"

definition SECCOMP_MODE_FILTER :: u8 where "SECCOMP_MODE_FILTER = 2"

definition SECCOMP_SET_MODE_STRICT :: u32 where "SECCOMP_SET_MODE_STRICT = 0"

definition SECCOMP_SET_MODE_FILTER :: u32 where "SECCOMP_SET_MODE_FILTER = 1"

definition SECCOMP_GET_ACTION_AVAIL :: u32 where "SECCOMP_GET_ACTION_AVAIL = 2"

definition SECCOMP_FILTER_FLAG_TSYNC :: u32 where "SECCOMP_FILTER_FLAG_TSYNC = 1"

definition SECCOMP_FILTER_FLAG_LOG :: u32 where "SECCOMP_FILTER_FLAG_LOG = 2"

definition SECCOMP_FILTER_FLAG_SPEC_ALLOW :: u32 where "SECCOMP_FILTER_FLAG_SPEC_ALLOW = 4"

definition SECCOMP_RET_KILL_PROCESS :: u32 where "SECCOMP_RET_KILL_PROCESS = 0x80000000"

definition SECCOMP_RET_KILL_THREAD :: u32 where "SECCOMP_RET_KILL_THREAD = 0x00000000"

definition SECCOMP_RET_TRAP :: u32 where "SECCOMP_RET_TRAP = 0x00030000"

definition SECCOMP_RET_ERRNO :: u32 where "SECCOMP_RET_ERRNO = 0x00050000"

definition SECCOMP_RET_USER_NOTIF :: u32 where "SECCOMP_RET_USER_NOTIF = 0x7fc00000"

definition SECCOMP_RET_TRACE :: u32 where "SECCOMP_RET_TRACE = 0x7ff00000"

definition SECCOMP_RET_LOG :: u32 where "SECCOMP_RET_LOG = 0x7fd00000"

definition SECCOMP_RET_ALLOW :: u32 where "SECCOMP_RET_ALLOW = 0x7fff0000"

definition SECCOMP_RET_ACTION_FULL :: u32 where "SECCOMP_RET_ACTION_FULL = 0xffff0000"

definition SECCOMP_RET_DATA :: u32 where "SECCOMP_RET_DATA = 0x0000ffff"

definition SYS_SECCOMP :: int where "SYS_SECCOMP = 1"

definition AUDIT_ARCH :: u32 where "AUDIT_ARCH = 0xc000003e"

definition SECCOMP_DATA_LEN :: nat where "SECCOMP_DATA_LEN = 64"

definition MAX_INSNS :: nat where "MAX_INSNS = 4096"

definition MAX_ERRNO :: u16 where "MAX_ERRNO = 4095"

definition BPF_CLASS :: u16 where "BPF_CLASS = 0x07"

definition BPF_LD :: u16 where "BPF_LD = 0x00"

definition BPF_LDX :: u16 where "BPF_LDX = 0x01"

definition BPF_ST :: u16 where "BPF_ST = 0x02"

definition BPF_STX :: u16 where "BPF_STX = 0x03"

definition BPF_ALU :: u16 where "BPF_ALU = 0x04"

definition BPF_JMP :: u16 where "BPF_JMP = 0x05"

definition BPF_RET :: u16 where "BPF_RET = 0x06"

definition BPF_MISC :: u16 where "BPF_MISC = 0x07"

definition BPF_SIZE :: u16 where "BPF_SIZE = 0x18"

definition BPF_W :: u16 where "BPF_W = 0x00"

definition BPF_H :: u16 where "BPF_H = 0x08"

definition BPF_B :: u16 where "BPF_B = 0x10"

definition BPF_MODE :: u16 where "BPF_MODE = 0xe0"

definition BPF_IMM :: u16 where "BPF_IMM = 0x00"

definition BPF_ABS :: u16 where "BPF_ABS = 0x20"

definition BPF_MEM :: u16 where "BPF_MEM = 0x60"

definition BPF_LEN :: u16 where "BPF_LEN = 0x80"

definition BPF_X :: u16 where "BPF_X = 0x08"

definition BPF_OP :: u16 where "BPF_OP = 0xf0"

definition BPF_ADD :: u16 where "BPF_ADD = 0x00"

definition BPF_SUB :: u16 where "BPF_SUB = 0x10"

definition BPF_MUL :: u16 where "BPF_MUL = 0x20"

definition BPF_DIV :: u16 where "BPF_DIV = 0x30"

definition BPF_OR :: u16 where "BPF_OR = 0x40"

definition BPF_AND :: u16 where "BPF_AND = 0x50"

definition BPF_LSH :: u16 where "BPF_LSH = 0x60"

definition BPF_RSH :: u16 where "BPF_RSH = 0x70"

definition BPF_NEG :: u16 where "BPF_NEG = 0x80"

definition BPF_MOD :: u16 where "BPF_MOD = 0x90"

definition BPF_XOR :: u16 where "BPF_XOR = 0xa0"

definition BPF_JA :: u16 where "BPF_JA = 0x00"

definition BPF_JEQ :: u16 where "BPF_JEQ = 0x10"

definition BPF_JGT :: u16 where "BPF_JGT = 0x20"

definition BPF_JGE :: u16 where "BPF_JGE = 0x30"

definition BPF_JSET :: u16 where "BPF_JSET = 0x40"

definition BPF_TAX :: u16 where "BPF_TAX = BPF_MISC"

definition BPF_TXA :: u16 where "BPF_TXA = BPF_MISC OR 0x80"

definition BPF_RET_A :: u16 where "BPF_RET_A = BPF_RET OR BPF_B"

definition BPF_RET_K :: u16 where "BPF_RET_K = BPF_RET"

lemmas bpf_defs =
  BPF_CLASS_def BPF_LD_def BPF_LDX_def BPF_ST_def BPF_STX_def BPF_ALU_def BPF_JMP_def BPF_RET_def
  BPF_MISC_def BPF_SIZE_def BPF_W_def BPF_H_def BPF_B_def BPF_MODE_def BPF_IMM_def BPF_ABS_def
  BPF_MEM_def BPF_LEN_def BPF_X_def BPF_OP_def BPF_ADD_def BPF_SUB_def BPF_MUL_def BPF_DIV_def
  BPF_OR_def BPF_AND_def BPF_LSH_def BPF_RSH_def BPF_NEG_def BPF_MOD_def BPF_XOR_def BPF_JA_def
  BPF_JEQ_def BPF_JGT_def BPF_JGE_def BPF_JSET_def BPF_TAX_def BPF_TXA_def BPF_RET_A_def
  BPF_RET_K_def

section \<open>Instructions and loads\<close>

record sock_filter =
  sf_code :: u16
  sf_jt :: u8
  sf_jf :: u8
  sf_k :: u32

definition mem_slot :: "u32 \<Rightarrow> nat option" where
  "mem_slot x = (if unat x < 16 then Some (unat x) else None)"

text \<open>Little-endian value of a byte sequence, and \<^verbatim>\<open>slice.get(start..start + n)\<close>.\<close>

fun le_value :: "u8 list \<Rightarrow> nat" where
  "le_value [] = 0"
| "le_value (b # bs) = unat b + 256 * le_value bs"

definition get_range :: "'a list \<Rightarrow> nat \<Rightarrow> nat \<Rightarrow> 'a list option" where
  "get_range xs start n = (if start + n \<le> length xs then Some (take n (drop start xs)) else None)"

definition load_abs :: "u8 list \<Rightarrow> u16 \<Rightarrow> u32 \<Rightarrow> u32 option" where
  "load_abs data c x =
     (let start = unat x; size = c AND BPF_SIZE in
      if size = BPF_W then map_option (\<lambda>b. of_nat (le_value b)) (get_range data start 4)
      else if size = BPF_H then map_option (\<lambda>b. of_nat (le_value b)) (get_range data start 2)
      else if size = BPF_B then map_option (\<lambda>b. of_nat (unat b)) (slice_get data start)
      else None)"

definition alu :: "u16 \<Rightarrow> u32 \<Rightarrow> u32 \<Rightarrow> u32 option" where
  "alu op a y =
     (if op = BPF_ADD then Some (a + y)
      else if op = BPF_SUB then Some (a - y)
      else if op = BPF_MUL then Some (a * y)
      else if op = BPF_DIV then (if y = 0 then None else Some (a div y))
      else if op = BPF_MOD then (if y = 0 then None else Some (a mod y))
      else if op = BPF_AND then Some (a AND y)
      else if op = BPF_OR then Some (a OR y)
      else if op = BPF_XOR then Some (a XOR y)
      else if op = BPF_LSH then Some (push_bit (unat y mod 32) a)
      else if op = BPF_RSH then Some (drop_bit (unat y mod 32) a)
      else if op = BPF_NEG then Some (- a)
      else None)"

section \<open>The interpreter\<close>

record bpf_state =
  reg_a :: u32
  reg_x :: u32
  bpf_mem :: "u32 list"
  bpf_pc :: nat

definition load_value :: "u8 list \<Rightarrow> sock_filter \<Rightarrow> bpf_state \<Rightarrow> u32 option" where
  "load_value data insn st =
     (let mode = sf_code insn AND BPF_MODE in
      if mode = BPF_IMM then Some (sf_k insn)
      else if mode = BPF_MEM then map_option (\<lambda>i. bpf_mem st ! i) (mem_slot (sf_k insn))
      else if mode = BPF_ABS then load_abs data (sf_code insn) (sf_k insn)
      else if mode = BPF_LEN then Some (of_nat SECCOMP_DATA_LEN)
      else None)"

definition operand :: "sock_filter \<Rightarrow> bpf_state \<Rightarrow> u32" where
  "operand insn st = (if sf_code insn AND BPF_X = BPF_X then reg_x st else sf_k insn)"

definition jump_offset :: "sock_filter \<Rightarrow> bpf_state \<Rightarrow> nat option" where
  "jump_offset insn st =
     (let op = sf_code insn AND BPF_OP; y = operand insn st; a = reg_a st in
      if op = BPF_JA then Some (unat (sf_k insn))
      else if op = BPF_JEQ then Some (unat (if a = y then sf_jt insn else sf_jf insn))
      else if op = BPF_JGT then Some (unat (if a > y then sf_jt insn else sf_jf insn))
      else if op = BPF_JGE then Some (unat (if a \<ge> y then sf_jt insn else sf_jf insn))
      else if op = BPF_JSET then Some (unat (if a AND y \<noteq> 0 then sf_jt insn else sf_jf insn))
      else None)"

text \<open>One turn of the loop: the filter returns a value, or goes on.\<close>

definition filter_step :: "sock_filter list \<Rightarrow> u8 list \<Rightarrow> sock_filter \<Rightarrow> bpf_state \<Rightarrow> u32 + bpf_state" where
  "filter_step prog data insn st =
     (let c = sf_code insn; cls = c AND BPF_CLASS in
      if cls = BPF_RET then
        (if c = BPF_RET_A then Inl (reg_a st) else if c = BPF_RET_K then Inl (sf_k insn) else Inl 0)
      else if cls = BPF_MISC then
        (if c = BPF_TAX then Inr (st\<lparr>reg_x := reg_a st, bpf_pc := bpf_pc st + 1\<rparr>)
         else if c = BPF_TXA then Inr (st\<lparr>reg_a := reg_x st, bpf_pc := bpf_pc st + 1\<rparr>)
         else Inl 0)
      else if cls = BPF_ST \<or> cls = BPF_STX then
        (case mem_slot (sf_k insn) of
           None \<Rightarrow> Inl 0
         | Some i \<Rightarrow>
             Inr (st\<lparr>bpf_mem := (bpf_mem st)[i := if cls = BPF_ST then reg_a st else reg_x st], bpf_pc := bpf_pc st + 1\<rparr>))
      else if cls = BPF_LD \<or> cls = BPF_LDX then
        (case load_value data insn st of
           None \<Rightarrow> Inl 0
         | Some v \<Rightarrow> Inr (if cls = BPF_LD then st\<lparr>reg_a := v, bpf_pc := bpf_pc st + 1\<rparr> else st\<lparr>reg_x := v, bpf_pc := bpf_pc st + 1\<rparr>))
      else if cls = BPF_ALU then
        (case alu (c AND BPF_OP) (reg_a st) (operand insn st) of
           None \<Rightarrow> Inl 0
         | Some v \<Rightarrow> Inr (st\<lparr>reg_a := v, bpf_pc := bpf_pc st + 1\<rparr>))
      else if cls = BPF_JMP then
        (case jump_offset insn st of
           None \<Rightarrow> Inl 0
         | Some offset \<Rightarrow>
             (case Option.bind (checked_add (bpf_pc st) 1) (\<lambda>n. checked_add n offset) of
                None \<Rightarrow> Inl 0
              | Some nxt \<Rightarrow> if nxt \<le> bpf_pc st \<or> nxt > length prog then Inl 0 else Inr (st\<lparr>bpf_pc := nxt\<rparr>)))
      else Inl 0)"

lemma filter_step_forward: "filter_step prog data insn st = Inr st' \<Longrightarrow> bpf_pc st < bpf_pc st'"
  unfolding filter_step_def Let_def by (auto split: if_splits option.splits)

function filter_loop :: "sock_filter list \<Rightarrow> u8 list \<Rightarrow> bpf_state \<Rightarrow> u32" where
  "filter_loop prog data st =
     (if bpf_pc st < length prog then
        (case filter_step prog data (prog ! bpf_pc st) st of
           Inl ret \<Rightarrow> ret
         | Inr st' \<Rightarrow> filter_loop prog data st')
      else 0)"
  by pat_completeness auto
termination
  by (relation "measure (\<lambda>(prog, data, st). length prog - bpf_pc st)") (auto dest: filter_step_forward)

declare filter_loop.simps [simp del]

definition run_filter :: "sock_filter list \<Rightarrow> u8 list \<Rightarrow> u32" where
  "run_filter prog data = filter_loop prog data \<lparr>reg_a = 0, reg_x = 0, bpf_mem = replicate 16 0, bpf_pc = 0\<rparr>"

section \<open>The verifier\<close>

definition validate_insn :: "nat \<Rightarrow> nat \<Rightarrow> sock_filter \<Rightarrow> bool" where
  "validate_insn len i insn =
     (let c = sf_code insn; cls = c AND BPF_CLASS in
      if cls = BPF_LD \<or> cls = BPF_LDX then
        (let mode = c AND BPF_MODE in
         if mode = BPF_IMM \<or> mode = BPF_LEN then True
         else if mode = BPF_MEM \<and> unat (sf_k insn) < 16 then True
         else if mode = BPF_ABS then
           (let size = c AND BPF_SIZE;
                width = (if size = BPF_W then Some 4 else if size = BPF_H then Some 2
                         else if size = BPF_B then Some 1 else None)
            in case width of
                 None \<Rightarrow> False
               | Some n \<Rightarrow> (case checked_add (unat (sf_k insn)) n of None \<Rightarrow> False | Some e \<Rightarrow> e \<le> SECCOMP_DATA_LEN))
         else False)
      else if cls = BPF_ST \<or> cls = BPF_STX then unat (sf_k insn) < 16
      else if cls = BPF_ALU then
        c AND BPF_OP \<in> {BPF_ADD, BPF_SUB, BPF_MUL, BPF_DIV, BPF_OR, BPF_AND, BPF_LSH, BPF_RSH, BPF_NEG, BPF_MOD, BPF_XOR}
      else if cls = BPF_JMP then
        (let limit = len - 1 - i; op = c AND BPF_OP
         in if op = BPF_JA then unat (sf_k insn) \<le> limit
            else op \<in> {BPF_JEQ, BPF_JGT, BPF_JGE, BPF_JSET} \<and> unat (sf_jt insn) \<le> limit \<and> unat (sf_jf insn) \<le> limit)
      else if cls = BPF_RET then c = BPF_RET_K \<or> c = BPF_RET_A
      else if cls = BPF_MISC then c = BPF_TAX \<or> c = BPF_TXA
      else False)"

primrec validate_loop :: "nat \<Rightarrow> nat \<Rightarrow> sock_filter list \<Rightarrow> errno + unit" where
  "validate_loop len i [] = Inr ()"
| "validate_loop len i (insn # insns) =
     (if validate_insn len i insn then validate_loop len (i + 1) insns else Inl EINVAL)"

definition validate :: "sock_filter list \<Rightarrow> errno + unit" where
  "validate prog =
     (if prog = [] \<or> length prog > MAX_INSNS then Inl EINVAL
      else if sf_code (prog ! (length prog - 1)) AND BPF_CLASS \<noteq> BPF_RET then Inl EINVAL
      else validate_loop (length prog) 0 prog)"

section \<open>Facts\<close>

lemma validate_loop_nth:
  "validate_loop len i insns = Inr () \<longleftrightarrow> (\<forall>j < length insns. validate_insn len (i + j) (insns ! j))"
  by (induction insns arbitrary: i) (auto simp: less_Suc_eq_0_disj)

lemma validateD:
  assumes "validate prog = Inr ()"
  shows "prog \<noteq> []" "length prog \<le> MAX_INSNS" "i < length prog \<Longrightarrow> validate_insn (length prog) i (prog ! i)"
  using assms by (auto simp: validate_def validate_loop_nth split: if_splits)

lemma alu_defined:
  "op \<in> {BPF_ADD, BPF_SUB, BPF_MUL, BPF_DIV, BPF_OR, BPF_AND, BPF_LSH, BPF_RSH, BPF_NEG, BPF_MOD, BPF_XOR} \<Longrightarrow>
   alu op a y = None \<longleftrightarrow> (op = BPF_DIV \<or> op = BPF_MOD) \<and> y = 0"
  by (auto simp: alu_def bpf_defs)

lemma load_abs_defined:
  assumes "length data = SECCOMP_DATA_LEN"
    and "c AND BPF_SIZE = BPF_W \<and> unat x + 4 \<le> SECCOMP_DATA_LEN \<or> c AND BPF_SIZE = BPF_H \<and> unat x + 2 \<le> SECCOMP_DATA_LEN \<or>
      c AND BPF_SIZE = BPF_B \<and> unat x + 1 \<le> SECCOMP_DATA_LEN"
  shows "load_abs data c x \<noteq> None"
  using assms by (auto simp: load_abs_def Let_def get_range_def BPF_W_def BPF_H_def BPF_B_def)

text \<open>An instruction that passed the verifier, by class.\<close>

definition good_exit :: "sock_filter \<Rightarrow> bpf_state \<Rightarrow> u32 \<Rightarrow> bool" where
  "good_exit insn st ret \<longleftrightarrow>
     (sf_code insn = BPF_RET_K \<and> ret = sf_k insn) \<or> (sf_code insn = BPF_RET_A \<and> ret = reg_a st) \<or>
     (sf_code insn AND BPF_CLASS = BPF_ALU \<and> sf_code insn AND BPF_OP \<in> {BPF_DIV, BPF_MOD} \<and>
      operand insn st = 0 \<and> ret = 0)"

definition good_next :: "nat \<Rightarrow> bpf_state \<Rightarrow> bpf_state \<Rightarrow> bool" where
  "good_next len st st' \<longleftrightarrow> bpf_pc st < bpf_pc st' \<and> bpf_pc st' \<le> len \<and> length (bpf_mem st') = length (bpf_mem st)"

lemma validated_step:
  assumes "validate_insn (length prog) (bpf_pc st) insn" and "bpf_pc st < length prog"
    and "length data = SECCOMP_DATA_LEN" and "length prog \<le> MAX_INSNS"
  shows "case filter_step prog data insn st of
      Inl ret \<Rightarrow> good_exit insn st ret
    | Inr st' \<Rightarrow> good_next (length prog) st st'"
proof -
  define cls where "cls = sf_code insn AND BPF_CLASS"
  note unf = validate_insn_def filter_step_def Let_def cls_def [symmetric]
  consider "cls = BPF_LD \<or> cls = BPF_LDX" | "cls = BPF_ST \<or> cls = BPF_STX" | "cls = BPF_ALU" | "cls = BPF_JMP" | "cls = BPF_RET"
    | "cls = BPF_MISC"
    using assms(1) unfolding unf by (auto split: if_splits)
  then show ?thesis
  proof cases
    case 1
    then have load: "load_value data insn st \<noteq> None"
      using assms(1,3) load_abs_defined [of data "sf_code insn" "sf_k insn"]
      unfolding unf load_value_def mem_slot_def
      by (auto simp: bpf_defs checked_add_def split: if_splits option.splits)
    have "cls \<noteq> BPF_RET" "cls \<noteq> BPF_MISC" "\<not> (cls = BPF_ST \<or> cls = BPF_STX)" using 1 by (auto simp: bpf_defs)
    with 1 load assms(2) show ?thesis unfolding unf by (auto simp: good_next_def)
  next
    case 2
    then have "mem_slot (sf_k insn) \<noteq> None" and "\<not> (cls = BPF_LD \<or> cls = BPF_LDX)" "cls \<noteq> BPF_RET" "cls \<noteq> BPF_MISC"
      using assms(1) unfolding unf mem_slot_def by (auto simp: bpf_defs split: if_splits)
    with 2 assms(2) show ?thesis unfolding unf by (auto simp: good_next_def)
  next
    case 3
    have ne: "\<not> (cls = BPF_LD \<or> cls = BPF_LDX)" "\<not> (cls = BPF_ST \<or> cls = BPF_STX)" "cls \<noteq> BPF_RET" "cls \<noteq> BPF_MISC"
      using 3 by (auto simp: bpf_defs)
    have op: "sf_code insn AND BPF_OP \<in> {BPF_ADD, BPF_SUB, BPF_MUL, BPF_DIV, BPF_OR, BPF_AND, BPF_LSH, BPF_RSH, BPF_NEG, BPF_MOD, BPF_XOR}"
      using assms(1) 3 ne unfolding unf by simp
    have step: "filter_step prog data insn st = (case alu (sf_code insn AND BPF_OP) (reg_a st) (operand insn st) of
        None \<Rightarrow> Inl 0 | Some v \<Rightarrow> Inr (st\<lparr>reg_a := v, bpf_pc := bpf_pc st + 1\<rparr>))"
      using 3 ne unfolding unf by simp
    show ?thesis
    proof (cases "alu (sf_code insn AND BPF_OP) (reg_a st) (operand insn st)")
      case None
      with alu_defined [OF op] have "sf_code insn AND BPF_OP \<in> {BPF_DIV, BPF_MOD}" "operand insn st = 0" by auto
      with None 3 show ?thesis unfolding step None option.case sum.case good_exit_def cls_def by simp
    next
      case (Some v)
      with assms(2) show ?thesis by (simp add: step good_next_def)
    qed
  next
    case 4
    have ne: "\<not> (cls = BPF_LD \<or> cls = BPF_LDX)" "\<not> (cls = BPF_ST \<or> cls = BPF_STX)" "cls \<noteq> BPF_RET" "cls \<noteq> BPF_MISC" "cls \<noteq> BPF_ALU"
      using 4 by (auto simp: bpf_defs)
    obtain off where off: "jump_offset insn st = Some off" "off \<le> length prog - 1 - bpf_pc st"
      using assms(1) 4 ne unfolding unf jump_offset_def by (auto simp: bpf_defs split: if_splits)
    have "length prog \<le> usize_max" using assms(4) by (simp add: MAX_INSNS_def)
    then show ?thesis
      using 4 ne off assms(2) unfolding unf by (auto simp: good_next_def checked_add_def)
  next
    case 5
    with assms(1) show ?thesis unfolding unf by (auto simp: bpf_defs good_exit_def split: if_splits)
  next
    case 6
    with assms(1,2) show ?thesis unfolding unf by (auto simp: bpf_defs good_next_def split: if_splits)
  qed
qed

text \<open>The states a run goes through, and a run with a bounded number of turns.\<close>

inductive filter_reach :: "sock_filter list \<Rightarrow> u8 list \<Rightarrow> bpf_state \<Rightarrow> bool" for prog data where
  filter_start: "filter_reach prog data \<lparr>reg_a = 0, reg_x = 0, bpf_mem = replicate 16 0, bpf_pc = 0\<rparr>"
| filter_next: "filter_reach prog data st \<Longrightarrow> bpf_pc st < length prog \<Longrightarrow>
    filter_step prog data (prog ! bpf_pc st) st = Inr st' \<Longrightarrow> filter_reach prog data st'"

primrec run_turns :: "nat \<Rightarrow> sock_filter list \<Rightarrow> u8 list \<Rightarrow> bpf_state \<Rightarrow> u32 option" where
  "run_turns 0 prog data st = (if bpf_pc st < length prog then None else Some 0)"
| "run_turns (Suc n) prog data st =
     (if bpf_pc st < length prog then
        (case filter_step prog data (prog ! bpf_pc st) st of
           Inl ret \<Rightarrow> Some ret
         | Inr st' \<Rightarrow> run_turns n prog data st')
      else Some 0)"

lemma run_turns_enough:
  "length prog \<le> n + bpf_pc st \<Longrightarrow> run_turns n prog data st = Some (filter_loop prog data st)"
proof (induction n arbitrary: st)
  case 0
  then show ?case by (simp add: filter_loop.simps)
next
  case (Suc n)
  show ?case
  proof (cases "bpf_pc st < length prog")
    case True
    show ?thesis
    proof (cases "filter_step prog data (prog ! bpf_pc st) st")
      case (Inl ret)
      with True show ?thesis by (simp add: filter_loop.simps)
    next
      case (Inr st')
      with filter_step_forward [OF Inr] Suc.prems have "length prog \<le> n + bpf_pc st'" by simp
      with Suc.IH [OF this] True Inr show ?thesis by (simp add: filter_loop.simps [of prog data st])
    qed
  next
    case False
    then show ?thesis by (simp add: filter_loop.simps)
  qed
qed

lemma validated_reach:
  assumes "validate prog = Inr ()" and "length data = SECCOMP_DATA_LEN" and "filter_reach prog data st"
  shows "bpf_pc st \<le> length prog \<and> length (bpf_mem st) = 16"
  using assms(3)
proof induction
  case (filter_next st st')
  from validated_step [OF validateD(3) [OF assms(1) filter_next.hyps(2)] filter_next.hyps(2) assms(2) validateD(2) [OF assms(1)]]
    filter_next show ?case by (simp add: good_next_def)
qed simp

section \<open>Properties\<close>

text \<open>C13: A program that passes the verifier never reaches a defensive exit of the interpreter: at
  every state of a run the program counter is at most the length, the scratch memory keeps its 16
  slots, and the next instruction either returns by a \<open>RET\<close> instruction with its own value, or divides
  by zero, or moves the program counter forward within the program.\<close>

theorem bpf_validated_safe:
  assumes "validate prog = Inr ()" and "length data = SECCOMP_DATA_LEN" and "filter_reach prog data st"
  shows "bpf_pc st \<le> length prog \<and> length (bpf_mem st) = 16 \<and>
    (bpf_pc st < length prog \<longrightarrow>
      (case filter_step prog data (prog ! bpf_pc st) st of
         Inl ret \<Rightarrow> good_exit (prog ! bpf_pc st) st ret
       | Inr st' \<Rightarrow> bpf_pc st < bpf_pc st' \<and> bpf_pc st' \<le> length prog))"
  using validated_reach [OF assms] validated_step [OF validateD(3) [OF assms(1)] _ assms(2) validateD(2) [OF assms(1)], of st]
  by (auto simp: good_next_def split: sum.splits)

theorem bpf_validated_safe_witness:
  "let prog = [\<lparr>sf_code = 0x20, sf_jt = 0, sf_jf = 0, sf_k = 0\<rparr>, \<lparr>sf_code = 0x15, sf_jt = 0, sf_jf = 1, sf_k = 39\<rparr>,
               \<lparr>sf_code = 0x06, sf_jt = 0, sf_jf = 0, sf_k = 0x50001\<rparr>, \<lparr>sf_code = 0x06, sf_jt = 0, sf_jf = 0, sf_k = 0x7fff0000\<rparr>];
       st = \<lparr>reg_a = 0, reg_x = 0, bpf_mem = replicate 16 0, bpf_pc = 0\<rparr> in
   validate prog = Inr () \<and> filter_reach prog (replicate 64 0) st \<and>
   (case filter_step prog (replicate 64 0) (prog ! bpf_pc st) st of
      Inl ret \<Rightarrow> good_exit (prog ! bpf_pc st) st ret
    | Inr st' \<Rightarrow> bpf_pc st < bpf_pc st' \<and> bpf_pc st' \<le> length prog)"
proof -
  define prog where "prog = [\<lparr>sf_code = 0x20, sf_jt = 0, sf_jf = 0, sf_k = 0\<rparr>, \<lparr>sf_code = 0x15, sf_jt = 0, sf_jf = 1, sf_k = 39\<rparr>,
    \<lparr>sf_code = 0x06, sf_jt = 0, sf_jf = 0, sf_k = 0x50001\<rparr>, \<lparr>sf_code = 0x06, sf_jt = 0, sf_jf = 0, sf_k = 0x7fff0000\<rparr>]"
  have v: "validate prog = Inr ()" unfolding prog_def by code_simp
  have l: "length (replicate 64 (0 :: u8)) = SECCOMP_DATA_LEN" by (simp add: SECCOMP_DATA_LEN_def)
  have p: "(0 :: nat) < length prog" by (simp add: prog_def)
  from bpf_validated_safe [OF v l filter_start] p show ?thesis
    unfolding Let_def prog_def [symmetric] by (simp add: v filter_start)
qed

text \<open>The interpreter ends on every program, verified or not: it takes at most one turn per
  instruction.\<close>

theorem bpf_run_bounded:
  "run_turns (length prog) prog data \<lparr>reg_a = 0, reg_x = 0, bpf_mem = replicate 16 0, bpf_pc = 0\<rparr>
     = Some (run_filter prog data)"
  using run_turns_enough [of prog "length prog"] by (simp add: run_filter_def)

end
