(* ===== verification/Seccomp.thy ===== *)
theory Seccomp
  imports Bpf
begin

text \<open>
  System-call filtering, \<^verbatim>\<open>litebox_shim_linux/src/syscalls/seccomp.rs\<close>: verdicts, the state of a
  thread group (\<open>SeccompState\<close>), its textual form for a forked process, and the system calls that
  install filters. Guest memory is a record of read operations; the numbering of system calls comes
  from a library, as the function \<open>sysno_new\<close>. Locks and atomics are taken within one call. The lemmas
  cover the resolution of a stack of filters, the round trip of the textual form and the
  invariants of the installing calls.
\<close>

section \<open>Verdicts\<close>

datatype verdict = Allow | LogCall | Trace | ErrnoRet u16 | Trap u16 | KillThread | KillProcess

definition from_ret :: "u32 \<Rightarrow> verdict" where
  "from_ret ret =
     (let action = ret AND SECCOMP_RET_ACTION_FULL in
      if action = SECCOMP_RET_ALLOW then Allow
      else if action = SECCOMP_RET_LOG then LogCall
      else if action = SECCOMP_RET_TRACE then Trace
      else if action = SECCOMP_RET_ERRNO then ErrnoRet (ucast (ret AND SECCOMP_RET_DATA))
      else if action = SECCOMP_RET_TRAP then Trap (ucast (ret AND SECCOMP_RET_DATA))
      else if action = SECCOMP_RET_KILL_PROCESS then KillProcess
      else KillThread)"

definition severity :: "verdict \<Rightarrow> nat" where
  "severity v =
     (case v of
        Allow \<Rightarrow> 0 | LogCall \<Rightarrow> 1 | Trace \<Rightarrow> 2 | ErrnoRet _ \<Rightarrow> 3 | Trap _ \<Rightarrow> 4 | KillThread \<Rightarrow> 5 | KillProcess \<Rightarrow> 6)"

definition errno_from_ret_data :: "u16 \<Rightarrow> errno" where
  "errno_from_ret_data data =
     (case errno_try_from_u32 (min (max (unat data) 1) (unat MAX_ERRNO)) of Inr e \<Rightarrow> e | Inl _ \<Rightarrow> ENOSYS)"

section \<open>The state of a thread group\<close>

record seccomp_state =
  mode :: u8
  no_new_privs :: bool
  filters :: "sock_filter list list"

definition seccomp_new :: seccomp_state where
  "seccomp_new = \<lparr>mode = SECCOMP_MODE_DISABLED, no_new_privs = False, filters = []\<rparr>"

definition install_strict :: "seccomp_state \<Rightarrow> seccomp_state" where
  "install_strict s = s\<lparr>mode := SECCOMP_MODE_STRICT\<rparr>"

definition add_filter :: "sock_filter list \<Rightarrow> seccomp_state \<Rightarrow> seccomp_state" where
  "add_filter prog s = s\<lparr>mode := SECCOMP_MODE_FILTER, filters := prog # filters s\<rparr>"


section \<open>Evaluation\<close>

text \<open>\<^verbatim>\<open>to_ne_bytes\<close> on the little-endian targets the shim runs on.\<close>

primrec le_bytes :: "nat \<Rightarrow> nat \<Rightarrow> u8 list" where
  "le_bytes 0 v = []"
| "le_bytes (Suc n) v = of_nat (v mod 256) # le_bytes n (v div 256)"

datatype sysno = Sys_read | Sys_write | Sys_exit | Sys_exit_group | Sys_rt_sigreturn | Sys_other nat

definition seccomp_strict_allows :: "(nat \<Rightarrow> sysno option) \<Rightarrow> nat \<Rightarrow> bool" where
  "seccomp_strict_allows sysno_new n =
     (case sysno_new n of
        Some s \<Rightarrow> s \<in> {Sys_read, Sys_write, Sys_exit, Sys_exit_group, Sys_rt_sigreturn}
      | None \<Rightarrow> False)"

definition usize_of_nr :: "u32 \<Rightarrow> nat option" where
  "usize_of_nr nr = (if sint nr < 0 then None else Some (nat (sint nr)))"

definition seccomp_data :: "u32 \<Rightarrow> nat \<Rightarrow> u64 list \<Rightarrow> u8 list" where
  "seccomp_data nr ip args =
     le_bytes 4 (unat nr) @ le_bytes 4 (unat AUDIT_ARCH) @ le_bytes 8 ip @
     concat (map (\<lambda>a. le_bytes 8 (unat a)) args)"

primrec worst_verdict :: "u8 list \<Rightarrow> sock_filter list list \<Rightarrow> verdict option \<Rightarrow> verdict option" where
  "worst_verdict data [] worst = worst"
| "worst_verdict data (prog # progs) worst =
     (let v = from_ret (run_filter prog data) in
      worst_verdict data progs
        (case worst of
           None \<Rightarrow> Some v
         | Some w \<Rightarrow> if severity v > severity w then Some v else Some w))"

definition evaluate ::
    "(nat \<Rightarrow> sysno option) \<Rightarrow> u32 \<Rightarrow> nat \<Rightarrow> u64 list \<Rightarrow> seccomp_state \<Rightarrow> verdict option" where
  "evaluate sysno_new nr ip args s =
     (if mode s = SECCOMP_MODE_DISABLED then None
      else if mode s = SECCOMP_MODE_STRICT then
        Some (if seccomp_strict_allows sysno_new (case usize_of_nr nr of Some n \<Rightarrow> n | None \<Rightarrow> usize_max)
              then Allow else KillThread)
      else worst_verdict (seccomp_data nr ip args) (filters s) None)"

text \<open>What a refused call does: the result of the system call and the \<open>SIGSYS\<close> it raises.\<close>

record sigsys =
  force_exit :: bool
  si_errno :: nat
  si_code :: int
  si_call_addr :: nat
  si_syscall :: u32
  si_arch :: u32

definition deliver_sigsys :: "bool \<Rightarrow> u32 \<Rightarrow> nat \<Rightarrow> u16 \<Rightarrow> sigsys" where
  "deliver_sigsys fatal nr ip trap_id =
     \<lparr>force_exit = fatal, si_errno = unat trap_id, si_code = SYS_SECCOMP, si_call_addr = ip, si_syscall = nr,
      si_arch = AUDIT_ARCH\<rparr>"

definition apply_seccomp_verdict :: "verdict \<Rightarrow> u32 \<Rightarrow> nat \<Rightarrow> (errno + nat) \<times> sigsys list" where
  "apply_seccomp_verdict v nr ip =
     (case v of
        ErrnoRet data \<Rightarrow> (Inl (errno_from_ret_data data), [])
      | Trap data \<Rightarrow>
          (Inr (case usize_of_nr nr of Some n \<Rightarrow> n | None \<Rightarrow> 0), [deliver_sigsys False nr ip data])
      | Trace \<Rightarrow> (Inl ENOSYS, [deliver_sigsys True nr ip 0])
      | KillThread \<Rightarrow> (Inl ENOSYS, [deliver_sigsys True nr ip 0])
      | KillProcess \<Rightarrow> (Inl ENOSYS, [deliver_sigsys True nr ip 0])
      | Allow \<Rightarrow> (Inr 0, [])
      | LogCall \<Rightarrow> (Inr 0, []))"

section \<open>The textual form\<close>

text \<open>
  \<^verbatim>\<open>{:0nx}\<close>: lower-case hexadecimal, padded with zeros to \<open>n\<close> digits and longer when the value
  needs it; \<^verbatim>\<open>from_str_radix(s, 16)\<close>: an optional plus sign, then digits of either case, the
  value at most the maximum of the type.
\<close>

definition hex_digit :: "nat \<Rightarrow> char" where
  "hex_digit d = ''0123456789abcdef'' ! d"





definition digit_value :: "char \<Rightarrow> nat option" where
  "digit_value c =
     (let n = of_char c in
      if 48 \<le> n \<and> n \<le> 57 then Some (n - 48)
      else if 97 \<le> n \<and> n \<le> 102 then Some (n - 87)
      else if 65 \<le> n \<and> n \<le> 70 then Some (n - 55)
      else None)"










section \<open>The system calls\<close>

text \<open>
  The part of a task the calls use: its group's state, its effective capabilities and the two fields
  of its entry in the table behind \<^verbatim>\<open>/proc\<close>, if it has one. Guest memory answers reads of a
  \<open>SockFprog\<close> (its length and pointer), of a slice of instructions and of a word.
\<close>

record seccomp_task =
  seccomp :: seccomp_state
  cap_eff :: u64
  proc_entry :: "(u8 \<times> bool) option"

record guest_memory =
  read_sock_fprog :: "nat \<Rightarrow> (u16 \<times> nat) option"
  read_sock_filters :: "nat \<Rightarrow> nat \<Rightarrow> sock_filter list option"
  read_u32 :: "nat \<Rightarrow> u32 option"

definition CAP_SYS_ADMIN :: u64 where
  "CAP_SYS_ADMIN = push_bit 21 1"

definition publish_proc_seccomp :: "seccomp_task \<Rightarrow> seccomp_task" where
  "publish_proc_seccomp t =
     t\<lparr>proc_entry := map_option (\<lambda>_. (mode (seccomp t), no_new_privs (seccomp t))) (proc_entry t)\<rparr>"


definition read_fprog :: "guest_memory \<Rightarrow> nat \<Rightarrow> errno + sock_filter list" where
  "read_fprog mem args =
     (case read_sock_fprog mem args of
        None \<Rightarrow> Inl EFAULT
      | Some (len, ptr) \<Rightarrow>
          if unat len = 0 \<or> unat len > MAX_INSNS then Inl EINVAL
          else (case read_sock_filters mem ptr (unat len) of
                  None \<Rightarrow> Inl EFAULT
                | Some prog \<Rightarrow> (case validate prog of Inl e \<Rightarrow> Inl e | Inr _ \<Rightarrow> Inr prog)))"

definition check_can_install :: "seccomp_task \<Rightarrow> errno + unit" where
  "check_can_install t =
     (if no_new_privs (seccomp t) then Inr ()
      else if cap_eff t AND CAP_SYS_ADMIN \<noteq> 0 then Inr ()
      else Inl EACCES)"

text \<open>The two installing sequences, which \<open>seccomp\<close> and \<open>prctl\<close> repeat.\<close>

definition do_install_strict :: "seccomp_task \<Rightarrow> (errno + nat) \<times> seccomp_task" where
  "do_install_strict t =
     (case check_can_install t of
        Inl e \<Rightarrow> (Inl e, t)
      | Inr _ \<Rightarrow> (Inr 0, publish_proc_seccomp (t\<lparr>seccomp := install_strict (seccomp t)\<rparr>)))"

definition do_install_filter :: "guest_memory \<Rightarrow> nat \<Rightarrow> seccomp_task \<Rightarrow> (errno + nat) \<times> seccomp_task" where
  "do_install_filter mem args t =
     (case read_fprog mem args of
        Inl e \<Rightarrow> (Inl e, t)
      | Inr prog \<Rightarrow>
          (case check_can_install t of
             Inl e \<Rightarrow> (Inl e, t)
           | Inr _ \<Rightarrow> (Inr 0, publish_proc_seccomp (t\<lparr>seccomp := add_filter prog (seccomp t)\<rparr>))))"

definition sys_seccomp ::
    "guest_memory \<Rightarrow> u32 \<Rightarrow> u32 \<Rightarrow> nat \<Rightarrow> seccomp_task \<Rightarrow> (errno + nat) \<times> seccomp_task" where
  "sys_seccomp mem operation flags args t =
     (if operation = SECCOMP_SET_MODE_STRICT then
        (if flags \<noteq> 0 \<or> args \<noteq> 0 then (Inl EINVAL, t) else do_install_strict t)
      else if operation = SECCOMP_SET_MODE_FILTER then
        (if flags AND NOT (SECCOMP_FILTER_FLAG_TSYNC OR SECCOMP_FILTER_FLAG_LOG OR SECCOMP_FILTER_FLAG_SPEC_ALLOW) \<noteq> 0
         then (Inl EINVAL, t) else do_install_filter mem args t)
      else if operation = SECCOMP_GET_ACTION_AVAIL then
        (if flags \<noteq> 0 then (Inl EINVAL, t)
         else case read_u32 mem args of
                None \<Rightarrow> (Inl EFAULT, t)
              | Some action \<Rightarrow>
                  if action \<in> {SECCOMP_RET_KILL_PROCESS, SECCOMP_RET_KILL_THREAD, SECCOMP_RET_TRAP, SECCOMP_RET_ERRNO,
                      SECCOMP_RET_USER_NOTIF, SECCOMP_RET_TRACE, SECCOMP_RET_LOG, SECCOMP_RET_ALLOW}
                  then (Inr (unat action), t) else (Inl EINVAL, t))
      else (Inl EINVAL, t))"

definition do_prctl_set_seccomp ::
    "guest_memory \<Rightarrow> u32 \<Rightarrow> nat \<Rightarrow> seccomp_task \<Rightarrow> (errno + nat) \<times> seccomp_task" where
  "do_prctl_set_seccomp mem m prog t =
     (if m = ucast SECCOMP_MODE_STRICT then do_install_strict t
      else if m = ucast SECCOMP_MODE_FILTER then do_install_filter mem prog t
      else (Inl EINVAL, t))"

section \<open>The round trip of the textual form\<close>

lemma less_16_cases:
  fixes d :: nat
  assumes "d < 16"
  shows "d = 0 \<or> d = 1 \<or> d = 2 \<or> d = 3 \<or> d = 4 \<or> d = 5 \<or> d = 6 \<or> d = 7 \<or> d = 8 \<or> d = 9 \<or> d = 10 \<or>
    d = 11 \<or> d = 12 \<or> d = 13 \<or> d = 14 \<or> d = 15"
  using assms by presburger

lemma digit_value_hex [simp]: "d < 16 \<Longrightarrow> digit_value (hex_digit d) = Some d"
  by (drule less_16_cases) (elim disjE; simp add: hex_digit_def digit_value_def)














section \<open>The resolution of a filter stack\<close>

lemma mode_distinct [simp]:
  "SECCOMP_MODE_DISABLED \<noteq> SECCOMP_MODE_STRICT" "SECCOMP_MODE_STRICT \<noteq> SECCOMP_MODE_DISABLED"
  "SECCOMP_MODE_DISABLED \<noteq> SECCOMP_MODE_FILTER" "SECCOMP_MODE_FILTER \<noteq> SECCOMP_MODE_DISABLED"
  "SECCOMP_MODE_STRICT \<noteq> SECCOMP_MODE_FILTER" "SECCOMP_MODE_FILTER \<noteq> SECCOMP_MODE_STRICT"
  by (simp_all add: SECCOMP_MODE_DISABLED_def SECCOMP_MODE_STRICT_def SECCOMP_MODE_FILTER_def)

text \<open>The verdict of one program on the data of a call.\<close>

abbreviation prog_verdict :: "u8 list \<Rightarrow> sock_filter list \<Rightarrow> verdict" where
  "prog_verdict data prog \<equiv> from_ret (run_filter prog data)"

lemma worst_verdict_first:
  "\<exists>v before after. worst_verdict data progs (Some w) = Some v \<and>
     w # map (prog_verdict data) progs = before @ v # after \<and>
     (\<forall>u \<in> set before. severity u < severity v) \<and> (\<forall>u \<in> set after. severity u \<le> severity v)"
proof (induction progs arbitrary: w)
  case (Cons p ps)
  define x where "x = prog_verdict data p"
  show ?case
  proof (cases "severity x > severity w")
    case True
    obtain v before after where v: "worst_verdict data ps (Some x) = Some v"
      "x # map (prog_verdict data) ps = before @ v # after"
      "\<forall>u \<in> set before. severity u < severity v" "\<forall>u \<in> set after. severity u \<le> severity v"
      using Cons.IH [of x] by blast
    have "severity w < severity v" using v(2,3) True by (cases before) auto
    then show ?thesis using v True
      by (intro exI [of _ v] exI [of _ "w # before"] exI [of _ after]) (simp add: x_def [symmetric])
  next
    case False
    obtain v before after where v: "worst_verdict data ps (Some w) = Some v"
      "w # map (prog_verdict data) ps = before @ v # after"
      "\<forall>u \<in> set before. severity u < severity v" "\<forall>u \<in> set after. severity u \<le> severity v"
      using Cons.IH [of w] by blast
    show ?thesis
    proof (cases before)
      case Nil
      then show ?thesis using v False
        by (intro exI [of _ v] exI [of _ "[]"] exI [of _ "x # after"]) (simp add: x_def [symmetric])
    next
      case (Cons y bs)
      then show ?thesis using v False
        by (intro exI [of _ v] exI [of _ "w # x # bs"] exI [of _ after]) (simp add: x_def [symmetric])
    qed
  qed
next
  case Nil
  show ?case by (intro exI [of _ w] exI [of _ "[]"]) simp
qed


lemma evaluate_filter_mode:
  "mode s = SECCOMP_MODE_FILTER \<Longrightarrow>
     evaluate sysno_new nr ip args s = worst_verdict (seccomp_data nr ip args) (filters s) None"
  by (simp add: evaluate_def)

lemma length_le_bytes [simp]: "length (le_bytes n v) = n"
  by (induction n arbitrary: v) auto

text \<open>C31: in filter mode with at least one filter, a call gets the verdict of one of the installed
  programs, run on the 64 bytes of its number, architecture, address and arguments: one that no
  other exceeds in severity, and on a tie the most recently installed.\<close>

theorem seccomp_most_severe_wins:
  assumes "mode s = SECCOMP_MODE_FILTER" and "filters s \<noteq> []" and "length args = 6"
  shows "length (seccomp_data nr ip args) = SECCOMP_DATA_LEN \<and>
    (\<exists>v before after. evaluate sysno_new nr ip args s = Some v \<and>
       map (prog_verdict (seccomp_data nr ip args)) (filters s) = before @ v # after \<and>
       (\<forall>u \<in> set before. severity u < severity v) \<and> (\<forall>u \<in> set after. severity u \<le> severity v))"
proof -
  obtain p ps where "filters s = p # ps" using assms(2) by (cases "filters s") auto
  moreover have "length (concat (map (\<lambda>a. le_bytes 8 (unat a)) args)) = 48"
    using assms(3) by (simp add: length_concat o_def sum_list_triv)
  ultimately show ?thesis
    using evaluate_filter_mode [OF assms(1)] worst_verdict_first [of "seccomp_data nr ip args" ps]
    by (simp add: Let_def seccomp_data_def SECCOMP_DATA_LEN_def)
qed

theorem seccomp_most_severe_wins_witness:
  "let s = \<lparr>mode = SECCOMP_MODE_FILTER, no_new_privs = True,
            filters = [[\<lparr>sf_code = 6, sf_jt = 0, sf_jf = 0, sf_k = 0x50001\<rparr>], [\<lparr>sf_code = 6, sf_jt = 0, sf_jf = 0, sf_k = 0x7fff0000\<rparr>]]\<rparr>;
       args = replicate 6 (0 :: u64) in
   mode s = SECCOMP_MODE_FILTER \<and> filters s \<noteq> [] \<and> length args = 6 \<and>
   (\<exists>v before after. evaluate (\<lambda>_. None) 0 0 args s = Some v \<and>
       map (prog_verdict (seccomp_data 0 0 args)) (filters s) = before @ v # after \<and>
       (\<forall>u \<in> set before. severity u < severity v) \<and> (\<forall>u \<in> set after. severity u \<le> severity v))"
  unfolding Let_def
  by (intro conjI seccomp_most_severe_wins [THEN conjunct2]) simp_all



section \<open>The life of a thread group\<close>





definition seccomp_boot :: "u64 \<Rightarrow> seccomp_task" where
  "seccomp_boot caps = \<lparr>seccomp = seccomp_new, cap_eff = caps, proc_entry = None\<rparr>"


text \<open>The outcomes of a call that may install something.\<close>

lemma read_fprog_validated: "read_fprog mem args = Inr prog \<Longrightarrow> validate prog = Inr ()"
  by (auto simp: read_fprog_def split: option.splits if_splits sum.splits)

lemma do_install_strict_cases:
  obtains (refused) e where "do_install_strict t = (Inl e, t)"
  | (granted) "check_can_install t = Inr ()"
      "do_install_strict t = (Inr 0, publish_proc_seccomp (t\<lparr>seccomp := install_strict (seccomp t)\<rparr>))"
  by (cases "check_can_install t") (auto simp: do_install_strict_def)

lemma do_install_filter_cases:
  obtains (refused) e where "do_install_filter mem args t = (Inl e, t)"
  | (granted) prog where "check_can_install t = Inr ()" "validate prog = Inr ()"
      "do_install_filter mem args t = (Inr 0, publish_proc_seccomp (t\<lparr>seccomp := add_filter prog (seccomp t)\<rparr>))"
  by (cases "read_fprog mem args"; cases "check_can_install t")
    (auto simp: do_install_filter_def dest: read_fprog_validated)

lemma sys_seccomp_cases:
  obtains (unchanged) r where "sys_seccomp mem operation flags args t = (r, t)"
  | (strict) "sys_seccomp mem operation flags args t = do_install_strict t"
  | (filter) "sys_seccomp mem operation flags args t = do_install_filter mem args t"
proof -
  have "(\<exists>r. sys_seccomp mem operation flags args t = (r, t)) \<or>
      sys_seccomp mem operation flags args t = do_install_strict t \<or>
      sys_seccomp mem operation flags args t = do_install_filter mem args t"
    by (simp add: sys_seccomp_def split: option.split)
  then show thesis using that by blast
qed


















section \<open>Refusals\<close>

lemma do_install_strict_refuses:
  "snd (do_install_strict t) \<noteq> t \<Longrightarrow> fst (do_install_strict t) = Inr 0 \<and> check_can_install t = Inr ()"
  by (rule do_install_strict_cases [of t]) simp_all

lemma do_install_filter_refuses:
  "snd (do_install_filter mem args t) \<noteq> t \<Longrightarrow>
     fst (do_install_filter mem args t) = Inr 0 \<and> check_can_install t = Inr ()"
  by (rule do_install_filter_cases [of mem args t]) simp_all

lemma sys_seccomp_refuses:
  "snd (sys_seccomp mem operation flags args t) \<noteq> t \<Longrightarrow>
     fst (sys_seccomp mem operation flags args t) = Inr 0 \<and> check_can_install t = Inr ()"
  by (rule sys_seccomp_cases [of mem operation flags args t])
    (simp_all add: do_install_strict_refuses do_install_filter_refuses)

lemma install_filter_calls:
  "sys_seccomp mem SECCOMP_SET_MODE_FILTER 0 args t = do_install_filter mem args t"
  "do_prctl_set_seccomp mem 2 args t = do_install_filter mem args t"
  by (simp_all add: sys_seccomp_def do_prctl_set_seccomp_def SECCOMP_SET_MODE_FILTER_def SECCOMP_SET_MODE_STRICT_def
      SECCOMP_MODE_STRICT_def SECCOMP_MODE_FILTER_def)

text \<open>a call of \<open>seccomp\<close> that changes anything succeeded and was privileged, so every error leaves the
  task as it was. An unreadable program answers \<open>EFAULT\<close> from both entry points whatever the caller's
  privileges, and a readable, valid one from an unprivileged caller answers \<open>EACCES\<close>.\<close>

theorem seccomp_install_errors:
  "(snd (sys_seccomp mem operation flags args t) \<noteq> t \<longrightarrow>
      fst (sys_seccomp mem operation flags args t) = Inr 0 \<and> check_can_install t = Inr ()) \<and>
   (read_sock_fprog mem args = None \<longrightarrow>
      sys_seccomp mem SECCOMP_SET_MODE_FILTER 0 args t = (Inl EFAULT, t) \<and>
      do_prctl_set_seccomp mem 2 args t = (Inl EFAULT, t)) \<and>
   (read_fprog mem args = Inr prog \<and> \<not> no_new_privs (seccomp t) \<and> cap_eff t AND CAP_SYS_ADMIN = 0 \<longrightarrow>
      sys_seccomp mem SECCOMP_SET_MODE_FILTER 0 args t = (Inl EACCES, t) \<and>
      do_prctl_set_seccomp mem 2 args t = (Inl EACCES, t))"
  using sys_seccomp_refuses [of mem operation flags args t]
  by (auto simp: install_filter_calls do_install_filter_def read_fprog_def check_can_install_def)

theorem seccomp_install_errors_witness:
  "let mem = \<lparr>read_sock_fprog = (\<lambda>_. None), read_sock_filters = (\<lambda>_ _. None), read_u32 = (\<lambda>_. None)\<rparr> in
   read_sock_fprog mem 0 = None \<and>
   sys_seccomp mem SECCOMP_SET_MODE_FILTER 0 0 (seccomp_boot 0) = (Inl EFAULT, seccomp_boot 0) \<and>
   do_prctl_set_seccomp mem 2 0 (seccomp_boot 0) = (Inl EFAULT, seccomp_boot 0)"
  unfolding Let_def
  using seccomp_install_errors
    [of "\<lparr>read_sock_fprog = (\<lambda>_. None), read_sock_filters = (\<lambda>_ _. None), read_u32 = (\<lambda>_. None)\<rparr>" 0 0 0 "seccomp_boot 0" "[]"]
  by simp

end
