(* ===== verification/PidNs.thy ===== *)
theory PidNs
  imports Prelude
begin

text \<open>
  Process-number namespaces, \<^verbatim>\<open>litebox_shim_linux/src/syscalls/pidns.rs\<close>. A flat table of rows says which number a
  process has in which namespace; a namespace is a slot with its parent and a counter. Each operation is one step; the
  statistics that are only logged are left out. A namespace id is the index of its slot plus one, and 0 is the initial
  namespace, which has no slot. Process numbers are integers in the range of \<^verbatim>\<open>i32\<close>.
\<close>

section \<open>The table\<close>

record namespace_slot =
  ns_in_use :: bool
  ns_parent :: nat
  ns_next_pid :: int
  ns_sealed :: bool

record member_slot =
  row_ns_pid :: int
  row_ns :: nat
  row_internal :: int

record pidns_table =
  namespaces :: "namespace_slot list"
  members :: "member_slot list"
  destroyed :: nat
  creates :: nat

definition INITIAL_NS :: nat where "INITIAL_NS = 0"

definition MAX_NAMESPACES :: nat where "MAX_NAMESPACES = 256"

definition MAX_MEMBERS :: nat where "MAX_MEMBERS = 2048"

definition FREE_PID :: int where "FREE_PID = 0"

definition free_namespace :: namespace_slot where
  "free_namespace = \<lparr>ns_in_use = False, ns_parent = INITIAL_NS, ns_next_pid = 1, ns_sealed = False\<rparr>"

definition free_member :: member_slot where
  "free_member = \<lparr>row_ns_pid = FREE_PID, row_ns = INITIAL_NS, row_internal = FREE_PID\<rparr>"

definition pidns_new :: pidns_table where
  "pidns_new = \<lparr>namespaces = replicate MAX_NAMESPACES free_namespace, members = replicate MAX_MEMBERS free_member,
     destroyed = 0, creates = 0\<rparr>"

definition ns_slot :: "pidns_table \<Rightarrow> nat \<Rightarrow> namespace_slot option" where
  "ns_slot t ns = (if ns = INITIAL_NS then None else slice_get (namespaces t) (ns - 1))"

definition set_ns_slot :: "nat \<Rightarrow> namespace_slot \<Rightarrow> pidns_table \<Rightarrow> pidns_table" where
  "set_ns_slot ns s t = t\<lparr>namespaces := (namespaces t)[ns - 1 := s]\<rparr>"

text \<open>A row that is in use, and the end of some of them.\<close>

abbreviation live_row :: "member_slot \<Rightarrow> bool" where
  "live_row r \<equiv> row_ns_pid r \<noteq> FREE_PID"

definition free_rows :: "(member_slot \<Rightarrow> bool) \<Rightarrow> pidns_table \<Rightarrow> pidns_table" where
  "free_rows P t = t\<lparr>members := map (\<lambda>r. if live_row r \<and> P r then free_member else r) (members t)\<rparr>"

definition is_referenced :: "pidns_table \<Rightarrow> nat \<Rightarrow> bool" where
  "is_referenced t ns = list_ex (\<lambda>r. live_row r \<and> row_ns r = ns) (members t)"

definition pidns_parent_of :: "pidns_table \<Rightarrow> nat \<Rightarrow> nat" where
  "pidns_parent_of t ns = (case ns_slot t ns of Some s \<Rightarrow> ns_parent s | None \<Rightarrow> INITIAL_NS)"

section \<open>Namespaces\<close>

definition pidns_claim :: "nat \<Rightarrow> bool \<Rightarrow> pidns_table \<Rightarrow> nat option \<times> pidns_table" where
  "pidns_claim parent skip_referenced t =
     (case find (\<lambda>i. \<not> ns_in_use (namespaces t ! i) \<and> \<not> (skip_referenced \<and> is_referenced t (i + 1))) [0..<length (namespaces t)] of
        None \<Rightarrow> (None, t)
      | Some i \<Rightarrow>
          (Some (i + 1),
           set_ns_slot (i + 1) \<lparr>ns_in_use = True, ns_parent = parent, ns_next_pid = 1, ns_sealed = False\<rparr> t))"

definition any_live :: "(int \<Rightarrow> bool) \<Rightarrow> nat \<Rightarrow> pidns_table \<Rightarrow> bool" where
  "any_live alive ns t = list_ex (\<lambda>r. live_row r \<and> row_ns r = ns \<and> row_internal r > 0 \<and> alive (row_internal r)) (members t)"

primrec reclaim_loop :: "(int \<Rightarrow> bool) \<Rightarrow> nat list \<Rightarrow> nat \<Rightarrow> pidns_table \<Rightarrow> nat \<times> pidns_table" where
  "reclaim_loop alive [] freed t = (freed, t)"
| "reclaim_loop alive (i # is) freed t =
     (let s = namespaces t ! i; ns = i + 1 in
      if \<not> ns_in_use s \<or> \<not> ns_sealed s \<or> any_live alive ns t then reclaim_loop alive is freed t
      else reclaim_loop alive is (freed + 1) (set_ns_slot ns free_namespace (free_rows (\<lambda>r. row_ns r = ns) t)))"

definition reclaim_dead :: "(int \<Rightarrow> bool) \<Rightarrow> pidns_table \<Rightarrow> nat \<times> pidns_table" where
  "reclaim_dead alive t = reclaim_loop alive [0..<length (namespaces t)] 0 t"

definition pidns_create :: "nat \<Rightarrow> (int \<Rightarrow> bool) \<Rightarrow> bool \<Rightarrow> pidns_table \<Rightarrow> nat option \<times> pidns_table" where
  "pidns_create parent alive reclaim t =
     (let seen = creates t;
          t = t\<lparr>creates := (seen + 1) mod 2 ^ 32\<rparr>;
          t = (if reclaim \<and> seen mod 64 = 0 then snd (reclaim_dead alive t) else t) in
      case pidns_claim parent True t of
        (Some ns, t) \<Rightarrow> (Some ns, t)
      | (None, t) \<Rightarrow>
          (case pidns_claim parent False t of
             (Some ns, t) \<Rightarrow> (Some ns, t)
           | (None, t) \<Rightarrow>
               if reclaim
               then let (reclaimed, t) = reclaim_dead alive t in
                    if reclaimed > 0 then pidns_claim parent False t else (None, t)
               else (None, t)))"

definition init_exited :: "nat \<Rightarrow> pidns_table \<Rightarrow> pidns_table" where
  "init_exited ns t =
     (let t = free_rows (\<lambda>r. row_ns r = ns) t in
      if is_referenced t ns then t
      else case ns_slot t ns of
             None \<Rightarrow> t
           | Some s \<Rightarrow> (set_ns_slot ns free_namespace t)\<lparr>destroyed := destroyed t + 1\<rparr>)"

section \<open>Processes\<close>

definition register :: "int \<Rightarrow> nat \<Rightarrow> int \<Rightarrow> pidns_table \<Rightarrow> pidns_table option" where
  "register ns_pid ns internal t =
     (case find (\<lambda>i. \<not> live_row (members t ! i)) [0..<length (members t)] of
        None \<Rightarrow> None
      | Some i \<Rightarrow> Some (t\<lparr>members := (members t)[i := \<lparr>row_ns_pid = ns_pid, row_ns = ns, row_internal = internal\<rparr>]\<rparr>))"

text \<open>\<^verbatim>\<open>AtomicI32::fetch_add\<close> wraps.\<close>

definition i32_wrap :: "int \<Rightarrow> int" where
  "i32_wrap n = (n + 2 ^ 31) mod 2 ^ 32 - 2 ^ 31"

definition free_count :: "pidns_table \<Rightarrow> nat" where
  "free_count t = length (filter (\<lambda>r. \<not> live_row r) (members t))"

lemma register_free_count:
  assumes "register n ns ip t = Some t'" and "n \<noteq> FREE_PID"
  shows "Suc (free_count t') = free_count t"
proof -
  obtain i where i: "i < length (members t)" "\<not> live_row (members t ! i)"
    and t': "t' = t\<lparr>members := (members t)[i := \<lparr>row_ns_pid = n, row_ns = ns, row_internal = ip\<rparr>]\<rparr>"
    using assms(1) by (auto simp: register_def find_Some_iff split: option.splits)
  let ?l = "members t" and ?x = "\<lparr>row_ns_pid = n, row_ns = ns, row_internal = ip\<rparr>"
  have "?l = take i ?l @ ?l ! i # drop (Suc i) ?l" using i(1) by (rule id_take_nth_drop)
  then have "free_count t = length (filter (\<lambda>r. \<not> live_row r) (take i ?l @ ?l ! i # drop (Suc i) ?l))" by (simp add: free_count_def)
  moreover have "free_count t' = length (filter (\<lambda>r. \<not> live_row r) (take i ?l @ ?x # drop (Suc i) ?l))"
    using i(1) by (simp add: free_count_def t' upd_conv_take_nth_drop)
  ultimately show ?thesis using i(2) assms(2) by simp
qed

text \<open>Up the chain of parents: a row at every level, until the initial namespace or until there is none left.\<close>

function allocate_loop :: "nat \<Rightarrow> int \<Rightarrow> int option \<Rightarrow> pidns_table \<Rightarrow> int option \<times> pidns_table" where
  "allocate_loop current internal own t =
     (case ns_slot t current of
        None \<Rightarrow> (Some (case own of Some p \<Rightarrow> p | None \<Rightarrow> internal), t)
      | Some s \<Rightarrow>
          let pid = ns_next_pid s;
              t = set_ns_slot current (s\<lparr>ns_next_pid := i32_wrap (pid + 1)\<rparr>) t in
          if pid \<le> 0 then (None, t)
          else case register pid current internal t of
                 None \<Rightarrow> (None, t)
               | Some t \<Rightarrow>
                   allocate_loop (ns_parent s) internal (Some (case own of Some p \<Rightarrow> p | None \<Rightarrow> pid))
                     (set_ns_slot current (s\<lparr>ns_next_pid := i32_wrap (pid + 1), ns_sealed := True\<rparr>) t))"
  by auto
termination
proof (relation "measure (\<lambda>(_, _, _, t). free_count t)", simp)
  fix current :: nat and internal own t s pid t1 t2
  assume "pid = ns_next_pid s" "t1 = set_ns_slot current (s\<lparr>ns_next_pid := i32_wrap (pid + 1)\<rparr>) t" "\<not> pid \<le> (0 :: int)"
    and r: "register pid current internal t1 = Some t2"
  then have "pid \<noteq> FREE_PID" by (simp add: FREE_PID_def)
  from register_free_count [OF r this] show "((ns_parent s, internal, Some (case own of None \<Rightarrow> pid | Some p \<Rightarrow> p),
      set_ns_slot current (s\<lparr>ns_next_pid := i32_wrap (pid + 1), ns_sealed := True\<rparr>) t2), current, internal, own, t)
      \<in> measure (\<lambda>(_, _, _, t). free_count t)"
    using \<open>t1 = _\<close> by (simp add: free_count_def set_ns_slot_def)
qed

declare allocate_loop.simps [simp del]

definition pidns_allocate :: "nat \<Rightarrow> int \<Rightarrow> pidns_table \<Rightarrow> int option \<times> pidns_table" where
  "pidns_allocate ns internal t = (if internal \<le> 0 then (None, t) else allocate_loop ns internal None t)"

definition pidns_release :: "int \<Rightarrow> pidns_table \<Rightarrow> pidns_table" where
  "pidns_release internal t = free_rows (\<lambda>r. row_internal r = internal) t"

definition pid_in :: "pidns_table \<Rightarrow> int \<Rightarrow> nat \<Rightarrow> int option" where
  "pid_in t internal ns =
     (if ns = INITIAL_NS then Some internal
      else map_option row_ns_pid (find (\<lambda>r. live_row r \<and> row_ns r = ns \<and> row_internal r = internal) (members t)))"



section \<open>Rows\<close>

text \<open>The rows in use: namespace, number in it, internal number.\<close>

definition rows :: "pidns_table \<Rightarrow> (nat \<times> int \<times> int) set" where
  "rows t = (\<lambda>r. (row_ns r, row_ns_pid r, row_internal r)) ` {r \<in> set (members t). live_row r}"

lemma rows_namespaces [simp]: "rows (t\<lparr>namespaces := x\<rparr>) = rows t" "rows (t\<lparr>creates := c\<rparr>) = rows t" "rows (t\<lparr>destroyed := d\<rparr>) = rows t"
  by (simp_all add: rows_def)

lemma rows_set_ns_slot [simp]: "rows (set_ns_slot ns s t) = rows t"
  by (simp add: set_ns_slot_def)

lemma rows_free_rows:
  "rows (free_rows (\<lambda>r. row_ns r = k) t) = {(ns, n, ip) \<in> rows t. ns \<noteq> k}"
  "rows (free_rows (\<lambda>r. row_internal r = i) t) = {(ns, n, ip) \<in> rows t. ip \<noteq> i}"
  by (fastforce simp: rows_def free_rows_def free_member_def)+

lemma free_rows_namespaces [simp]:
  "namespaces (free_rows P t) = namespaces t" "ns_slot (free_rows P t) ns = ns_slot t ns" "destroyed (free_rows P t) = destroyed t"
  by (simp_all add: free_rows_def ns_slot_def)

lemma is_referenced_rows: "is_referenced t ns \<longleftrightarrow> (\<exists>n ip. (ns, n, ip) \<in> rows t)"
  by (auto simp: is_referenced_def list_ex_iff rows_def)

lemma any_live_rows: "any_live alive ns t \<longleftrightarrow> (\<exists>n ip. (ns, n, ip) \<in> rows t \<and> 0 < ip \<and> alive ip)"
  by (auto simp: any_live_def list_ex_iff rows_def)

lemma register_rows:
  assumes "register n ns ip t = Some t'" and "n \<noteq> FREE_PID"
  shows "rows t' = insert (ns, n, ip) (rows t)" and "namespaces t' = namespaces t"
proof -
  obtain i where i: "i < length (members t)" "\<not> live_row (members t ! i)"
    and t': "t' = t\<lparr>members := (members t)[i := \<lparr>row_ns_pid = n, row_ns = ns, row_internal = ip\<rparr>]\<rparr>"
    using assms(1) by (auto simp: register_def find_Some_iff split: option.splits)
  have m: "members t = take i (members t) @ members t ! i # drop (Suc i) (members t)" using i(1) by (rule id_take_nth_drop)
  have "set (members t) = set (take i (members t)) \<union> {members t ! i} \<union> set (drop (Suc i) (members t))"
    by (subst m) simp
  moreover have "set (members t') = set (take i (members t)) \<union> {\<lparr>row_ns_pid = n, row_ns = ns, row_internal = ip\<rparr>} \<union> set (drop (Suc i) (members t))"
    using i(1) by (simp add: t' upd_conv_take_nth_drop)
  ultimately have "{r \<in> set (members t'). live_row r} = insert \<lparr>row_ns_pid = n, row_ns = ns, row_internal = ip\<rparr> {r \<in> set (members t). live_row r}"
    using i(2) assms(2) by auto
  then show "rows t' = insert (ns, n, ip) (rows t)" by (simp add: rows_def)
  show "namespaces t' = namespaces t" by (simp add: t')
qed

section \<open>The invariant\<close>

lemma ns_slot_set:
  "ns_slot t ns = Some s \<Longrightarrow> ns_slot (set_ns_slot ns s' t) k = (if k = ns then Some s' else ns_slot t k)"
  by (auto simp: ns_slot_def set_ns_slot_def slice_get_def nth_list_update INITIAL_NS_def split: if_splits)

lemma ns_slot_other [simp]: "ns_slot (t\<lparr>creates := c\<rparr>) ns = ns_slot t ns" "ns_slot (t\<lparr>destroyed := d\<rparr>) ns = ns_slot t ns"
  by (simp_all add: ns_slot_def)

definition used :: "pidns_table \<Rightarrow> nat \<Rightarrow> bool" where
  "used t ns = (case ns_slot t ns of Some s \<Rightarrow> ns_in_use s | None \<Rightarrow> False)"

text \<open>
  Namespaces in use are nested in namespaces in use, without cycles; a row belongs to such a namespace and its number
  has been handed out; in a namespace, numbers and processes correspond one to one; a process of the given ones that is known in a
  namespace is known in the one it is nested in.
\<close>

definition chained :: "(nat \<Rightarrow> nat) \<Rightarrow> pidns_table \<Rightarrow> bool" where
  "chained rank t \<longleftrightarrow>
     (\<forall>ns. used t ns \<longrightarrow> pidns_parent_of t ns = INITIAL_NS \<or> used t (pidns_parent_of t ns) \<and> rank (pidns_parent_of t ns) < rank ns)"

definition rows_ok :: "pidns_table \<Rightarrow> bool" where
  "rows_ok t \<longleftrightarrow>
     (\<forall>ns s. ns_slot t ns = Some s \<longrightarrow> ns_next_pid s < 2 ^ 31) \<and>
     (\<forall>ns n ip. (ns, n, ip) \<in> rows t \<longrightarrow>
        0 < n \<and> (\<exists>s. ns_slot t ns = Some s \<and> ns_in_use s \<and> ns_sealed s \<and> (n < ns_next_pid s \<or> ns_next_pid s \<le> 0))) \<and>
     (\<forall>ns n ip ip'. (ns, n, ip) \<in> rows t \<longrightarrow> (ns, n, ip') \<in> rows t \<longrightarrow> ip = ip') \<and>
     (\<forall>ns n n' ip. (ns, n, ip) \<in> rows t \<longrightarrow> (ns, n', ip) \<in> rows t \<longrightarrow> n = n')"

lemma rows_okI:
  assumes "\<And>ns s. ns_slot t ns = Some s \<Longrightarrow> ns_next_pid s < 2 ^ 31" and "\<And>ns n ip. (ns, n, ip) \<in> rows t \<Longrightarrow> 0 < n"
    and "\<And>ns n ip. (ns, n, ip) \<in> rows t \<Longrightarrow> \<exists>s. ns_slot t ns = Some s \<and> ns_in_use s \<and> ns_sealed s \<and> (n < ns_next_pid s \<or> ns_next_pid s \<le> 0)"
    and "\<And>ns n ip ip'. (ns, n, ip) \<in> rows t \<Longrightarrow> (ns, n, ip') \<in> rows t \<Longrightarrow> ip = ip'"
    and "\<And>ns n n' ip. (ns, n, ip) \<in> rows t \<Longrightarrow> (ns, n', ip) \<in> rows t \<Longrightarrow> n = n'"
  shows "rows_ok t"
  using assms unfolding rows_ok_def by blast

lemma rows_okD:
  assumes "rows_ok t"
  shows "ns_slot t ns = Some s \<Longrightarrow> ns_next_pid s < 2 ^ 31" and "(ns, n, ip) \<in> rows t \<Longrightarrow> 0 < n"
    and "(ns, n, ip) \<in> rows t \<Longrightarrow> \<exists>s. ns_slot t ns = Some s \<and> ns_in_use s \<and> ns_sealed s \<and> (n < ns_next_pid s \<or> ns_next_pid s \<le> 0)"
    and "(ns, n, ip) \<in> rows t \<Longrightarrow> (ns, n, ip') \<in> rows t \<Longrightarrow> ip = ip'"
    and "(ns, n, ip) \<in> rows t \<Longrightarrow> (ns, n', ip) \<in> rows t \<Longrightarrow> n = n'"
  using assms unfolding rows_ok_def by blast+

definition visible :: "int set \<Rightarrow> pidns_table \<Rightarrow> bool" where
  "visible ps t \<longleftrightarrow>
     (\<forall>ns n ip. (ns, n, ip) \<in> rows t \<longrightarrow> ip \<in> ps \<longrightarrow>
        pidns_parent_of t ns = INITIAL_NS \<or> (\<exists>m. (pidns_parent_of t ns, m, ip) \<in> rows t))"

definition pidns_ok :: "pidns_table \<Rightarrow> int set \<Rightarrow> bool" where
  "pidns_ok t ps \<longleftrightarrow> (\<exists>rank. chained rank t) \<and> rows_ok t \<and> visible ps t"

text \<open>The two lookups read the rows.\<close>

lemma pid_in_rows:
  assumes "rows_ok t" and "ns \<noteq> INITIAL_NS"
  shows "pid_in t ip ns = Some n \<longleftrightarrow> (ns, n, ip) \<in> rows t"
proof
  assume "pid_in t ip ns = Some n"
  then show "(ns, n, ip) \<in> rows t" using assms(2) by (auto simp: pid_in_def rows_def dest!: find_SomeD)
next
  assume r: "(ns, n, ip) \<in> rows t"
  then obtain x where x: "find (\<lambda>r. live_row r \<and> row_ns r = ns \<and> row_internal r = ip) (members t) = Some x"
    by (cases "find (\<lambda>r. live_row r \<and> row_ns r = ns \<and> row_internal r = ip) (members t)") (auto simp: find_None_iff rows_def)
  then have "(ns, row_ns_pid x, ip) \<in> rows t" by (auto simp: rows_def dest!: find_SomeD)
  with r assms x show "pid_in t ip ns = Some n" unfolding rows_ok_def pid_in_def by auto
qed




section \<open>Namespaces come and go\<close>

lemma slot_of_used: "used t ns \<longleftrightarrow> (\<exists>s. ns_slot t ns = Some s \<and> ns_in_use s)"
  by (auto simp: used_def split: option.splits)

lemma rows_used: "rows_ok t \<Longrightarrow> (ns, n, ip) \<in> rows t \<Longrightarrow> used t ns"
  unfolding rows_ok_def slot_of_used by blast

lemma rows_ok_fewer:
  assumes r: "rows_ok t" and "rows t' \<subseteq> rows t" and b: "\<And>ns s. ns_slot t' ns = Some s \<Longrightarrow> ns_next_pid s < 2 ^ 31"
    and same: "\<And>ns n ip. (ns, n, ip) \<in> rows t' \<Longrightarrow> ns_slot t' ns = ns_slot t ns"
  shows "rows_ok t'"
proof -
  have sub: "x \<in> rows t' \<Longrightarrow> x \<in> rows t" for x using assms(2) by auto
  show ?thesis
  proof (rule rows_okI, rule b)
    fix ns n ip
    assume a: "(ns, n, ip) \<in> rows t'"
    show "0 < n" using rows_okD(2) [OF r sub [OF a]] .
    show "\<exists>s. ns_slot t' ns = Some s \<and> ns_in_use s \<and> ns_sealed s \<and> (n < ns_next_pid s \<or> ns_next_pid s \<le> 0)"
      unfolding same [OF a] using rows_okD(3) [OF r sub [OF a]] .
  qed (use rows_okD(4,5) [OF r] sub in \<open>blast+\<close>)
qed

text \<open>Some namespaces are freed with their rows, and what stays is not nested in one of them.\<close>

lemma pidns_ok_without:
  assumes ok: "pidns_ok t ps"
    and slots: "\<And>ns. ns_slot t' ns = (if ns \<in> F then Some free_namespace else ns_slot t ns)"
    and rows: "rows t' = {(ns, n, ip) \<in> rows t. ns \<notin> F}"
    and nested: "\<And>ns. used t ns \<Longrightarrow> pidns_parent_of t ns \<in> F \<Longrightarrow> ns \<in> F"
  shows "pidns_ok t' ps"
proof -
  obtain rank where c: "chained rank t" and r: "rows_ok t" and v: "visible ps t" using ok by (auto simp: pidns_ok_def)
  have u: "used t' ns \<longleftrightarrow> used t ns \<and> ns \<notin> F" for ns by (auto simp: used_def slots free_namespace_def)
  have p: "pidns_parent_of t' ns = pidns_parent_of t ns" if "ns \<notin> F" for ns using that by (simp add: pidns_parent_of_def slots)
  have "chained rank t'" using c nested unfolding chained_def u by (metis p)
  moreover have "rows_ok t'"
    by (rule rows_ok_fewer [OF r]) (use rows_okD(1) [OF r] in \<open>auto simp: rows slots free_namespace_def split: if_splits\<close>)
  moreover have "visible ps t'"
    unfolding visible_def
  proof (intro allI impI)
    fix ns n ip
    assume "(ns, n, ip) \<in> rows t'" "ip \<in> ps"
    then have m: "(ns, n, ip) \<in> rows t" "ns \<notin> F" "ip \<in> ps" by (auto simp: rows)
    moreover have "pidns_parent_of t ns \<notin> F" using nested [of ns] rows_used [OF r m(1)] m(2) by blast
    ultimately show "pidns_parent_of t' ns = INITIAL_NS \<or> (\<exists>m. (pidns_parent_of t' ns, m, ip) \<in> rows t')"
      using v p unfolding visible_def rows by fastforce
  qed
  ultimately show ?thesis by (auto simp: pidns_ok_def)
qed

lemma init_exited_ok:
  assumes ok: "pidns_ok t ps" and "used t k" and "\<And>ns. used t ns \<Longrightarrow> pidns_parent_of t ns \<noteq> k"
  shows "pidns_ok (init_exited k t) ps"
proof -
  obtain s where s: "ns_slot t k = Some s" using assms(2) by (auto simp: slot_of_used)
  have nr: "\<not> is_referenced (free_rows (\<lambda>r. row_ns r = k) t) k" by (auto simp: is_referenced_rows rows_free_rows)
  have e: "init_exited k t = (set_ns_slot k free_namespace (free_rows (\<lambda>r. row_ns r = k) t))\<lparr>destroyed := destroyed t + 1\<rparr>"
    using s nr by (simp add: init_exited_def Let_def)
  have "ns_slot (init_exited k t) ns = (if ns \<in> {k} then Some free_namespace else ns_slot t ns)" for ns
    unfolding e using ns_slot_set [of "free_rows (\<lambda>r. row_ns r = k) t" k s free_namespace ns] s by simp
  then show ?thesis by (rule pidns_ok_without [OF ok, of _ "{k}"]) (use assms(3) in \<open>auto simp: e rows_free_rows\<close>)
qed

text \<open>A sealed namespace without a process that exists.\<close>

definition dead :: "(int \<Rightarrow> bool) \<Rightarrow> pidns_table \<Rightarrow> nat \<Rightarrow> bool" where
  "dead alive t ns \<longleftrightarrow> (\<exists>s. ns_slot t ns = Some s \<and> ns_in_use s \<and> ns_sealed s) \<and> \<not> any_live alive ns t"

lemma reclaim_loop_spec:
  assumes "\<forall>i \<in> set is. i < length (namespaces t)" and "reclaim_loop alive is freed t = (f, t')"
  shows "(\<forall>ns. ns_slot t' ns = (if dead alive t ns \<and> ns - 1 \<in> set is then Some free_namespace else ns_slot t ns)) \<and>
    rows t' = {(ns, n, ip) \<in> rows t. \<not> (dead alive t ns \<and> ns - 1 \<in> set is)}"
  using assms
proof (induction "is" arbitrary: t freed)
  case (Cons i "is")
  let ?k = "i + 1" and ?s = "namespaces t ! i"
  let ?t = "set_ns_slot ?k free_namespace (free_rows (\<lambda>r. row_ns r = ?k) t)"
  have slot: "ns_slot t ?k = Some ?s" using Cons.prems(1) by (simp add: ns_slot_def INITIAL_NS_def)
  have nz: "dead alive t ns \<Longrightarrow> ns - 1 = i \<longleftrightarrow> ns = ?k" for ns by (auto simp: dead_def ns_slot_def INITIAL_NS_def split: if_splits)
  have m: "dead alive t ns \<and> ns - 1 \<in> set (i # is) \<longleftrightarrow> dead alive t ns \<and> (ns = ?k \<or> ns - 1 \<in> set is)" for ns using nz [of ns] by auto
  show ?case
  proof (cases "dead alive t ?k")
    case False
    then have "reclaim_loop alive is freed t = (f, t')" using Cons.prems(2) slot by (auto simp: dead_def Let_def)
    with Cons.IH [of t freed] Cons.prems(1) have ih: "ns_slot t' ns = (if dead alive t ns \<and> ns - 1 \<in> set is then Some free_namespace else ns_slot t ns)"
      "rows t' = {(ns, n, ip) \<in> rows t. \<not> (dead alive t ns \<and> ns - 1 \<in> set is)}" for ns by auto
    from False have "dead alive t ns \<and> (ns = ?k \<or> ns - 1 \<in> set is) \<longleftrightarrow> dead alive t ns \<and> ns - 1 \<in> set is" for ns by auto
    then show ?thesis unfolding m ih by auto
  next
    case True
    then have r: "reclaim_loop alive is (freed + 1) ?t = (f, t')" using Cons.prems(2) slot by (auto simp: dead_def Let_def)
    have slots: "ns_slot ?t ns = (if ns = ?k then Some free_namespace else ns_slot t ns)" for ns
      using ns_slot_set [of "free_rows (\<lambda>r. row_ns r = ?k) t" ?k ?s free_namespace ns] slot by simp
    have d: "dead alive ?t ns \<longleftrightarrow> dead alive t ns \<and> ns \<noteq> ?k" for ns
      unfolding dead_def slots any_live_rows by (auto simp: rows_free_rows free_namespace_def)
    have "\<forall>i \<in> set is. i < length (namespaces ?t)" using Cons.prems(1) by (simp add: set_ns_slot_def)
    from Cons.IH [OF this r] True show ?thesis unfolding m d slots by (auto simp: rows_free_rows)
  qed
qed auto


text \<open>
  A sweep keeps the invariant when the processes it is told of are known and a clone that is under way has a parent
  that exists.
\<close>

definition sweep_safe :: "(int \<Rightarrow> bool) \<Rightarrow> int set \<Rightarrow> pidns_table \<Rightarrow> bool" where
  "sweep_safe alive ps t \<longleftrightarrow>
     (\<forall>ip. alive ip \<longrightarrow> ip \<in> ps) \<and>
     (\<forall>ns s. ns_slot t ns = Some s \<longrightarrow> ns_in_use s \<longrightarrow> \<not> ns_sealed s \<longrightarrow> ns_parent s = INITIAL_NS \<or> any_live alive (ns_parent s) t)"

lemma reclaim_dead_spec:
  assumes ok: "pidns_ok t ps" and safe: "sweep_safe alive ps t" and "reclaim_dead alive t = (f, t')"
  shows "pidns_ok t' ps" and "ns_slot t' ns = (if dead alive t ns then Some free_namespace else ns_slot t ns)"
    and "rows t' = {(ns, n, ip) \<in> rows t. \<not> dead alive t ns}"
proof -
  have r: "rows_ok t" and v: "visible ps t" using ok by (simp_all add: pidns_ok_def)
  have range: "dead alive t ns \<Longrightarrow> ns - 1 \<in> set [0..<length (namespaces t)]" for ns
    by (auto simp: dead_def ns_slot_def split: if_splits)
  note loop = reclaim_loop_spec [of "[0..<length (namespaces t)]" t alive 0 f t']
  have e: "dead alive t ns \<and> ns - 1 \<in> set [0..<length (namespaces t)] \<longleftrightarrow> dead alive t ns" for ns using range [of ns] by blast
  show slots: "ns_slot t' ns = (if dead alive t ns then Some free_namespace else ns_slot t ns)" for ns
    using loop assms(3) unfolding e reclaim_dead_def by auto
  show rows: "rows t' = {(ns, n, ip) \<in> rows t. \<not> dead alive t ns}"
    using loop assms(3) unfolding e reclaim_dead_def by auto
  have "dead alive t ns" if u: "used t ns" and d: "dead alive t (pidns_parent_of t ns)" for ns
  proof -
    obtain s where s: "ns_slot t ns = Some s" "ns_in_use s" using u by (auto simp: slot_of_used)
    then have p: "pidns_parent_of t ns = ns_parent s" "ns_parent s \<noteq> INITIAL_NS" using d by (auto simp: pidns_parent_of_def dead_def ns_slot_def)
    have nl: "\<not> any_live alive (ns_parent s) t" using d p by (simp add: dead_def)
    then have "ns_sealed s" using safe s p(2) unfolding sweep_safe_def by blast
    moreover have "\<not> any_live alive ns t"
    proof
      assume "any_live alive ns t"
      then obtain n ip where ip: "(ns, n, ip) \<in> rows t" "0 < ip" "alive ip" by (auto simp: any_live_rows)
      then have "ip \<in> ps" using safe by (simp add: sweep_safe_def)
      with v ip(1) p obtain m where "(ns_parent s, m, ip) \<in> rows t" unfolding visible_def by metis
      with ip nl show False by (auto simp: any_live_rows)
    qed
    ultimately show ?thesis using s by (auto simp: dead_def)
  qed
  then show "pidns_ok t' ps"
    by (intro pidns_ok_without [OF ok, of t' "{ns. dead alive t ns}"]) (simp_all add: slots rows)
qed

text \<open>A namespace in a free slot, nested in the initial one or in one that is in use.\<close>

lemma claim_ok:
  assumes ok: "pidns_ok t ps" and p: "parent = INITIAL_NS \<or> used t parent" and c: "pidns_claim parent skip t = (Some k, t')"
  shows "pidns_ok t' ps" and "\<not> used t k"
    and "ns_slot t' ns = (if ns = k then Some \<lparr>ns_in_use = True, ns_parent = parent, ns_next_pid = 1, ns_sealed = False\<rparr> else ns_slot t ns)"
    and "rows t' = rows t"
proof -
  let ?new = "\<lparr>ns_in_use = True, ns_parent = parent, ns_next_pid = 1, ns_sealed = False\<rparr>"
  obtain i where i: "i < length (namespaces t)" "\<not> ns_in_use (namespaces t ! i)" and k: "k = i + 1" and t': "t' = set_ns_slot k ?new t"
    using c by (auto simp: pidns_claim_def find_upt_Some split: option.splits)
  have slot: "ns_slot t k = Some (namespaces t ! i)" using i k by (simp add: ns_slot_def INITIAL_NS_def)
  show nu: "\<not> used t k" using slot i by (simp add: used_def)
  show slots: "ns_slot t' ns = (if ns = k then Some ?new else ns_slot t ns)" for ns unfolding t' by (rule ns_slot_set [OF slot])
  show rows: "rows t' = rows t" by (simp add: t')
  obtain rank where ch: "chained rank t" and r: "rows_ok t" and v: "visible ps t" using ok by (auto simp: pidns_ok_def)
  have u: "used t' ns \<longleftrightarrow> ns = k \<or> used t ns" for ns by (simp add: used_def slots)
  have pa: "pidns_parent_of t' ns = (if ns = k then parent else pidns_parent_of t ns)" for ns by (simp add: pidns_parent_of_def slots)
  have nk: "(ns, n, ip) \<in> rows t \<Longrightarrow> ns \<noteq> k" for ns n ip using rows_used [OF r] nu by blast
  have "chained (rank(k := Suc (rank parent))) t'"
    using ch p nu unfolding chained_def u pa by (auto simp: fun_upd_def)
  moreover have "rows_ok t'"
    by (rule rows_ok_fewer [OF r]) (use rows_okD(1) [OF r] nk in \<open>auto simp: rows slots split: if_splits\<close>)
  moreover have "visible ps t'" using v nk unfolding visible_def rows pa by auto
  ultimately show "pidns_ok t' ps" by (auto simp: pidns_ok_def)
qed

lemma release_ok: "pidns_ok t ps \<Longrightarrow> pidns_ok (pidns_release ip t) ps"
proof -
  assume "pidns_ok t ps"
  then obtain rank where ch: "chained rank t" and r: "rows_ok t" and v: "visible ps t" by (auto simp: pidns_ok_def)
  let ?t = "pidns_release ip t"
  have rows: "rows ?t = {(ns, n, i) \<in> rows t. i \<noteq> ip}" by (simp add: pidns_release_def rows_free_rows)
  have slots: "ns_slot ?t ns = ns_slot t ns" for ns by (simp add: pidns_release_def)
  have "rows_ok ?t" by (rule rows_ok_fewer [OF r]) (use rows_okD(1) [OF r] in \<open>auto simp: rows slots\<close>)
  moreover have "visible ps ?t" using v unfolding visible_def rows by (auto simp: pidns_parent_of_def slots)
  moreover have "chained rank ?t" using ch by (simp add: chained_def used_def pidns_parent_of_def slots)
  ultimately show ?thesis by (auto simp: pidns_ok_def)
qed


lemma reclaim_loop_count:
  assumes "\<forall>i \<in> set is. i < length (namespaces t)" and "reclaim_loop alive is freed t = (f, t')"
  shows "freed \<le> f \<and> (f = freed \<longrightarrow> (\<forall>i \<in> set is. \<not> dead alive t (i + 1)))"
  using assms
proof (induction "is" arbitrary: t freed)
  case (Cons i "is")
  let ?k = "i + 1"
  let ?t = "set_ns_slot ?k free_namespace (free_rows (\<lambda>r. row_ns r = ?k) t)"
  have slot: "ns_slot t ?k = Some (namespaces t ! i)" using Cons.prems(1) by (simp add: ns_slot_def INITIAL_NS_def)
  show ?case
  proof (cases "dead alive t ?k")
    case False
    then have "reclaim_loop alive is freed t = (f, t')" using Cons.prems(2) slot by (auto simp: dead_def Let_def)
    with Cons.IH [of t freed] Cons.prems(1) False show ?thesis by auto
  next
    case True
    then have r: "reclaim_loop alive is (freed + 1) ?t = (f, t')" using Cons.prems(2) slot by (auto simp: dead_def Let_def)
    have "\<forall>i \<in> set is. i < length (namespaces ?t)" using Cons.prems(1) by (simp add: set_ns_slot_def)
    from Cons.IH [OF this r] show ?thesis by auto
  qed
qed auto

text \<open>What a creation relies on: the creator exists in the namespace that the new one is nested in.\<close>

definition creation_safe :: "nat \<Rightarrow> (int \<Rightarrow> bool) \<Rightarrow> int set \<Rightarrow> pidns_table \<Rightarrow> bool" where
  "creation_safe parent alive ps t \<longleftrightarrow>
     (parent = INITIAL_NS \<or> used t parent \<and> any_live alive parent t) \<and> sweep_safe alive ps t"

abbreviation all_taken :: "pidns_table \<Rightarrow> bool" where
  "all_taken t \<equiv> \<forall>ns s. ns_slot t ns = Some s \<longrightarrow> ns_in_use s"

lemma reclaim_dead_creation:
  assumes ok: "pidns_ok t ps" and safe: "creation_safe parent alive ps t" and e: "reclaim_dead alive t = (f, t')"
  shows "creation_safe parent alive ps t'" and "f = 0 \<Longrightarrow> \<not> dead alive t ns" and "all_taken t' \<Longrightarrow> all_taken t \<and> \<not> dead alive t ns"
proof -
  have ss: "sweep_safe alive ps t" using safe by (simp add: creation_safe_def)
  note spec = reclaim_dead_spec [OF ok ss e]
  have live: "any_live alive k t \<Longrightarrow> any_live alive k t'" for k unfolding any_live_rows spec(3) by (auto simp: dead_def any_live_rows)
  moreover have "any_live alive k t \<Longrightarrow> used t k \<Longrightarrow> used t' k" for k by (auto simp: used_def spec(2) dead_def)
  ultimately show "creation_safe parent alive ps t'" using safe unfolding creation_safe_def sweep_safe_def spec(2)
    by (auto simp: free_namespace_def split: if_splits) blast+
  show "\<not> dead alive t ns" if "f = 0"
  proof
    assume d: "dead alive t ns"
    then have "ns - 1 \<in> set [0..<length (namespaces t)]" "ns - 1 + 1 = ns" by (auto simp: dead_def ns_slot_def INITIAL_NS_def split: if_splits)
    moreover have "\<forall>i \<in> set [0..<length (namespaces t)]. \<not> dead alive t (i + 1)"
      using that reclaim_loop_count [of "[0..<length (namespaces t)]" t alive 0 f t'] e by (simp add: reclaim_dead_def)
    ultimately show False using d by metis
  qed
  have nd: "\<not> dead alive t k" if taken: "all_taken t'" for k
  proof
    assume "dead alive t k"
    then have "ns_slot t' k = Some free_namespace" using spec(2) [of k] by simp
    with taken have "ns_in_use free_namespace" by blast
    then show False by (simp add: free_namespace_def)
  qed
  show "all_taken t \<and> \<not> dead alive t ns" if taken: "all_taken t'"
  proof (intro conjI allI impI)
    fix k s
    assume "ns_slot t k = Some s"
    then have "ns_slot t' k = Some s" using spec(2) [of k] nd [OF taken, of k] by simp
    with taken show "ns_in_use s" by blast
  qed (rule nd [OF taken])
qed

lemma claim_none: "pidns_claim parent False t = (None, t') \<Longrightarrow> all_taken t \<and> t' = t"
  by (auto simp: pidns_claim_def find_None_iff ns_slot_def split: option.splits if_splits)

lemma claim_none_same: "pidns_claim parent skip t = (None, t') \<Longrightarrow> t' = t"
  by (auto simp: pidns_claim_def split: option.splits)

definition created :: "nat \<Rightarrow> nat \<Rightarrow> pidns_table \<Rightarrow> bool" where
  "created parent k t \<longleftrightarrow>
     ns_slot t k = Some \<lparr>ns_in_use = True, ns_parent = parent, ns_next_pid = 1, ns_sealed = False\<rparr> \<and> \<not> is_referenced t k"

lemma claim_created:
  assumes ok: "pidns_ok t ps" and safe: "creation_safe parent alive ps t" and c: "pidns_claim parent skip t = (Some k, t')"
  shows "pidns_ok t' ps \<and> created parent k t'"
proof -
  have p: "parent = INITIAL_NS \<or> used t parent" using safe by (auto simp: creation_safe_def)
  note spec = claim_ok [OF ok p c]
  have "rows_ok t" using ok by (simp add: pidns_ok_def)
  from rows_used [OF this] spec show ?thesis by (auto simp: created_def is_referenced_rows)
qed

text \<open>The last resort: a sweep, and another try.\<close>

lemma retry_spec:
  assumes ok: "pidns_ok t ps" and safe: "creation_safe parent alive ps t" and taken: "all_taken t"
    and c: "(if reclaim then let (reclaimed, t) = reclaim_dead alive t in if reclaimed > 0 then pidns_claim parent False t else (None, t)
      else (None, t)) = (r, t')"
  shows "pidns_ok t' ps \<and> (case r of Some k \<Rightarrow> created parent k t' | None \<Rightarrow> reclaim \<longrightarrow> (\<forall>ns. \<not> dead alive t ns))"
proof -
  obtain f t2 where f: "reclaim_dead alive t = (f, t2)" by force
  have ss: "sweep_safe alive ps t" using safe by (simp add: creation_safe_def)
  note sw = reclaim_dead_spec(1) [OF ok ss f] reclaim_dead_creation [OF ok safe f]
  show ?thesis
  proof (cases "reclaim \<and> f > 0")
    case True
    then have c: "pidns_claim parent False t2 = (r, t')" using c f by simp
    show ?thesis
    proof (cases r)
      case (Some k)
      then show ?thesis using claim_created [OF sw(1,2), of False k t'] c by simp
    next
      case None
      then have "all_taken t2 \<and> t' = t2" using claim_none c by blast
      then show ?thesis using sw(1,4) None by auto
    qed
  next
    case False
    then have "r = None" "t' = (if reclaim then t2 else t)" and "reclaim \<Longrightarrow> f = 0" using c f by (auto split: if_splits)
    then show ?thesis using sw(1,3) ok by auto
  qed
qed

lemma create_spec:
  assumes ok: "pidns_ok t ps" and safe: "creation_safe parent alive ps t" and c: "pidns_create parent alive reclaim t = (r, t')"
  shows "pidns_ok t' ps \<and> (case r of Some k \<Rightarrow> created parent k t' | None \<Rightarrow> all_taken t \<and> (reclaim \<longrightarrow> (\<forall>ns. \<not> dead alive t ns)))"
proof -
  define t0 where "t0 = t\<lparr>creates := (creates t + 1) mod 2 ^ 32\<rparr>"
  have same: "ns_slot t0 ns = ns_slot t ns" "rows t0 = rows t" "dead alive t0 ns = dead alive t ns" for ns
    by (simp_all add: t0_def dead_def any_live_rows)
  have ok0: "pidns_ok t0 ps" and safe0: "creation_safe parent alive ps t0"
    using ok safe unfolding pidns_ok_def chained_def rows_ok_def visible_def creation_safe_def sweep_safe_def used_def pidns_parent_of_def
      any_live_rows same by auto
  define t1 where "t1 = (if reclaim \<and> creates t mod 64 = 0 then snd (reclaim_dead alive t0) else t0)"
  obtain f t2 where f: "reclaim_dead alive t0 = (f, t2)" by force
  have ss: "sweep_safe alive ps t0" using safe0 by (simp add: creation_safe_def)
  note sw = reclaim_dead_spec(1) [OF ok0 ss f] reclaim_dead_creation(1,3) [OF ok0 safe0 f]
  have t1: "pidns_ok t1 ps" "creation_safe parent alive ps t1" using sw(1,2) ok0 safe0 by (simp_all add: t1_def f)
  have taken: "all_taken t1 \<Longrightarrow> all_taken t \<and> (\<forall>ns. \<not> dead alive t1 ns \<longrightarrow> \<not> dead alive t ns)"
    using sw(3) same by (auto simp: t1_def f split: if_splits)
  have c1: "(case pidns_claim parent True t1 of (Some ns, t) \<Rightarrow> (Some ns, t) | (None, t) \<Rightarrow>
      (case pidns_claim parent False t of (Some ns, t) \<Rightarrow> (Some ns, t) | (None, t) \<Rightarrow>
        if reclaim then let (reclaimed, t) = reclaim_dead alive t in if reclaimed > 0 then pidns_claim parent False t else (None, t)
        else (None, t))) = (r, t')"
    using c unfolding pidns_create_def Let_def t1_def t0_def .
  obtain a u where a: "pidns_claim parent True t1 = (a, u)" by force
  obtain b u2 where b: "pidns_claim parent False t1 = (b, u2)" by force
  consider k where "a = Some k" | k where "a = None" "b = Some k" | "a = None" "b = None" by (cases a; cases b) auto
  then show ?thesis
  proof cases
    case 1
    then show ?thesis using a c1 claim_created [OF t1, of True k u] by auto
  next
    case 2
    then show ?thesis using a b c1 claim_none_same [of parent True t1 u] claim_created [OF t1, of False k u2] by auto
  next
    case 3
    then have "all_taken t1" "u = t1" "u2 = t1" using a b claim_none claim_none_same by blast+
    then show ?thesis using 3 a b c1 retry_spec [OF t1, of reclaim r t'] taken by (auto split: option.splits)
  qed
qed


section \<open>A process gets its numbers\<close>

lemma i32_wrap_next: "0 < n \<Longrightarrow> n < 2 ^ 31 \<Longrightarrow> i32_wrap (n + 1) < 2 ^ 31 \<and> (i32_wrap (n + 1) = n + 1 \<or> i32_wrap (n + 1) \<le> 0)"
proof -
  assume n: "0 < n" "n < 2 ^ 31"
  show ?thesis
  proof (cases "n + 1 < 2 ^ 31")
    case True
    then have "(n + 1 + 2 ^ 31) mod 2 ^ 32 = n + 1 + 2 ^ 31" using n by (intro mod_pos_pos_trivial) simp_all
    with True show ?thesis by (simp add: i32_wrap_def)
  next
    case False
    then have "n = 2 ^ 31 - 1" using n by simp
    then show ?thesis by (simp add: i32_wrap_def)
  qed
qed

definition next_of :: "pidns_table \<Rightarrow> nat \<Rightarrow> int" where
  "next_of t ns = (case ns_slot t ns of Some s \<Rightarrow> ns_next_pid s | None \<Rightarrow> 0)"

text \<open>The counter of a namespace moves, whether or not there is a row left.\<close>

lemma rows_ok_count:
  assumes r: "rows_ok t" and s: "ns_slot t c = Some s" "0 < ns_next_pid s"
    and t': "\<And>k. ns_slot t' k = (if k = c then Some (s\<lparr>ns_next_pid := i32_wrap (ns_next_pid s + 1), ns_sealed := ns_sealed s \<or> z\<rparr>) else ns_slot t k)"
    and rows: "rows t' = rows t"
  shows "rows_ok t'"
proof (rule rows_okI)
  note w = i32_wrap_next [OF s(2) rows_okD(1) [OF r s(1)]]
  fix ns n ip
  show "ns_slot t' ns = Some s' \<Longrightarrow> ns_next_pid s' < 2 ^ 31" for s'
    using w rows_okD(1) [OF r, of ns s'] by (auto simp: t' split: if_splits)
  assume a: "(ns, n, ip) \<in> rows t'"
  then show "0 < n" using rows_okD(2) [OF r] by (simp add: rows)
  show "\<exists>s. ns_slot t' ns = Some s \<and> ns_in_use s \<and> ns_sealed s \<and> (n < ns_next_pid s \<or> ns_next_pid s \<le> 0)"
    using rows_okD(3) [OF r a [unfolded rows]] w s by (auto simp: t')
qed (use rows_okD(4,5) [OF r] in \<open>simp_all add: rows\<close>)

lemma rows_ok_row:
  assumes r: "rows_ok t" and s: "ns_slot t c = Some s" "0 < ns_next_pid s" "ns_in_use s"
    and t': "\<And>k. ns_slot t' k = (if k = c then Some (s\<lparr>ns_next_pid := i32_wrap (ns_next_pid s + 1), ns_sealed := True\<rparr>) else ns_slot t k)"
    and rows: "rows t' = insert (c, ns_next_pid s, ip) (rows t)" and fresh: "\<And>n. (c, n, ip) \<notin> rows t"
  shows "rows_ok t'"
proof (rule rows_okI)
  note w = i32_wrap_next [OF s(2) rows_okD(1) [OF r s(1)]]
  have old: "(c, n, i) \<in> rows t \<Longrightarrow> n < ns_next_pid s" for n i using rows_okD(3) [OF r, of c n i] s by auto
  fix ns n i
  show "ns_slot t' ns = Some s' \<Longrightarrow> ns_next_pid s' < 2 ^ 31" for s'
    using w rows_okD(1) [OF r, of ns s'] by (auto simp: t' split: if_splits)
  assume a: "(ns, n, i) \<in> rows t'"
  then show "0 < n" using rows_okD(2) [OF r] s(2) by (auto simp: rows)
  show "\<exists>s. ns_slot t' ns = Some s \<and> ns_in_use s \<and> ns_sealed s \<and> (n < ns_next_pid s \<or> ns_next_pid s \<le> 0)"
    using a rows_okD(3) [OF r, of ns n i] old [of n i] w s by (auto simp: t' rows)
  show "(ns, n, i') \<in> rows t' \<Longrightarrow> i = i'" for i' using a rows_okD(4) [OF r] old by (fastforce simp: rows)
  show "(ns, n', i) \<in> rows t' \<Longrightarrow> n = n'" for n' using a rows_okD(5) [OF r] fresh by (fastforce simp: rows)
qed

text \<open>One level of the chain.\<close>

lemma climb_spec:
  assumes r: "rows_ok t" and s: "ns_slot t c = Some s" "ns_in_use s" "0 < ns_next_pid s" and fresh: "\<And>m. (c, m, ip) \<notin> rows t"
    and reg: "register (ns_next_pid s) c ip (set_ns_slot c (s\<lparr>ns_next_pid := i32_wrap (ns_next_pid s + 1)\<rparr>) t) = Some t2"
  defines "t3 \<equiv> set_ns_slot c (s\<lparr>ns_next_pid := i32_wrap (ns_next_pid s + 1), ns_sealed := True\<rparr>) t2"
  shows "rows t3 = insert (c, ns_next_pid s, ip) (rows t)" and "rows_ok t3" and "k \<noteq> c \<Longrightarrow> next_of t3 k = next_of t k"
    and "pidns_parent_of t3 k = pidns_parent_of t k" and "used t3 k = used t k"
proof -
  let ?s1 = "s\<lparr>ns_next_pid := i32_wrap (ns_next_pid s + 1)\<rparr>"
  have "ns_next_pid s \<noteq> FREE_PID" using s by (simp add: FREE_PID_def)
  note reg = register_rows [OF reg this]
  have "ns_slot t2 k = ns_slot (set_ns_slot c ?s1 t) k" for k by (simp add: ns_slot_def reg(2))
  then have slots2: "ns_slot t2 k = (if k = c then Some ?s1 else ns_slot t k)" for k unfolding ns_slot_set [OF s(1)] .
  have slots: "ns_slot t3 k = (if k = c then Some (s\<lparr>ns_next_pid := i32_wrap (ns_next_pid s + 1), ns_sealed := True\<rparr>) else ns_slot t k)" for k
    using ns_slot_set [of t2 c ?s1 _ k] unfolding t3_def slots2 by auto
  show rows: "rows t3 = insert (c, ns_next_pid s, ip) (rows t)" using reg(1) by (simp add: t3_def)
  show "rows_ok t3" by (rule rows_ok_row [OF r s(1,3,2) slots rows fresh])
  show "k \<noteq> c \<Longrightarrow> next_of t3 k = next_of t k" and "pidns_parent_of t3 k = pidns_parent_of t k" and "used t3 k = used t k"
    using s by (auto simp: next_of_def pidns_parent_of_def used_def slots)
qed

lemma allocate_loop_spec:
  assumes "rows_ok t" and "chained rank t" and "current = INITIAL_NS \<or> used t current"
    and "\<And>ns. current \<noteq> INITIAL_NS \<Longrightarrow> used t ns \<Longrightarrow> rank ns \<le> rank current \<Longrightarrow> 0 < next_of t ns"
    and "\<And>ns n. current \<noteq> INITIAL_NS \<Longrightarrow> (ns, n, ip) \<in> rows t \<Longrightarrow> rank current < rank ns"
    and "allocate_loop current ip own t = (r, t')"
  shows "rows_ok t' \<and> rows t \<subseteq> rows t' \<and> (\<forall>ns n i. (ns, n, i) \<in> rows t' \<longrightarrow> i \<noteq> ip \<longrightarrow> (ns, n, i) \<in> rows t) \<and>
    (\<forall>ns. pidns_parent_of t' ns = pidns_parent_of t ns \<and> used t' ns = used t ns) \<and>
    (\<forall>p. r = Some p \<longrightarrow>
      p = (case own of Some q \<Rightarrow> q | None \<Rightarrow> if current = INITIAL_NS then ip else next_of t current) \<and>
      (current \<noteq> INITIAL_NS \<longrightarrow> (current, next_of t current, ip) \<in> rows t') \<and>
      (\<forall>ns n. (ns, n, ip) \<in> rows t' \<longrightarrow> (ns, n, ip) \<notin> rows t \<longrightarrow>
        pidns_parent_of t ns = INITIAL_NS \<or> (\<exists>m. (pidns_parent_of t ns, m, ip) \<in> rows t')))"
  using assms
proof (induction current ip own t rule: allocate_loop.induct)
  case (1 current ip own t)
  show ?case
  proof (cases "current = INITIAL_NS")
    case True
    then have "ns_slot t current = None" by (simp add: ns_slot_def)
    then have "t' = t" "r = Some (case own of Some p \<Rightarrow> p | None \<Rightarrow> ip)" using 1(7) by (simp_all add: allocate_loop.simps [of current])
    with True 1(2) show ?thesis by (auto split: option.splits)
  next
    case False
    then obtain s where s: "ns_slot t current = Some s" "ns_in_use s" using 1(4) by (auto simp: slot_of_used)
    define n where "n = ns_next_pid s"
    have n: "0 < n" "next_of t current = n" using 1(5) [of current] 1(4) False s by (auto simp: next_of_def n_def)
    have fresh: "(current, m, ip) \<notin> rows t" for m using 1(6) [OF False, of current m] by auto
    define t1 where "t1 = set_ns_slot current (s\<lparr>ns_next_pid := i32_wrap (n + 1)\<rparr>) t"
    show ?thesis
    proof (cases "register n current ip t1")
      case None
      then have t': "t' = t1" "r = None" using 1(7) s n by (simp_all add: allocate_loop.simps [of current] Let_def n_def t1_def)
      have slots1: "ns_slot t1 k = (if k = current then Some (s\<lparr>ns_next_pid := i32_wrap (n + 1)\<rparr>) else ns_slot t k)" for k
        unfolding t1_def by (rule ns_slot_set [OF s(1)])
      have "s\<lparr>ns_next_pid := i32_wrap (n + 1)\<rparr> = s\<lparr>ns_next_pid := i32_wrap (n + 1), ns_sealed := ns_sealed s \<or> False\<rparr>" by (cases s) simp
      then have "rows_ok t1" using rows_ok_count [OF 1(2) s(1), of t1 False] slots1 n by (simp add: n_def t1_def)
      then show ?thesis using t' slots1 s by (auto simp: pidns_parent_of_def used_def t1_def)
    next
      case (Some t2)
      define t3 where "t3 = set_ns_slot current (s\<lparr>ns_next_pid := i32_wrap (n + 1), ns_sealed := True\<rparr>) t2"
      let ?own = "Some (case own of Some p \<Rightarrow> p | None \<Rightarrow> n)" and ?p = "ns_parent s"
      have e: "allocate_loop ?p ip ?own t3 = (r, t')" using 1(7) s n Some
        by (simp add: allocate_loop.simps [of current] Let_def t1_def t3_def n_def [symmetric])
      note climb = climb_spec [OF 1(2) s n(1) [unfolded n_def] fresh Some [unfolded t1_def n_def], folded n_def, folded t3_def]
      note rows3 = climb(1) and same = climb(4,5)
      have p: "pidns_parent_of t current = ?p" using s by (simp add: pidns_parent_of_def)
      have up: "?p = INITIAL_NS \<or> used t ?p \<and> rank ?p < rank current" using 1(3) s p unfolding chained_def slot_of_used by metis
      have ih: "rows_ok t' \<and> rows t3 \<subseteq> rows t' \<and> (\<forall>ns n i. (ns, n, i) \<in> rows t' \<longrightarrow> i \<noteq> ip \<longrightarrow> (ns, n, i) \<in> rows t3) \<and>
        (\<forall>ns. pidns_parent_of t' ns = pidns_parent_of t3 ns \<and> used t' ns = used t3 ns) \<and>
        (\<forall>p. r = Some p \<longrightarrow> p = (case ?own of Some q \<Rightarrow> q | None \<Rightarrow> if ?p = INITIAL_NS then ip else next_of t3 ?p) \<and>
          (?p \<noteq> INITIAL_NS \<longrightarrow> (?p, next_of t3 ?p, ip) \<in> rows t') \<and>
          (\<forall>ns n. (ns, n, ip) \<in> rows t' \<longrightarrow> (ns, n, ip) \<notin> rows t3 \<longrightarrow>
            pidns_parent_of t3 ns = INITIAL_NS \<or> (\<exists>m. (pidns_parent_of t3 ns, m, ip) \<in> rows t')))"
      proof (rule 1(1) [OF s(1) n_def t1_def _ Some, folded t3_def])
        show "\<not> n \<le> 0" using n by simp
        show "rows_ok t3" by (rule climb(2))
        show "chained rank t3" using 1(3) by (simp add: chained_def same)
        show "?p = INITIAL_NS \<or> used t3 ?p" using up by (auto simp: same)
        show "0 < next_of t3 ns" if "?p \<noteq> INITIAL_NS" "used t3 ns" "rank ns \<le> rank ?p" for ns
          using that up 1(5) [OF False, of ns] climb(3) [of ns] by (cases "ns = current") (auto simp: same)
        show "rank ?p < rank ns" if "?p \<noteq> INITIAL_NS" "(ns, m, ip) \<in> rows t3" for ns m
          using that up 1(6) [OF False, of ns m] by (auto simp: rows3)
      qed (rule e)
      have "pidns_parent_of t ns = INITIAL_NS \<or> (\<exists>m. (pidns_parent_of t ns, m, ip) \<in> rows t')"
        if "r = Some q" "(ns, m, ip) \<in> rows t'" "(ns, m, ip) \<notin> rows t" for q ns m
        using ih that p unfolding same rows3 by (cases "(ns, m) = (current, n)") auto
      moreover have "(current, n, ip) \<in> rows t'" using ih rows3 by auto
      ultimately show ?thesis using ih n False unfolding same rows3 by (auto split: option.splits)
    qed
  qed
qed


text \<open>A process that is not there yet, in a namespace that is; no counter has run out.\<close>

definition clone_safe :: "nat \<Rightarrow> int \<Rightarrow> int set \<Rightarrow> pidns_table \<Rightarrow> bool" where
  "clone_safe ns ip ps t \<longleftrightarrow>
     (ns = INITIAL_NS \<or> used t ns) \<and> 0 < ip \<and> ip \<notin> ps \<and> (\<forall>k n. (k, n, ip) \<notin> rows t) \<and> (\<forall>k. used t k \<longrightarrow> 0 < next_of t k)"

lemma allocate_spec:
  assumes ok: "pidns_ok t ps" and safe: "clone_safe ns ip ps t" and e: "pidns_allocate ns ip t = (r, t')"
  shows "pidns_ok t' (if r = None then ps else insert ip ps)"
    and "r = Some p \<Longrightarrow> p = (if ns = INITIAL_NS then ip else next_of t ns) \<and> (ns \<noteq> INITIAL_NS \<longrightarrow> (ns, p, ip) \<in> rows t')"
    and "i \<noteq> ip \<Longrightarrow> (k, n, i) \<in> rows t' \<longleftrightarrow> (k, n, i) \<in> rows t" and "rows_ok t'"
proof -
  obtain rank where ch: "chained rank t" and r: "rows_ok t" and v: "visible ps t" using ok by (auto simp: pidns_ok_def)
  have safe': "ns = INITIAL_NS \<or> used t ns" "0 < ip" "ip \<notin> ps" "(k, n, ip) \<notin> rows t" "used t k \<Longrightarrow> 0 < next_of t k" for k n
    using safe by (auto simp: clone_safe_def)
  have l: "allocate_loop ns ip None t = (r, t')" using e safe'(2) by (simp add: pidns_allocate_def)
  note spec = allocate_loop_spec [OF r ch safe'(1) _ _ l, simplified safe'(4) simp_thms]
  have s: "rows_ok t'" "rows t \<subseteq> rows t'" "\<And>k n i. i \<noteq> ip \<Longrightarrow> (k, n, i) \<in> rows t' \<longleftrightarrow> (k, n, i) \<in> rows t"
    "\<And>k. pidns_parent_of t' k = pidns_parent_of t k" "\<And>k. used t' k = used t k" using spec safe'(5) by auto
  show "i \<noteq> ip \<Longrightarrow> (k, n, i) \<in> rows t' \<longleftrightarrow> (k, n, i) \<in> rows t" and "rows_ok t'" using s by auto
  show "r = Some p \<Longrightarrow> p = (if ns = INITIAL_NS then ip else next_of t ns) \<and> (ns \<noteq> INITIAL_NS \<longrightarrow> (ns, p, ip) \<in> rows t')"
    using spec safe'(5) by auto
  have up: "pidns_parent_of t k = INITIAL_NS \<or> (\<exists>m. (pidns_parent_of t k, m, ip) \<in> rows t')" if "(k, n, ip) \<in> rows t'" "r \<noteq> None" for k n
    using spec safe'(5) that by (cases r) (simp_all, blast)
  have "visible (if r = None then ps else insert ip ps) t'"
    unfolding visible_def s(4)
  proof (intro allI impI)
    fix k n i
    assume a: "(k, n, i) \<in> rows t'" "i \<in> (if r = None then ps else insert ip ps)"
    show "pidns_parent_of t k = INITIAL_NS \<or> (\<exists>m. (pidns_parent_of t k, m, i) \<in> rows t')"
    proof (cases "i = ip")
      case True
      with a safe'(3) up [of k n] show ?thesis by (auto split: if_splits)
    next
      case False
      with a s(3) v show ?thesis unfolding visible_def by (auto split: if_splits)
    qed
  qed
  moreover have "chained rank t'" using ch by (simp add: chained_def s(4,5))
  ultimately show "pidns_ok t' (if r = None then ps else insert ip ps)" using s(1) by (auto simp: pidns_ok_def)
qed

section \<open>Runs\<close>

text \<open>
  The calls of the clone, exit and wait paths of \<^verbatim>\<open>syscalls/process.rs\<close>, with the processes that exist or wait to be
  reaped. An init exits after the namespaces nested in its own are gone, and nothing is cloned into a namespace that is
  gone.
\<close>

inductive pidns_reach :: "pidns_table \<Rightarrow> int set \<Rightarrow> bool" where
  start: "pidns_reach pidns_new {}"
| create: "pidns_reach t ps \<Longrightarrow> creation_safe parent alive ps t \<Longrightarrow> pidns_create parent alive reclaim t = (r, t') \<Longrightarrow> pidns_reach t' ps"
| clone: "pidns_reach t ps \<Longrightarrow> clone_safe ns ip ps t \<Longrightarrow> pidns_allocate ns ip t = (r, t') \<Longrightarrow> pidns_reach t' (if r = None then ps else insert ip ps)"
| release: "pidns_reach t ps \<Longrightarrow> pidns_reach (pidns_release ip t) (ps - {ip})"
| exited: "pidns_reach t ps \<Longrightarrow> used t ns \<Longrightarrow> (\<And>k. used t k \<Longrightarrow> pidns_parent_of t k \<noteq> ns) \<Longrightarrow> pidns_reach (init_exited ns t) ps"

lemma pidns_ok_fewer: "pidns_ok t ps \<Longrightarrow> qs \<subseteq> ps \<Longrightarrow> pidns_ok t qs"
  unfolding pidns_ok_def visible_def by blast

lemma pidns_new_ok: "pidns_ok pidns_new {}"
proof -
  have "\<not> used pidns_new ns" for ns by (auto simp: used_def pidns_new_def ns_slot_def free_namespace_def slice_get_def)
  moreover have "rows pidns_new = {}" by (auto simp: rows_def pidns_new_def free_member_def)
  moreover have "ns_slot pidns_new ns = Some s \<Longrightarrow> ns_next_pid s < 2 ^ 31" for ns s
    by (auto simp: pidns_new_def ns_slot_def free_namespace_def split: if_splits)
  ultimately show ?thesis by (simp add: pidns_ok_def chained_def rows_ok_def visible_def)
qed

lemma pidns_reach_ok: "pidns_reach t ps \<Longrightarrow> pidns_ok t ps"
proof (induction rule: pidns_reach.induct)
  case (create t ps parent alive reclaim r t')
  then show ?case using create_spec by blast
next
  case (clone t ps ns ip r t')
  then show ?case using allocate_spec(1) by blast
next
  case (release t ps ip)
  then show ?case using release_ok [of t ps ip] pidns_ok_fewer by blast
next
  case (exited t ps ns)
  then show ?case using init_exited_ok by blast
qed (rule pidns_new_ok)


section \<open>A namespace and its init\<close>

lemma find_first: "0 < n \<Longrightarrow> P 0 \<Longrightarrow> find P [0..<n] = Some 0"
  by (simp add: find_upt_Some)

definition demo_created :: pidns_table where
  "demo_created = set_ns_slot 1 \<lparr>ns_in_use = True, ns_parent = 0, ns_next_pid = 1, ns_sealed = False\<rparr> (pidns_new\<lparr>creates := 1\<rparr>)"

lemma demo_create: "pidns_create 0 (\<lambda>_. False) False pidns_new = (Some 1, demo_created)"
proof -
  have "find (\<lambda>i. \<not> ns_in_use (namespaces pidns_new ! i) \<and> \<not> (True \<and> is_referenced (pidns_new\<lparr>creates := 1\<rparr>) (i + 1)))
      [0..<length (namespaces pidns_new)] = Some 0"
    by (rule find_first) (simp_all add: pidns_new_def MAX_NAMESPACES_def free_namespace_def is_referenced_def free_member_def list_ex_iff)
  moreover have "creates pidns_new = 0" by (simp add: pidns_new_def)
  ultimately show ?thesis by (simp add: pidns_create_def pidns_claim_def demo_created_def)
qed

lemma demo_slot: "ns_slot demo_created k = (if k = 1 then Some \<lparr>ns_in_use = True, ns_parent = 0, ns_next_pid = 1, ns_sealed = False\<rparr> else ns_slot pidns_new k)"
proof -
  have "ns_slot (pidns_new\<lparr>creates := 1\<rparr>) 1 = Some free_namespace"
    by (simp add: ns_slot_def pidns_new_def INITIAL_NS_def MAX_NAMESPACES_def)
  from ns_slot_set [OF this] show ?thesis by (simp add: demo_created_def)
qed

lemma allocate_loop_initial: "allocate_loop 0 ip (Some p) t = (Some p, t)"
  by (simp add: allocate_loop.simps [of 0] ns_slot_def INITIAL_NS_def)

lemma demo_clone: "\<exists>t'. pidns_allocate 1 5 demo_created = (Some 1, t')"
proof -
  let ?t = "set_ns_slot 1 \<lparr>ns_in_use = True, ns_parent = 0, ns_next_pid = 2, ns_sealed = False\<rparr> demo_created"
  have "find (\<lambda>i. \<not> live_row (members ?t ! i)) [0..<length (members ?t)] = Some 0"
    by (rule find_first) (simp_all add: demo_created_def set_ns_slot_def pidns_new_def MAX_MEMBERS_def free_member_def)
  then obtain t' where t': "register 1 1 5 ?t = Some t'" by (auto simp: register_def)
  have "i32_wrap 2 = 2" by (simp add: i32_wrap_def)
  then have "\<exists>t'. allocate_loop 1 5 None demo_created = (Some 1, t')"
    by (subst allocate_loop.simps) (simp add: demo_slot t' allocate_loop_initial del: One_nat_def)
  then show ?thesis by (simp add: pidns_allocate_def)
qed

lemma demo_pidns_reach:
  "pidns_reach demo_created {}" "clone_safe 1 5 {} demo_created"
proof -
  have n: "\<not> used pidns_new k" for k by (auto simp: used_def pidns_new_def ns_slot_def free_namespace_def slice_get_def)
  then have "creation_safe 0 (\<lambda>_. False) {} pidns_new"
    by (auto simp: creation_safe_def INITIAL_NS_def sweep_safe_def slot_of_used)
  from pidns_reach.create [OF pidns_reach.start this demo_create] show "pidns_reach demo_created {}" .
  have "rows demo_created = {}" by (auto simp: demo_created_def rows_def set_ns_slot_def pidns_new_def free_member_def)
  then show "clone_safe 1 5 {} demo_created" using n by (auto simp: clone_safe_def used_def next_of_def demo_slot)
qed

text \<open>
  An init exits while another task of its namespace lives on, which nothing ends: the id goes to a namespace of
  another clone, and the next child of the old task appears in it. Then the same with a nested namespace, where the
  chain of parents becomes a circle and one clone uses up every row.
\<close>

definition small_table :: pidns_table where
  "small_table = \<lparr>namespaces = replicate 2 free_namespace, members = replicate 6 free_member, destroyed = 0, creates = 0\<rparr>"

lemma survivor_joins_stranger:
  "let t = snd (pidns_create 0 (\<lambda>_. True) True small_table);
       t = snd (pidns_allocate 1 11 (snd (pidns_allocate 1 10 t)));
       (ns, t) = pidns_create 0 (\<lambda>_. True) True (init_exited 1 t);
       t = snd (pidns_allocate 1 12 (snd (pidns_allocate 1 20 t)))
   in ns = Some 1 \<and> pid_in t 20 1 = Some 1 \<and> pid_in t 12 1 = Some 2"
  by code_simp

lemma circle_uses_up_rows:
  "let t = snd (pidns_allocate 1 10 (snd (pidns_create 0 (\<lambda>_. True) True small_table)));
       t = snd (pidns_allocate 2 11 (snd (pidns_create 1 (\<lambda>_. True) True t)));
       (ns, t) = pidns_create 2 (\<lambda>_. True) True (init_exited 1 t);
       (r, t) = pidns_allocate 1 12 t
   in ns = Some 1 \<and> pidns_parent_of t 1 = 2 \<and> pidns_parent_of t 2 = 1 \<and> r = None \<and> free_count t = 0"
  by code_simp

section \<open>Properties\<close>



text \<open>C39: A clone gives the child the next number of its namespace, the first one being 1, and changes no number of another
  process in any namespace.\<close>

theorem pidns_clone_numbers:
  assumes "pidns_reach t ps" and "clone_safe ns ip ps t" and "pidns_allocate ns ip t = (Some p, t')"
  shows "pid_in t' ip ns = Some p \<and> p = (if ns = INITIAL_NS then ip else next_of t ns) \<and> (created parent ns t \<longrightarrow> p = 1) \<and>
    (\<forall>i k. i \<noteq> ip \<longrightarrow> pid_in t' i k = pid_in t i k)"
proof -
  note ok = pidns_reach_ok [OF assms(1)]
  note spec = allocate_spec [OF ok assms(2,3)]
  have r: "rows_ok t" using ok by (simp add: pidns_ok_def)
  have "pid_in t' i k = pid_in t i k" if "i \<noteq> ip" for i k
  proof (cases "k = INITIAL_NS")
    case False
    have "pid_in t' i k = Some n \<longleftrightarrow> pid_in t i k = Some n" for n
      unfolding pid_in_rows [OF r False] pid_in_rows [OF spec(4) False] using spec(3) [OF that] .
    then show ?thesis by (metis option.exhaust)
  qed (simp add: pid_in_def)
  moreover have "pid_in t' ip ns = Some p"
  proof (cases "ns = INITIAL_NS")
    case True
    then show ?thesis using spec(2) [of p] by (simp add: pid_in_def)
  next
    case False
    then show ?thesis using spec(2) [of p] unfolding pid_in_rows [OF spec(4) False] by blast
  qed
  moreover have "created parent ns t \<Longrightarrow> ns \<noteq> INITIAL_NS \<and> next_of t ns = 1" by (auto simp: created_def next_of_def ns_slot_def)
  ultimately show ?thesis using spec(2) [of p] by auto
qed

theorem pidns_clone_numbers_witness:
  "\<exists>t t'. pidns_reach t {} \<and> clone_safe 1 5 {} t \<and> pidns_allocate 1 5 t = (Some 1, t') \<and> pid_in t' 5 1 = Some 1"
proof -
  obtain t where t: "pidns_allocate 1 5 demo_created = (Some 1, t)" using demo_clone by blast
  from pidns_clone_numbers [OF demo_pidns_reach t] t demo_pidns_reach show ?thesis by blast
qed

text \<open>A new namespace is refused only when every slot is taken, and, with reclaiming on, by a namespace that has a process
  that exists or a clone under way; one that is made is nested in its creator's and has no member yet.\<close>

theorem pidns_create_outcomes:
  assumes "pidns_reach t ps" and "creation_safe parent alive ps t" and "pidns_create parent alive reclaim t = (r, t')"
  shows "case r of
      Some k \<Rightarrow> used t' k \<and> pidns_parent_of t' k = parent \<and> \<not> is_referenced t' k
    | None \<Rightarrow> (\<forall>ns s. ns_slot t ns = Some s \<longrightarrow> ns_in_use s) \<and> (reclaim \<longrightarrow> (\<forall>ns. \<not> dead alive t ns))"
  using create_spec [OF pidns_reach_ok [OF assms(1)] assms(2,3)]
  by (auto simp: created_def used_def pidns_parent_of_def split: option.splits)

theorem pidns_create_outcomes_witness:
  "pidns_create 0 (\<lambda>_. False) False pidns_new = (Some 1, demo_created) \<and> used demo_created 1 \<and> pidns_parent_of demo_created 1 = 0 \<and>
    \<not> is_referenced demo_created 1"
proof -
  have "creation_safe 0 (\<lambda>_. False) {} pidns_new"
    by (auto simp: creation_safe_def INITIAL_NS_def sweep_safe_def pidns_new_def ns_slot_def free_namespace_def split: if_splits)
  from pidns_create_outcomes [OF pidns_reach.start this demo_create] demo_create show ?thesis by simp
qed

end
