(* ===== verification/FsTypes.thy ===== *)
theory FsTypes
  imports Flags
begin

text \<open>
  The vocabulary of the file systems, \<^verbatim>\<open>litebox/src/fs/mod.rs\<close> and \<^verbatim>\<open>litebox/src/fs/errors.rs\<close>: modes,
  file types, identities and their narrowing to 16 bits, status records and the error of each operation.
  Errors of different operations share constructor names, as in the source, and are told apart by the
  name of the type. The fields \<open>NoSearchPerms\<close> has in debug builds are left out.
\<close>

section \<open>Modes, types and identities\<close>

definition RWXU :: u32 where "RWXU = 0x1c0"

definition RUSR :: u32 where "RUSR = 0x100"

definition WUSR :: u32 where "WUSR = 0x80"

definition XUSR :: u32 where "XUSR = 0x40"

definition RWXG :: u32 where "RWXG = 0x38"

definition RGRP :: u32 where "RGRP = 0x20"

definition WGRP :: u32 where "WGRP = 0x10"

definition XGRP :: u32 where "XGRP = 0x8"

definition RWXO :: u32 where "RWXO = 0x7"

definition ROTH :: u32 where "ROTH = 0x4"

definition WOTH :: u32 where "WOTH = 0x2"

definition XOTH :: u32 where "XOTH = 0x1"

lemmas mode_defs = RWXU_def RUSR_def WUSR_def XUSR_def RWXG_def RGRP_def WGRP_def XGRP_def
  RWXO_def ROTH_def WOTH_def XOTH_def

datatype file_type = RegularFile | Directory | CharacterDevice | Symlink | Fifo

datatype seek_whence = RelativeToBeginning | RelativeToCurrentOffset | RelativeToEnd

record timestamp =
  ts_sec :: int
  ts_nsec :: nat

definition timestamp_default :: timestamp where
  "timestamp_default = \<lparr>ts_sec = 0, ts_nsec = 0\<rparr>"

record user_info =
  user :: u16
  group :: u16

definition ROOT :: user_info where
  "ROOT = \<lparr>user = 0, group = 0\<rparr>"

record node_info =
  dev :: nat
  ino :: nat
  rdev :: "nat option"

record dir_entry =
  de_name :: string
  de_file_type :: file_type
  de_ino_info :: "node_info option"

record file_status =
  st_file_type :: file_type
  st_mode :: u32
  st_size :: nat
  st_owner :: user_info
  st_node_info :: node_info
  st_blksize :: nat
  st_atime :: timestamp
  st_mtime :: timestamp
  st_nlink :: nat

definition DEFAULT_DIRECTORY_SIZE :: nat where
  "DEFAULT_DIRECTORY_SIZE = 4096"

section \<open>The acting identity\<close>

text \<open>
  The statics of the module \<open>ident\<close> and of \<open>effective_identity\<close>. \<open>ROOT_TIDS\<close> names the threads inside a
  root guard (the thread's number plus one, zero for a free slot); \<open>root_depth\<close> counts the guards that
  found no slot or no thread number. The number of the calling thread comes from the platform.
\<close>

record ident_state =
  ident_user :: u32
  ident_group :: u32
  root_tids :: "nat list"
  root_depth :: nat
  effective_assigned :: bool
  effective_user :: u32
  effective_group :: u32

definition ident_init :: ident_state where
  "ident_init = \<lparr>ident_user = - 1, ident_group = - 1, root_tids = replicate 64 0, root_depth = 0,
     effective_assigned = False, effective_user = 0, effective_group = 0\<rparr>"

definition ident_set :: "u32 \<Rightarrow> u32 \<Rightarrow> ident_state \<Rightarrow> ident_state" where
  "ident_set u g s = s\<lparr>ident_user := min u 0xffff, ident_group := min g 0xffff\<rparr>"

text \<open>The first free slot of \<open>ROOT_TIDS\<close> takes the thread; the guard remembers which.\<close>

fun claim_slot :: "nat \<Rightarrow> nat list \<Rightarrow> (nat \<times> nat list) option" where
  "claim_slot tid [] = None"
| "claim_slot tid (t # ts) =
     (if t = 0 then Some (0, tid # ts) else map_option (\<lambda>(i, ts'). (Suc i, t # ts')) (claim_slot tid ts))"

definition root_guard :: "nat option \<Rightarrow> ident_state \<Rightarrow> nat option \<times> ident_state" where
  "root_guard current_thread s =
     (case Option.bind current_thread (\<lambda>tid. claim_slot tid (root_tids s)) of
        Some (slot, tids) \<Rightarrow> (Some slot, s\<lparr>root_tids := tids\<rparr>)
      | None \<Rightarrow> (None, s\<lparr>root_depth := root_depth s + 1\<rparr>))"

definition drop_root_guard :: "nat option \<Rightarrow> ident_state \<Rightarrow> ident_state" where
  "drop_root_guard g s =
     (case g of
        Some slot \<Rightarrow> s\<lparr>root_tids := (root_tids s)[slot := 0]\<rparr>
      | None \<Rightarrow> s\<lparr>root_depth := root_depth s - 1\<rparr>)"

definition thread_is_root :: "nat option \<Rightarrow> ident_state \<Rightarrow> bool" where
  "thread_is_root current_thread s \<longleftrightarrow>
     root_depth s > 0 \<or> (case current_thread of Some tid \<Rightarrow> tid \<in> set (root_tids s) | None \<Rightarrow> False)"

definition ident_get :: "nat option \<Rightarrow> ident_state \<Rightarrow> user_info option" where
  "ident_get current_thread s =
     (if thread_is_root current_thread s then Some ROOT
      else if ident_user s \<noteq> - 1 \<and> ident_group s \<noteq> - 1
      then Some \<lparr>user = ucast (ident_user s), group = ucast (ident_group s)\<rparr>
      else None)"

definition narrowed_id :: "u32 \<Rightarrow> u16" where
  "narrowed_id i = (if unat i \<le> u16_max then ucast i else 0xfffe)"

definition set_effective_identity :: "u32 \<Rightarrow> u32 \<Rightarrow> ident_state \<Rightarrow> ident_state" where
  "set_effective_identity u g s = s\<lparr>effective_user := u, effective_group := g, effective_assigned := True\<rparr>"

definition effective_identity :: "ident_state \<Rightarrow> user_info option" where
  "effective_identity s =
     (if effective_assigned s
      then Some \<lparr>user = narrowed_id (effective_user s), group = narrowed_id (effective_group s)\<rparr>
      else None)"

text \<open>The body runs as root, as the effective identity and under a guard; then both are put back.\<close>

definition with_root_identity :: "nat option \<Rightarrow> (ident_state \<Rightarrow> 'r \<times> ident_state) \<Rightarrow> ident_state \<Rightarrow> 'r \<times> ident_state" where
  "with_root_identity current_thread body s =
     (let (g, s1) = root_guard current_thread (set_effective_identity 0 0 s);
          (r, s2) = body s1
      in (r, drop_root_guard g (s2\<lparr>effective_user := effective_user s, effective_group := effective_group s,
                effective_assigned := effective_assigned s\<rparr>)))"

section \<open>Errors\<close>

datatype path_error = NoSuchFileOrDirectory | NoSearchPerms | InvalidPathname | MissingComponent
  | ComponentNotADirectory | TooManySymlinkHops

datatype truncate_error = ClosedFd | IsDirectory | NotForWriting | IsTerminalDevice | PathOnlyFd | FileTooLarge | Io

datatype open_error = AccessNotAllowed | NoWritePerms | ReadOnlyFileSystem | AlreadyExists
  | TruncateError truncate_error | Io | PathError path_error

datatype fs_read_error = ClosedFd | NotAFile | NotForReading | Io

datatype fs_write_error = ClosedFd | NotAFile | NotForWriting | PermissionDenied | FileTooLarge | Io

datatype seek_error = ClosedFd | NotAFile | InvalidOffset | NonSeekable | PathOnlyFd | Io

datatype chmod_error = NotTheOwner | ReadOnlyFileSystem | Io | PathError path_error

datatype chown_error = NotTheOwner | ReadOnlyFileSystem | Io | PathError path_error

datatype set_times_error = NotPermitted | ReadOnlyFileSystem | Io | PathError path_error

datatype unlink_error = NoWritePerms | IsADirectory | ReadOnlyFileSystem | Io | PathError path_error

datatype rename_error = NoWritePerms | IsADirectory | DestinationIsADirectory | CrossDevice
  | ReadOnlyFileSystem | Io | PathError path_error

datatype link_error = NoWritePerms | IsADirectory | AlreadyExists | CrossDevice | ReadOnlyFileSystem | Io
  | PathError path_error

datatype symlink_error = NoWritePerms | AlreadyExists | ReadOnlyFileSystem | Io | PathError path_error

datatype read_link_error = NotASymlink | Io | PathError path_error

datatype mkdir_error = NoWritePerms | AlreadyExists | ReadOnlyFileSystem | Io | PathError path_error

datatype rmdir_error = NoWritePerms | Busy | NotEmpty | NotADirectory | ReadOnlyFileSystem | Io
  | PathError path_error

datatype read_dir_error = ClosedFd | NotADirectory | PathOnlyFd | Io

datatype file_status_error = ClosedFd | Io | PathError path_error

end
