(* ===== verification/FsErrno.thy ===== *)
theory FsErrno
  imports FsTypes
begin

text \<open>
  How the errors of the file systems become error numbers, \<^verbatim>\<open>litebox_common_linux/src/errno/mod.rs\<close>. Most of the
  matches end in a wildcard arm \<^verbatim>\<open>unimplemented!()\<close>. The case distinctions here list every
  variant, so that such an arm matches nothing; the one of \<open>ReadDirError\<close> does match two variants, and
  its conversion panics on them.
\<close>

section \<open>The conversions\<close>

definition errno_of_path :: "path_error \<Rightarrow> errno" where
  "errno_of_path e =
     (case e of
        NoSuchFileOrDirectory \<Rightarrow> ENOENT
      | NoSearchPerms \<Rightarrow> EACCES
      | InvalidPathname \<Rightarrow> EINVAL
      | MissingComponent \<Rightarrow> ENOENT
      | ComponentNotADirectory \<Rightarrow> ENOTDIR
      | TooManySymlinkHops \<Rightarrow> ELOOP)"

definition errno_of_truncate :: "truncate_error \<Rightarrow> errno" where
  "errno_of_truncate e =
     (case e of
        truncate_error.IsDirectory \<Rightarrow> EISDIR
      | truncate_error.NotForWriting \<Rightarrow> EACCES
      | truncate_error.IsTerminalDevice \<Rightarrow> EINVAL
      | truncate_error.ClosedFd \<Rightarrow> EBADF
      | truncate_error.PathOnlyFd \<Rightarrow> EBADF
      | truncate_error.FileTooLarge \<Rightarrow> EFBIG
      | truncate_error.Io \<Rightarrow> EIO)"

definition errno_of_open :: "open_error \<Rightarrow> errno" where
  "errno_of_open e =
     (case e of
        open_error.AccessNotAllowed \<Rightarrow> EACCES
      | open_error.NoWritePerms \<Rightarrow> EACCES
      | open_error.PathError p \<Rightarrow> errno_of_path p
      | open_error.ReadOnlyFileSystem \<Rightarrow> EROFS
      | open_error.AlreadyExists \<Rightarrow> EEXIST
      | open_error.Io \<Rightarrow> EIO
      | open_error.TruncateError t \<Rightarrow> errno_of_truncate t)"

definition errno_of_unlink :: "unlink_error \<Rightarrow> errno" where
  "errno_of_unlink e =
     (case e of
        unlink_error.NoWritePerms \<Rightarrow> EACCES
      | unlink_error.IsADirectory \<Rightarrow> EISDIR
      | unlink_error.ReadOnlyFileSystem \<Rightarrow> EROFS
      | unlink_error.Io \<Rightarrow> EIO
      | unlink_error.PathError p \<Rightarrow> errno_of_path p)"

definition errno_of_rename :: "rename_error \<Rightarrow> errno" where
  "errno_of_rename e =
     (case e of
        rename_error.NoWritePerms \<Rightarrow> EACCES
      | rename_error.IsADirectory \<Rightarrow> EISDIR
      | rename_error.DestinationIsADirectory \<Rightarrow> EISDIR
      | rename_error.CrossDevice \<Rightarrow> EXDEV
      | rename_error.ReadOnlyFileSystem \<Rightarrow> EROFS
      | rename_error.Io \<Rightarrow> EIO
      | rename_error.PathError p \<Rightarrow> errno_of_path p)"

definition errno_of_link :: "link_error \<Rightarrow> errno" where
  "errno_of_link e =
     (case e of
        link_error.NoWritePerms \<Rightarrow> EACCES
      | link_error.IsADirectory \<Rightarrow> EPERM
      | link_error.AlreadyExists \<Rightarrow> EEXIST
      | link_error.CrossDevice \<Rightarrow> EXDEV
      | link_error.ReadOnlyFileSystem \<Rightarrow> EROFS
      | link_error.Io \<Rightarrow> EIO
      | link_error.PathError p \<Rightarrow> errno_of_path p)"

definition errno_of_symlink :: "symlink_error \<Rightarrow> errno" where
  "errno_of_symlink e =
     (case e of
        symlink_error.NoWritePerms \<Rightarrow> EACCES
      | symlink_error.AlreadyExists \<Rightarrow> EEXIST
      | symlink_error.ReadOnlyFileSystem \<Rightarrow> EROFS
      | symlink_error.Io \<Rightarrow> EIO
      | symlink_error.PathError p \<Rightarrow> errno_of_path p)"

definition errno_of_read_link :: "read_link_error \<Rightarrow> errno" where
  "errno_of_read_link e =
     (case e of
        read_link_error.NotASymlink \<Rightarrow> EINVAL
      | read_link_error.Io \<Rightarrow> EIO
      | read_link_error.PathError p \<Rightarrow> errno_of_path p)"

definition errno_of_rmdir :: "rmdir_error \<Rightarrow> errno" where
  "errno_of_rmdir e =
     (case e of
        rmdir_error.NoWritePerms \<Rightarrow> EACCES
      | rmdir_error.Busy \<Rightarrow> EBUSY
      | rmdir_error.NotEmpty \<Rightarrow> ENOTEMPTY
      | rmdir_error.NotADirectory \<Rightarrow> ENOTDIR
      | rmdir_error.ReadOnlyFileSystem \<Rightarrow> EROFS
      | rmdir_error.Io \<Rightarrow> EIO
      | rmdir_error.PathError p \<Rightarrow> errno_of_path p)"

definition errno_of_chmod :: "chmod_error \<Rightarrow> errno" where
  "errno_of_chmod e =
     (case e of
        chmod_error.NotTheOwner \<Rightarrow> EPERM
      | chmod_error.ReadOnlyFileSystem \<Rightarrow> EROFS
      | chmod_error.Io \<Rightarrow> EIO
      | chmod_error.PathError p \<Rightarrow> errno_of_path p)"

definition errno_of_chown :: "chown_error \<Rightarrow> errno" where
  "errno_of_chown e =
     (case e of
        chown_error.NotTheOwner \<Rightarrow> EPERM
      | chown_error.ReadOnlyFileSystem \<Rightarrow> EROFS
      | chown_error.Io \<Rightarrow> EIO
      | chown_error.PathError p \<Rightarrow> errno_of_path p)"

definition errno_of_set_times :: "set_times_error \<Rightarrow> errno" where
  "errno_of_set_times e =
     (case e of
        set_times_error.NotPermitted \<Rightarrow> EPERM
      | set_times_error.ReadOnlyFileSystem \<Rightarrow> EROFS
      | set_times_error.Io \<Rightarrow> EIO
      | set_times_error.PathError p \<Rightarrow> errno_of_path p)"

definition errno_of_read :: "fs_read_error \<Rightarrow> errno" where
  "errno_of_read e =
     (case e of
        fs_read_error.ClosedFd \<Rightarrow> EBADF
      | fs_read_error.NotAFile \<Rightarrow> EISDIR
      | fs_read_error.NotForReading \<Rightarrow> EBADF
      | fs_read_error.Io \<Rightarrow> EIO)"

definition errno_of_write :: "fs_write_error \<Rightarrow> errno" where
  "errno_of_write e =
     (case e of
        fs_write_error.ClosedFd \<Rightarrow> EBADF
      | fs_write_error.NotAFile \<Rightarrow> EISDIR
      | fs_write_error.NotForWriting \<Rightarrow> EBADF
      | fs_write_error.PermissionDenied \<Rightarrow> EPERM
      | fs_write_error.FileTooLarge \<Rightarrow> EFBIG
      | fs_write_error.Io \<Rightarrow> EIO)"

definition errno_of_seek :: "seek_error \<Rightarrow> errno" where
  "errno_of_seek e =
     (case e of
        seek_error.NotAFile \<Rightarrow> EBADF
      | seek_error.ClosedFd \<Rightarrow> EBADF
      | seek_error.PathOnlyFd \<Rightarrow> EBADF
      | seek_error.InvalidOffset \<Rightarrow> EINVAL
      | seek_error.NonSeekable \<Rightarrow> ESPIPE
      | seek_error.Io \<Rightarrow> EIO)"

definition errno_of_mkdir :: "mkdir_error \<Rightarrow> errno" where
  "errno_of_mkdir e =
     (case e of
        mkdir_error.PathError p \<Rightarrow> errno_of_path p
      | mkdir_error.AlreadyExists \<Rightarrow> EEXIST
      | mkdir_error.ReadOnlyFileSystem \<Rightarrow> EROFS
      | mkdir_error.NoWritePerms \<Rightarrow> EACCES
      | mkdir_error.Io \<Rightarrow> EIO)"

definition errno_of_file_status :: "file_status_error \<Rightarrow> errno" where
  "errno_of_file_status e =
     (case e of
        file_status_error.PathError p \<Rightarrow> errno_of_path p
      | file_status_error.ClosedFd \<Rightarrow> EBADF
      | file_status_error.Io \<Rightarrow> EIO)"

definition errno_of_read_dir :: "read_dir_error \<Rightarrow> errno outcome" where
  "errno_of_read_dir e =
     (case e of
        read_dir_error.NotADirectory \<Rightarrow> Done ENOTDIR
      | read_dir_error.PathOnlyFd \<Rightarrow> Done EBADF
      | _ \<Rightarrow> Panic)"

end
