(* ===== verification/InMemFs.thy ===== *)
theory InMemFs
  imports FsTypes Path DescriptorTable
begin

text \<open>
  The in-memory file system, \<^verbatim>\<open>litebox/src/fs/in_mem.rs\<close>: its state, the walk along a path and the
  operations of the trait \<open>FileSystem\<close>. The map from normalised paths to entries is an association list;
  its order stands for the iteration order of the hash map. An entry is an address into a heap of
  files, directories or links, as an \<^verbatim>\<open>Arc\<close> is; several paths may hold one file address (hard links).
  Descriptors live in the descriptor table. Each call takes the locks it needs at once; what it
  asks of its surroundings, the calling thread, the clock and the allocator, is a record. A panic is an
  outcome of its own, and the state after a failed call is returned with the error.
\<close>

section \<open>State\<close>

datatype cow = Borrowed (cow_bytes: "u8 list") | Owned (cow_bytes: "u8 list")

record permissions =
  p_mode :: u32
  p_userinfo :: user_info
  p_atime :: timestamp
  p_mtime :: timestamp

record file_x =
  f_perms :: permissions
  f_data :: cow
  f_unique_id :: nat
  f_nlink :: nat
  is_fifo :: bool

record dir_x =
  d_perms :: permissions
  children :: "(string \<times> file_type) list"
  d_unique_id :: nat

record symlink_x =
  s_perms :: permissions
  s_target :: string
  s_unique_id :: nat

datatype fs_entry = File nat | Dir nat | Symlink nat

record in_mem_fs =
  root_entries :: "(string \<times> fs_entry) list"
  files :: "nat \<Rightarrow> file_x"
  dirs :: "nat \<Rightarrow> dir_x"
  links :: "nat \<Rightarrow> symlink_x"
  next_node :: nat
  current_user :: user_info
  identity_forced :: bool
  current_working_dir :: string
  unique_id_freshness :: nat

record file_desc =
  fd_file :: nat
  read_allowed :: bool
  write_allowed :: bool
  position :: nat
  append_mode :: bool

datatype fs_descriptor = FileDesc file_desc | DirDesc nat

record 'm fs_world =
  fs :: in_mem_fs
  fd_table :: "(fs_descriptor, 'm) descriptors"

text \<open>
  The surroundings of a call: the number of the calling thread (plus one) and the statics that say
  as whom it acts, the answers of the clock to the successive questions of the call, and whether a
  vector of a given length can grow by a given number of bytes.
\<close>

record fs_env =
  calling_thread :: "nat option"
  ident :: ident_state
  clock_now :: "nat \<Rightarrow> timestamp"
  can_reserve :: "nat \<Rightarrow> nat \<Rightarrow> bool"

definition DEVICE_ID :: nat where "DEVICE_ID = 0x494d656d"

definition BLOCK_SIZE :: nat where "BLOCK_SIZE = 0"

definition MAX_SYMLINK_HOPS :: nat where "MAX_SYMLINK_HOPS = 8"

definition WALK_SYMLINK_HOPS :: nat where "WALK_SYMLINK_HOPS = 40"

section \<open>Permissions\<close>

definition can_read_by :: "permissions \<Rightarrow> user_info \<Rightarrow> bool" where
  "can_read_by p current =
     (if user current = 0 then True
      else if user (p_userinfo p) = user current then contains (p_mode p) RUSR
      else if group (p_userinfo p) = group current then contains (p_mode p) RGRP
      else contains (p_mode p) ROTH)"

definition can_write_by :: "permissions \<Rightarrow> user_info \<Rightarrow> bool" where
  "can_write_by p current =
     (if user current = 0 then True
      else if user (p_userinfo p) = user current then contains (p_mode p) WUSR
      else if group (p_userinfo p) = group current then contains (p_mode p) WGRP
      else contains (p_mode p) WOTH)"

definition can_execute_by :: "permissions \<Rightarrow> user_info \<Rightarrow> bool" where
  "can_execute_by p current =
     (if user current = 0 then p_mode p AND (XUSR OR XGRP OR XOTH) \<noteq> 0
      else if user (p_userinfo p) = user current then contains (p_mode p) XUSR
      else if group (p_userinfo p) = group current then contains (p_mode p) XGRP
      else contains (p_mode p) XOTH)"

definition entry_perms :: "fs_entry \<Rightarrow> in_mem_fs \<Rightarrow> permissions" where
  "entry_perms e s =
     (case e of File a \<Rightarrow> f_perms (files s a) | Dir a \<Rightarrow> d_perms (dirs s a) | Symlink a \<Rightarrow> s_perms (links s a))"

text \<open>Assignment through the write guard of an entry's permissions.\<close>

definition set_entry_perms :: "fs_entry \<Rightarrow> permissions \<Rightarrow> in_mem_fs \<Rightarrow> in_mem_fs" where
  "set_entry_perms e p s =
     (case e of
        File a \<Rightarrow> s\<lparr>files := (files s)(a := (files s a)\<lparr>f_perms := p\<rparr>)\<rparr>
      | Dir a \<Rightarrow> s\<lparr>dirs := (dirs s)(a := (dirs s a)\<lparr>d_perms := p\<rparr>)\<rparr>
      | Symlink a \<Rightarrow> s\<lparr>links := (links s)(a := (links s a)\<lparr>s_perms := p\<rparr>)\<rparr>)"

definition acting_user :: "fs_env \<Rightarrow> in_mem_fs \<Rightarrow> user_info" where
  "acting_user env s =
     (if identity_forced s then current_user s
      else case ident_get (calling_thread env) (ident env) of
             Some u \<Rightarrow> u
           | None \<Rightarrow> (case effective_identity (ident env) of Some u \<Rightarrow> u | None \<Rightarrow> current_user s))"

definition apply_times ::
    "permissions \<Rightarrow> user_info \<Rightarrow> timestamp option \<Rightarrow> timestamp option \<Rightarrow> (set_times_error + unit) \<times> permissions" where
  "apply_times p current atime mtime =
     (if \<not> (user current = 0 \<or> user current = user (p_userinfo p) \<or> can_write_by p current)
      then (Inl NotPermitted, p)
      else
        let p1 = (case atime of Some t \<Rightarrow> p\<lparr>p_atime := t\<rparr> | None \<Rightarrow> p);
            p2 = (case mtime of Some t \<Rightarrow> p1\<lparr>p_mtime := t\<rparr> | None \<Rightarrow> p1)
        in (Inr (), p2))"

section \<open>Creation\<close>

definition root_dir_new :: "fs_env \<Rightarrow> dir_x" where
  "root_dir_new env =
     \<lparr>d_perms = \<lparr>p_mode = RWXU OR RGRP OR XGRP OR ROTH OR XOTH, p_userinfo = \<lparr>user = 0, group = 0\<rparr>,
                 p_atime = clock_now env 0, p_mtime = clock_now env 1\<rparr>,
      children = [], d_unique_id = 0\<rparr>"

text \<open>Unused addresses of the heaps hold the values given here.\<close>

definition fs_new :: "fs_env \<Rightarrow> in_mem_fs" where
  "fs_new env =
     (let d = root_dir_new env in
      \<lparr>root_entries = [('''', Dir 0)],
       files = (\<lambda>_. \<lparr>f_perms = d_perms d, f_data = Owned [], f_unique_id = 0, f_nlink = 0, is_fifo = False\<rparr>),
       dirs = (\<lambda>_. d),
       links = (\<lambda>_. \<lparr>s_perms = d_perms d, s_target = '''', s_unique_id = 0\<rparr>),
       next_node = 1,
       current_user = \<lparr>user = 1000, group = 1000\<rparr>, identity_forced = False,
       current_working_dir = ''/'', unique_id_freshness = 1\<rparr>)"

definition set_default_user :: "u16 \<Rightarrow> u16 \<Rightarrow> in_mem_fs \<Rightarrow> in_mem_fs" where
  "set_default_user u g s = s\<lparr>current_user := \<lparr>user = u, group = g\<rparr>\<rparr>"

text \<open>The closure works on the world; it may not leave another user in place.\<close>

definition with_root_privileges :: "('m fs_world \<Rightarrow> 'm fs_world outcome) \<Rightarrow> 'm fs_world \<Rightarrow> 'm fs_world outcome" where
  "with_root_privileges f w =
     obind (f (w\<lparr>fs := (fs w)\<lparr>current_user := ROOT, identity_forced := True\<rparr>\<rparr>)) (\<lambda>w'.
       assert_that (current_user (fs w') = ROOT)
         (Done (w'\<lparr>fs := (fs w')\<lparr>identity_forced := False, current_user := current_user (fs w)\<rparr>\<rparr>)))"

definition fresh_id :: "in_mem_fs \<Rightarrow> (nat \<times> in_mem_fs) outcome" where
  "fresh_id s =
     (let res = unique_id_freshness s in
      assert_that (res \<noteq> usize_max) (Done (res, s\<lparr>unique_id_freshness := (res + 1) mod 2 ^ 64\<rparr>)))"

section \<open>The walk along a path\<close>

definition absolute_path :: "string \<Rightarrow> in_mem_fs \<Rightarrow> string outcome" where
  "absolute_path path s =
     assert_that (suffix ''/'' (current_working_dir s))
       (Done (if starts_with_slash path then normalized path else normalized (current_working_dir s @ path)))"

text \<open>\<^verbatim>\<open>rsplit_once('/').map_or("", |(head, _)| head)\<close>.\<close>

definition parent_of :: "string \<Rightarrow> string" where
  "parent_of s = (case rfind_slash s of Some i \<Rightarrow> take i s | None \<Rightarrow> '''')"

text \<open>
  One pass over the components. It arrives with the last directory entered and the path collected, or
  meets a link and starts over with the path rebuilt from the link's target, or fails.
\<close>

datatype walk_result =
    Arrived "(string \<times> nat) option" string
  | StartOver string
  | WalkFailed path_error

fun walk_from ::
    "in_mem_fs \<Rightarrow> user_info \<Rightarrow> bool \<Rightarrow> string \<Rightarrow> (string \<times> nat) option \<Rightarrow> string list \<Rightarrow> walk_result outcome" where
  "walk_from s u seen collected parent [] = Done (Arrived parent collected)"
| "walk_from s u seen collected parent (p # ps) =
     (if p = '''' \<or> p = ''..'' then assert_that (\<not> seen) (walk_from s u seen collected parent ps)
      else
        case map_of (root_entries s) collected of
          None \<Rightarrow> Done (WalkFailed MissingComponent)
        | Some (File _) \<Rightarrow> Done (WalkFailed ComponentNotADirectory)
        | Some (Symlink l) \<Rightarrow>
            let target = s_target (links s l);
                base = (if starts_with_slash target then '''' else parent_of collected)
            in Done (StartOver (base @ ''/'' @ dropWhile (\<lambda>c. c = CHR ''/'') target
                      @ concat (map (\<lambda>rest. ''/'' @ rest) (p # ps))))
        | Some (Dir d) \<Rightarrow>
            if \<not> can_execute_by (d_perms (dirs s d)) u then Done (WalkFailed NoSearchPerms)
            else walk_from s u True (collected @ ''/'' @ p) (Some (collected, d)) ps)"

text \<open>The argument is the number of links that may still be followed.\<close>

primrec walk_loop ::
    "nat \<Rightarrow> in_mem_fs \<Rightarrow> user_info \<Rightarrow> string \<Rightarrow> (path_error + (string \<times> nat) option \<times> fs_entry option) outcome" where
  "walk_loop 0 s u path =
     obind (walk_from s u False '''' None (normalized_components path)) (\<lambda>r.
       Done (case r of
               Arrived parent collected \<Rightarrow> Inr (parent, map_of (root_entries s) collected)
             | StartOver _ \<Rightarrow> Inl TooManySymlinkHops
             | WalkFailed e \<Rightarrow> Inl e))"
| "walk_loop (Suc n) s u path =
     obind (walk_from s u False '''' None (normalized_components path)) (\<lambda>r.
       case r of
         Arrived parent collected \<Rightarrow> Done (Inr (parent, map_of (root_entries s) collected))
       | StartOver path' \<Rightarrow> walk_loop n s u path'
       | WalkFailed e \<Rightarrow> Done (Inl e))"

definition parent_and_entry ::
    "string \<Rightarrow> user_info \<Rightarrow> in_mem_fs \<Rightarrow> (path_error + (string \<times> nat) option \<times> fs_entry option) outcome" where
  "parent_and_entry path u s = walk_loop WALK_SYMLINK_HOPS s u path"

definition resolved_path :: "string \<Rightarrow> user_info \<Rightarrow> in_mem_fs \<Rightarrow> (path_error + string) outcome" where
  "resolved_path path u s =
     obind (parent_and_entry path u s) (\<lambda>r.
       Done (case r of
               Inl e \<Rightarrow> Inl e
             | Inr (None, _) \<Rightarrow> Inr path
             | Inr (Some (parent_path, _), _) \<Rightarrow>
                 (let names = filter (\<lambda>c. c \<noteq> '''' \<and> c \<noteq> ''..'') (normalized_components path)
                  in Inr (if names = [] then path else parent_path @ ''/'' @ last names))))"

text \<open>The loop of \<open>resolve_final_symlinks\<close>, with the number of turns left.\<close>

primrec resolve_loop :: "nat \<Rightarrow> user_info \<Rightarrow> in_mem_fs \<Rightarrow> string \<Rightarrow> (path_error + string) outcome" where
  "resolve_loop 0 u s current = Done (Inl TooManySymlinkHops)"
| "resolve_loop (Suc n) u s current =
     obind (parent_and_entry current u s) (\<lambda>r.
       case r of
         Inl e \<Rightarrow> Done (Inl e)
       | Inr (_, Some (Symlink l)) \<Rightarrow>
           let target = s_target (links s l)
           in resolve_loop n u s
                (if starts_with_slash target then normalized target
                 else normalized (parent_of current @ ''/'' @ target))
       | Inr _ \<Rightarrow> Done (Inr current))"

definition resolve_final_symlinks :: "string \<Rightarrow> user_info \<Rightarrow> in_mem_fs \<Rightarrow> (path_error + string) outcome" where
  "resolve_final_symlinks path u s = resolve_loop MAX_SYMLINK_HOPS u s path"

text \<open>
  The operator \<^verbatim>\<open>?\<close> on a path error: the error, wrapped, with the state as it is, or the rest of
  the call.
\<close>

definition try_path ::
    "(path_error \<Rightarrow> 'e) \<Rightarrow> 's \<Rightarrow> (path_error + 'a) outcome \<Rightarrow> ('a \<Rightarrow> (('e + 'r) \<times> 's) outcome) \<Rightarrow>
     (('e + 'r) \<times> 's) outcome" where
  "try_path wrap s m k = obind m (\<lambda>x. case x of Inl e \<Rightarrow> Done (Inl (wrap e), s) | Inr a \<Rightarrow> k a)"

section \<open>Operations on names\<close>

text \<open>
  What the operations that add or remove a name share: the parent directory gets the clock's answer as
  its modification time and its child inserted (with the assertion that there was none) or removed,
  and the map gets the entry inserted (again with the assertion).
\<close>

definition insert_child :: "nat \<Rightarrow> string \<Rightarrow> file_type \<Rightarrow> timestamp \<Rightarrow> in_mem_fs \<Rightarrow> in_mem_fs outcome" where
  "insert_child d name ft t s =
     (let dx = dirs s d in
      assert_that (map_of (children dx) name = None)
        (Done (s\<lparr>dirs := (dirs s)(d := dx\<lparr>d_perms := (d_perms dx)\<lparr>p_mtime := t\<rparr>,
                                       children := AList.update name ft (children dx)\<rparr>)\<rparr>)))"

definition remove_child :: "nat \<Rightarrow> string \<Rightarrow> timestamp \<Rightarrow> in_mem_fs \<Rightarrow> file_type option \<times> in_mem_fs" where
  "remove_child d name t s =
     (let dx = dirs s d in
      (map_of (children dx) name,
       s\<lparr>dirs := (dirs s)(d := dx\<lparr>d_perms := (d_perms dx)\<lparr>p_mtime := t\<rparr>,
                                children := AList.delete name (children dx)\<rparr>)\<rparr>))"

definition insert_entry :: "string \<Rightarrow> fs_entry \<Rightarrow> in_mem_fs \<Rightarrow> in_mem_fs outcome" where
  "insert_entry path e s =
     assert_that (map_of (root_entries s) path = None)
       (Done (s\<lparr>root_entries := AList.update path e (root_entries s)\<rparr>))"

definition remove_entry :: "string \<Rightarrow> in_mem_fs \<Rightarrow> (fs_entry \<times> in_mem_fs) outcome" where
  "remove_entry path s =
     obind (unwrap (map_of (root_entries s) path)) (\<lambda>e.
       Done (e, s\<lparr>root_entries := AList.delete path (root_entries s)\<rparr>))"

definition is_dir :: "fs_entry \<Rightarrow> bool" where
  "is_dir e = (case e of Dir _ \<Rightarrow> True | _ \<Rightarrow> False)"

text \<open>\<^verbatim>\<open>Arc::new(RwLock::new(..))\<close> for each kind of node.\<close>

definition new_file :: "file_x \<Rightarrow> in_mem_fs \<Rightarrow> fs_entry \<times> in_mem_fs" where
  "new_file x s = (File (next_node s), s\<lparr>files := (files s)(next_node s := x), next_node := next_node s + 1\<rparr>)"

definition new_dir :: "dir_x \<Rightarrow> in_mem_fs \<Rightarrow> fs_entry \<times> in_mem_fs" where
  "new_dir x s = (Dir (next_node s), s\<lparr>dirs := (dirs s)(next_node s := x), next_node := next_node s + 1\<rparr>)"

definition new_symlink :: "symlink_x \<Rightarrow> in_mem_fs \<Rightarrow> fs_entry \<times> in_mem_fs" where
  "new_symlink x s = (Symlink (next_node s), s\<lparr>links := (links s)(next_node s := x), next_node := next_node s + 1\<rparr>)"

definition mkdir :: "fs_env \<Rightarrow> string \<Rightarrow> u32 \<Rightarrow> in_mem_fs \<Rightarrow> ((mkdir_error + unit) \<times> in_mem_fs) outcome" where
  "mkdir env path m s =
     (let u = acting_user env s in
      obind (absolute_path path s) (\<lambda>path.
      try_path mkdir_error.PathError s (resolved_path path u s) (\<lambda>path.
      try_path mkdir_error.PathError s (parent_and_entry path u s) (\<lambda>(parent, entry).
        case parent of
          None \<Rightarrow> Done (Inl mkdir_error.AlreadyExists, s)
        | Some (_, d) \<Rightarrow>
            if entry \<noteq> None then Done (Inl mkdir_error.AlreadyExists, s)
            else if \<not> can_write_by (d_perms (dirs s d)) u then Done (Inl mkdir_error.NoWritePerms, s)
            else
              obind (insert_child d (last (components path)) Directory (clock_now env 0) s) (\<lambda>s.
              obind (fresh_id s) (\<lambda>(i, s).
                let (e, s) = new_dir \<lparr>d_perms = \<lparr>p_mode = m, p_userinfo = u, p_atime = clock_now env 1,
                                                p_mtime = clock_now env 2\<rparr>,
                                      children = [], d_unique_id = i\<rparr> s
                in obind (insert_entry path e s) (\<lambda>s. Done (Inr (), s))))))))"

definition rmdir :: "fs_env \<Rightarrow> string \<Rightarrow> in_mem_fs \<Rightarrow> ((rmdir_error + unit) \<times> in_mem_fs) outcome" where
  "rmdir env path s =
     (let u = acting_user env s in
      obind (absolute_path path s) (\<lambda>path.
      try_path rmdir_error.PathError s (resolved_path path u s) (\<lambda>path.
      try_path rmdir_error.PathError s (parent_and_entry path u s) (\<lambda>(parent, entry).
        case parent of
          None \<Rightarrow> Done (Inl Busy, s)
        | Some (_, d) \<Rightarrow>
            (case entry of
               None \<Rightarrow> Done (Inl (rmdir_error.PathError NoSuchFileOrDirectory), s)
             | Some (Dir a) \<Rightarrow>
                 if children (dirs s a) \<noteq> [] then Done (Inl NotEmpty, s)
                 else if \<not> can_write_by (d_perms (dirs s d)) u then Done (Inl rmdir_error.NoWritePerms, s)
                 else
                   let (removed, s) = remove_child d (last (components path)) (clock_now env 0) s
                   in assert_that (removed = Some Directory)
                        (obind (remove_entry path s) (\<lambda>(e, s).
                           assert_that (is_dir e) (Done (Inr (), s))))
             | Some _ \<Rightarrow> Done (Inl rmdir_error.NotADirectory, s))))))"

definition unlink :: "fs_env \<Rightarrow> string \<Rightarrow> in_mem_fs \<Rightarrow> ((unlink_error + unit) \<times> in_mem_fs) outcome" where
  "unlink env path s =
     (let u = acting_user env s in
      obind (absolute_path path s) (\<lambda>path.
      try_path unlink_error.PathError s (resolved_path path u s) (\<lambda>path.
      try_path unlink_error.PathError s (parent_and_entry path u s) (\<lambda>(parent, entry).
        case parent of
          None \<Rightarrow> Done (Inl unlink_error.IsADirectory, s)
        | Some (_, d) \<Rightarrow>
            (case entry of
               None \<Rightarrow> Done (Inl (unlink_error.PathError NoSuchFileOrDirectory), s)
             | Some (Dir _) \<Rightarrow> Done (Inl unlink_error.IsADirectory, s)
             | Some _ \<Rightarrow>
                 if \<not> can_write_by (d_perms (dirs s d)) u then Done (Inl unlink_error.NoWritePerms, s)
                 else
                   let (removed, s) = remove_child d (last (components path)) (clock_now env 0) s
                   in assert_that (removed \<in> {Some RegularFile, Some file_type.Symlink, Some Fifo})
                        (obind (remove_entry path s) (\<lambda>(e, s).
                           case e of
                             Dir _ \<Rightarrow> Panic
                           | Symlink _ \<Rightarrow> Done (Inr (), s)
                           | File a \<Rightarrow>
                               Done (Inr (), s\<lparr>files := (files s)(a := (files s a)\<lparr>f_nlink := f_nlink (files s a) - 1\<rparr>)\<rparr>))))))))"

definition link :: "fs_env \<Rightarrow> string \<Rightarrow> string \<Rightarrow> in_mem_fs \<Rightarrow> ((link_error + unit) \<times> in_mem_fs) outcome" where
  "link env oldpath newpath s =
     (let u = acting_user env s in
      obind (absolute_path oldpath s) (\<lambda>oldpath.
      obind (absolute_path newpath s) (\<lambda>newpath.
      try_path link_error.PathError s (parent_and_entry oldpath u s) (\<lambda>(_, old_entry).
        case old_entry of
          None \<Rightarrow> Done (Inl (link_error.PathError NoSuchFileOrDirectory), s)
        | Some (File a) \<Rightarrow>
            try_path link_error.PathError s (resolved_path newpath u s) (\<lambda>newpath.
            try_path link_error.PathError s (parent_and_entry newpath u s) (\<lambda>(new_parent, new_entry).
              if new_entry \<noteq> None then Done (Inl link_error.AlreadyExists, s)
              else
                case new_parent of
                  None \<Rightarrow> Panic
                | Some (_, d) \<Rightarrow>
                    if \<not> can_write_by (d_perms (dirs s d)) u then Done (Inl link_error.NoWritePerms, s)
                    else
                      obind (insert_child d (last (components newpath)) RegularFile (clock_now env 0) s) (\<lambda>s.
                      obind (insert_entry newpath (File a)
                               (s\<lparr>files := (files s)(a := (files s a)\<lparr>f_nlink := f_nlink (files s a) + 1\<rparr>)\<rparr>)) (\<lambda>s.
                        Done (Inr (), s)))))
        | Some _ \<Rightarrow> Done (Inl link_error.IsADirectory, s)))))"

definition make_fifo :: "fs_env \<Rightarrow> string \<Rightarrow> u32 \<Rightarrow> in_mem_fs \<Rightarrow> ((mkdir_error + unit) \<times> in_mem_fs) outcome" where
  "make_fifo env path m s =
     (let u = acting_user env s in
      obind (absolute_path path s) (\<lambda>path.
      try_path mkdir_error.PathError s (resolved_path path u s) (\<lambda>path.
      try_path mkdir_error.PathError s (parent_and_entry path u s) (\<lambda>(parent, entry).
        if entry \<noteq> None then Done (Inl mkdir_error.AlreadyExists, s)
        else
          case parent of
            None \<Rightarrow> Panic
          | Some (_, d) \<Rightarrow>
              if \<not> can_write_by (d_perms (dirs s d)) u then Done (Inl mkdir_error.NoWritePerms, s)
              else
                obind (insert_child d (last (components path)) Fifo (clock_now env 0) s) (\<lambda>s.
                obind (fresh_id s) (\<lambda>(i, s).
                  let (e, s) = new_file \<lparr>f_perms = \<lparr>p_mode = m, p_userinfo = u, p_atime = timestamp_default,
                                                   p_mtime = timestamp_default\<rparr>,
                                         f_data = Owned [], f_unique_id = i, f_nlink = 1, is_fifo = True\<rparr> s
                  in obind (insert_entry path e s) (\<lambda>s. Done (Inr (), s))))))))"

definition symlink :: "fs_env \<Rightarrow> string \<Rightarrow> string \<Rightarrow> in_mem_fs \<Rightarrow> ((symlink_error + unit) \<times> in_mem_fs) outcome" where
  "symlink env target linkpath s =
     (let u = acting_user env s in
      obind (absolute_path linkpath s) (\<lambda>linkpath.
      try_path symlink_error.PathError s (resolved_path linkpath u s) (\<lambda>linkpath.
      try_path symlink_error.PathError s (parent_and_entry linkpath u s) (\<lambda>(parent, entry).
        if entry \<noteq> None then Done (Inl symlink_error.AlreadyExists, s)
        else
          case parent of
            None \<Rightarrow> Panic
          | Some (_, d) \<Rightarrow>
              if \<not> can_write_by (d_perms (dirs s d)) u then Done (Inl symlink_error.NoWritePerms, s)
              else
                obind (insert_child d (last (components linkpath)) file_type.Symlink (clock_now env 0) s) (\<lambda>s.
                obind (fresh_id s) (\<lambda>(i, s).
                  let (e, s) = new_symlink \<lparr>s_perms = \<lparr>p_mode = RWXU OR RWXG OR RWXO, p_userinfo = u,
                                                      p_atime = clock_now env 1, p_mtime = clock_now env 2\<rparr>,
                                            s_target = target, s_unique_id = i\<rparr> s
                  in obind (insert_entry linkpath e s) (\<lambda>s. Done (Inr (), s))))))))"

definition read_link :: "fs_env \<Rightarrow> string \<Rightarrow> in_mem_fs \<Rightarrow> (read_link_error + string) outcome" where
  "read_link env path s =
     obind (absolute_path path s) (\<lambda>path.
     obind (parent_and_entry path (acting_user env s) s) (\<lambda>r.
       Done (case r of
               Inl e \<Rightarrow> Inl (read_link_error.PathError e)
             | Inr (_, None) \<Rightarrow> Inl (read_link_error.PathError NoSuchFileOrDirectory)
             | Inr (_, Some (Symlink l)) \<Rightarrow> Inr (s_target (links s l))
             | Inr (_, Some _) \<Rightarrow> Inl NotASymlink)))"

text \<open>The re-keying of a moved directory's descendants: each key is removed and inserted again.\<close>

primrec rekey_loop :: "string \<Rightarrow> string \<Rightarrow> string list \<Rightarrow> in_mem_fs \<Rightarrow> in_mem_fs outcome" where
  "rekey_loop old_prefix new_prefix [] s = Done s"
| "rekey_loop old_prefix new_prefix (key # keys) s =
     obind (remove_entry key s) (\<lambda>(e, s).
       rekey_loop old_prefix new_prefix keys
         (s\<lparr>root_entries := AList.update (new_prefix @ drop (length old_prefix) key) e (root_entries s)\<rparr>))"

definition rekey_descendants :: "string \<Rightarrow> string \<Rightarrow> in_mem_fs \<Rightarrow> in_mem_fs outcome" where
  "rekey_descendants from to s =
     rekey_loop (from @ ''/'') (to @ ''/'')
       (filter (prefix (from @ ''/'')) (map fst (root_entries s))) s"

text \<open>The change of the parents' children: the error, or the state after it.\<close>

definition move_child ::
    "fs_env \<Rightarrow> user_info \<Rightarrow> bool \<Rightarrow> nat \<Rightarrow> string \<Rightarrow> nat \<Rightarrow> string \<Rightarrow> in_mem_fs \<Rightarrow> (rename_error option \<times> in_mem_fs)" where
  "move_child env u same_parent fd from_name td to_name s =
     (if same_parent then
        if \<not> can_write_by (d_perms (dirs s fd)) u then (Some rename_error.NoWritePerms, s)
        else
          let (removed, s) = remove_child fd from_name (clock_now env 0) s
          in case removed of
               None \<Rightarrow> (Some (rename_error.PathError NoSuchFileOrDirectory), s)
             | Some ft \<Rightarrow>
                 (None, s\<lparr>dirs := (dirs s)(fd := (dirs s fd)\<lparr>children := AList.update to_name ft (children (dirs s fd))\<rparr>)\<rparr>)
      else
        if \<not> can_write_by (d_perms (dirs s fd)) u \<or> \<not> can_write_by (d_perms (dirs s td)) u
        then (Some rename_error.NoWritePerms, s)
        else
          let (removed, s) = remove_child fd from_name (clock_now env 0) s
          in case removed of
               None \<Rightarrow> (Some (rename_error.PathError NoSuchFileOrDirectory), s)
             | Some ft \<Rightarrow>
                 (None, s\<lparr>dirs := (dirs s)(td := (dirs s td)\<lparr>d_perms := (d_perms (dirs s td))\<lparr>p_mtime := clock_now env 1\<rparr>,
                                            children := AList.update to_name ft (children (dirs s td))\<rparr>)\<rparr>))"

text \<open>The map after the children: the entry moves, descendants follow, a replaced file loses a link.\<close>

definition move_entry :: "bool \<Rightarrow> string \<Rightarrow> string \<Rightarrow> in_mem_fs \<Rightarrow> in_mem_fs outcome" where
  "move_entry from_is_dir from to s =
     obind (remove_entry from s) (\<lambda>(moved, s).
     obind (if from_is_dir then rekey_descendants from to s else Done s) (\<lambda>s.
       let replaced = map_of (root_entries s) to;
           s = s\<lparr>root_entries := AList.update to moved (root_entries s)\<rparr>
       in Done (case replaced of
                  Some (File b) \<Rightarrow>
                    if moved = File b then s
                    else s\<lparr>files := (files s)(b := (files s b)\<lparr>f_nlink := f_nlink (files s b) - 1\<rparr>)\<rparr>
                | _ \<Rightarrow> s)))"

definition rename :: "fs_env \<Rightarrow> string \<Rightarrow> string \<Rightarrow> in_mem_fs \<Rightarrow> ((rename_error + unit) \<times> in_mem_fs) outcome" where
  "rename env from to s =
     (let u = acting_user env s in
      obind (absolute_path from s) (\<lambda>from.
      obind (absolute_path to s) (\<lambda>to.
      if from = to then
        try_path rename_error.PathError s (parent_and_entry from u s) (\<lambda>(_, entry).
          Done (if entry \<noteq> None then Inr () else Inl (rename_error.PathError NoSuchFileOrDirectory), s))
      else
        try_path rename_error.PathError s (resolved_path from u s) (\<lambda>from.
        try_path rename_error.PathError s (resolved_path to u s) (\<lambda>to.
        try_path rename_error.PathError s (parent_and_entry from u s) (\<lambda>(from_parent, from_entry).
          case from_parent of
            None \<Rightarrow> Done (Inl rename_error.IsADirectory, s)
          | Some (from_parent_path, fd) \<Rightarrow>
              (case from_entry of
                 None \<Rightarrow> Done (Inl (rename_error.PathError NoSuchFileOrDirectory), s)
               | Some from_entry \<Rightarrow>
                   if is_dir from_entry \<and> prefix (from @ ''/'') to then Done (Inl rename_error.IsADirectory, s)
                   else
                     try_path rename_error.PathError s (parent_and_entry to u s) (\<lambda>(to_parent, to_entry).
                       case to_parent of
                         None \<Rightarrow> Done (Inl DestinationIsADirectory, s)
                       | Some (to_parent_path, td) \<Rightarrow>
                           if (case to_entry of Some e \<Rightarrow> is_dir e | None \<Rightarrow> False)
                           then Done (Inl DestinationIsADirectory, s)
                           else if is_dir from_entry \<and> to_entry \<noteq> None then Done (Inl rename_error.IsADirectory, s)
                           else
                             (case move_child env u (from_parent_path = to_parent_path)
                                     fd (last (components from)) td (last (components to)) s of
                                (Some e, s) \<Rightarrow> Done (Inl e, s)
                              | (None, s) \<Rightarrow>
                                  obind (move_entry (is_dir from_entry) from to s) (\<lambda>s. Done (Inr (), s)))))))))))"

section \<open>Attributes\<close>

definition chmod :: "fs_env \<Rightarrow> string \<Rightarrow> u32 \<Rightarrow> in_mem_fs \<Rightarrow> ((chmod_error + unit) \<times> in_mem_fs) outcome" where
  "chmod env path m s =
     (let u = acting_user env s in
      obind (absolute_path path s) (\<lambda>path.
      try_path chmod_error.PathError s (parent_and_entry path u s) (\<lambda>(_, entry).
        case entry of
          None \<Rightarrow> Done (Inl (chmod_error.PathError NoSuchFileOrDirectory), s)
        | Some e \<Rightarrow>
            (let p = entry_perms e s in
             if \<not> (user u = 0 \<or> user u = user (p_userinfo p)) then Done (Inl chmod_error.NotTheOwner, s)
             else Done (Inr (), set_entry_perms e (p\<lparr>p_mode := m\<rparr>) s)))))"

definition chown ::
    "fs_env \<Rightarrow> string \<Rightarrow> u16 option \<Rightarrow> u16 option \<Rightarrow> in_mem_fs \<Rightarrow> ((chown_error + unit) \<times> in_mem_fs) outcome" where
  "chown env path new_user new_group s =
     (let u = acting_user env s in
      obind (absolute_path path s) (\<lambda>path.
      try_path chown_error.PathError s (parent_and_entry path u s) (\<lambda>(_, entry).
        case entry of
          None \<Rightarrow> Done (Inl (chown_error.PathError NoSuchFileOrDirectory), s)
        | Some e \<Rightarrow>
            (let p = entry_perms e s in
             if \<not> (user u = 0 \<or> user u = user (p_userinfo p)) then Done (Inl chown_error.NotTheOwner, s)
             else
               let o1 = (case new_user of Some n \<Rightarrow> (p_userinfo p)\<lparr>user := n\<rparr> | None \<Rightarrow> p_userinfo p);
                   o2 = (case new_group of Some n \<Rightarrow> o1\<lparr>group := n\<rparr> | None \<Rightarrow> o1)
               in Done (Inr (), set_entry_perms e (p\<lparr>p_userinfo := o2\<rparr>) s)))))"

definition set_times ::
    "fs_env \<Rightarrow> string \<Rightarrow> timestamp option \<Rightarrow> timestamp option \<Rightarrow> in_mem_fs \<Rightarrow>
     ((set_times_error + unit) \<times> in_mem_fs) outcome" where
  "set_times env path atime mtime s =
     (let u = acting_user env s in
      obind (absolute_path path s) (\<lambda>path.
      try_path set_times_error.PathError s (parent_and_entry path u s) (\<lambda>(_, entry).
        case entry of
          None \<Rightarrow> Done (Inl (set_times_error.PathError NoSuchFileOrDirectory), s)
        | Some e \<Rightarrow>
            (let (r, p) = apply_times (entry_perms e s) u atime mtime
             in Done (r, set_entry_perms e p s)))))"

text \<open>The status of a node; \<open>file_status\<close> and \<open>fd_file_status\<close> build the same record.\<close>

definition node_status :: "fs_entry \<Rightarrow> in_mem_fs \<Rightarrow> file_status" where
  "node_status e s =
     (let p = entry_perms e s;
          (ft, size, i, n) =
            (case e of
               File a \<Rightarrow> (if is_fifo (files s a) then Fifo else RegularFile, length (cow_bytes (f_data (files s a))),
                          f_unique_id (files s a), f_nlink (files s a))
             | Dir a \<Rightarrow> (Directory, DEFAULT_DIRECTORY_SIZE, d_unique_id (dirs s a), 1)
             | Symlink a \<Rightarrow> (file_type.Symlink, length (s_target (links s a)), s_unique_id (links s a), 1))
      in \<lparr>st_file_type = ft, st_mode = p_mode p, st_size = size, st_owner = p_userinfo p,
          st_node_info = \<lparr>dev = DEVICE_ID, ino = i, rdev = None\<rparr>, st_blksize = BLOCK_SIZE,
          st_atime = p_atime p, st_mtime = p_mtime p, st_nlink = n\<rparr>)"

definition file_status :: "fs_env \<Rightarrow> string \<Rightarrow> in_mem_fs \<Rightarrow> (file_status_error + file_status) outcome" where
  "file_status env path s =
     obind (absolute_path path s) (\<lambda>path.
     obind (parent_and_entry path (acting_user env s) s) (\<lambda>r.
       Done (case r of
               Inl e \<Rightarrow> Inl (file_status_error.PathError e)
             | Inr (_, None) \<Rightarrow> Inl (file_status_error.PathError NoSuchFileOrDirectory)
             | Inr (_, Some e) \<Rightarrow> Inr (node_status e s))))"

section \<open>Operations on descriptors\<close>

text \<open>
  The type identifier of the subsystem's entries is a parameter. \<open>get_entry_mut\<close> gives the descriptor and a
  way to write it back.
\<close>

definition fs_read ::
    "bool \<Rightarrow> typed_fd \<Rightarrow> nat \<Rightarrow> nat option \<Rightarrow> 'm fs_world \<Rightarrow> ((fs_read_error + u8 list) \<times> 'm fs_world) outcome" where
  "fs_read dbg fd len offset w =
     obind (get_entry_mut fd (fd_table w)) (\<lambda>r.
       case r of
         None \<Rightarrow> Done (Inl fs_read_error.ClosedFd, w)
       | Some (DirDesc _, _) \<Rightarrow> Done (Inl fs_read_error.NotAFile, w)
       | Some (FileDesc x, put) \<Rightarrow>
           if \<not> read_allowed x then Done (Inl NotForReading, w)
           else
             let pos = (case offset of Some off \<Rightarrow> off | None \<Rightarrow> position x);
                 data = cow_bytes (f_data (files (fs w) (fd_file x)));
                 start = min pos (length data)
             in obind (unwrap (checked_add pos len)) (\<lambda>e.
                  let stop = min e (length data) in
                  assert_that (dbg \<longrightarrow> start \<le> stop)
                    (Done (Inr (take (stop - start) (drop start data)),
                       case offset of
                         Some _ \<Rightarrow> w
                       | None \<Rightarrow> w\<lparr>fd_table := put (FileDesc (x\<lparr>position := pos + (stop - start)\<rparr>))\<rparr>))))"

text \<open>The bytes of a file after a write: overwrite from the position, pad with zeros up to it, append.\<close>

definition written :: "nat \<Rightarrow> u8 list \<Rightarrow> u8 list \<Rightarrow> u8 list" where
  "written write_position buf data =
     (if write_position < length data then
        let stop = min (write_position + length buf) (length data);
            first_half_len = stop - write_position
        in take write_position data @ take first_half_len buf @ drop stop data @ drop first_half_len buf
      else data @ replicate (write_position - length data) 0 @ buf)"

definition set_data :: "nat \<Rightarrow> cow \<Rightarrow> in_mem_fs \<Rightarrow> in_mem_fs" where
  "set_data a c s = s\<lparr>files := (files s)(a := (files s a)\<lparr>f_data := c\<rparr>)\<rparr>"

definition touch_file :: "nat \<Rightarrow> timestamp \<Rightarrow> in_mem_fs \<Rightarrow> in_mem_fs" where
  "touch_file a t s =
     s\<lparr>files := (files s)(a := (files s a)\<lparr>f_perms := (f_perms (files s a))\<lparr>p_mtime := t\<rparr>\<rparr>)\<rparr>"

definition fs_write ::
    "fs_env \<Rightarrow> typed_fd \<Rightarrow> u8 list \<Rightarrow> nat option \<Rightarrow> 'm fs_world \<Rightarrow> ((fs_write_error + nat) \<times> 'm fs_world) outcome" where
  "fs_write env fd buf offset w =
     obind (get_entry_mut fd (fd_table w)) (\<lambda>r.
       case r of
         None \<Rightarrow> Done (Inl fs_write_error.ClosedFd, w)
       | Some (DirDesc _, _) \<Rightarrow> Done (Inl fs_write_error.NotAFile, w)
       | Some (FileDesc x, put) \<Rightarrow>
           if \<not> write_allowed x then Done (Inl fs_write_error.NotForWriting, w)
           else
             let a = fd_file x;
                 data = cow_bytes (f_data (files (fs w) a));
                 write_position =
                   (if append_mode x \<and> offset = None then length data
                    else case offset of Some off \<Rightarrow> off | None \<Rightarrow> position x)
             in case checked_add write_position (length buf) of
                  None \<Rightarrow> Done (Inl fs_write_error.FileTooLarge, w)
                | Some end_position \<Rightarrow>
                    if end_position > length data \<and> \<not> can_reserve env (length data) (end_position - length data)
                    then Done (Inl fs_write_error.FileTooLarge, w\<lparr>fs := set_data a (Owned data) (fs w)\<rparr>)
                    else
                      Done (Inr (length buf),
                        w\<lparr>fs := touch_file a (clock_now env 0)
                                  (set_data a (Owned (written write_position buf data)) (fs w)),
                          fd_table := (if offset = None then put (FileDesc (x\<lparr>position := end_position\<rparr>))
                                       else fd_table w)\<rparr>))"

text \<open>\<^verbatim>\<open>usize::checked_add_signed\<close>.\<close>

definition checked_add_signed :: "nat \<Rightarrow> int \<Rightarrow> nat option" where
  "checked_add_signed base off =
     (if 0 \<le> int base + off \<and> int base + off \<le> int usize_max then Some (nat (int base + off)) else None)"

definition fs_seek ::
    "typed_fd \<Rightarrow> int \<Rightarrow> seek_whence \<Rightarrow> 'm fs_world \<Rightarrow> ((seek_error + nat) \<times> 'm fs_world) outcome" where
  "fs_seek fd off whence w =
     obind (get_entry_mut fd (fd_table w)) (\<lambda>r.
       case r of
         None \<Rightarrow> Done (Inl seek_error.ClosedFd, w)
       | Some (DirDesc _, _) \<Rightarrow> Done (Inl seek_error.NotAFile, w)
       | Some (FileDesc x, put) \<Rightarrow>
           if \<not> read_allowed x \<and> \<not> write_allowed x then Done (Inl seek_error.PathOnlyFd, w)
           else
             let base = (case whence of
                           RelativeToBeginning \<Rightarrow> 0
                         | RelativeToCurrentOffset \<Rightarrow> position x
                         | RelativeToEnd \<Rightarrow> length (cow_bytes (f_data (files (fs w) (fd_file x)))))
             in case checked_add_signed base off of
                  None \<Rightarrow> Done (Inl InvalidOffset, w)
                | Some new_posn \<Rightarrow>
                    Done (Inr new_posn, w\<lparr>fd_table := put (FileDesc (x\<lparr>position := new_posn\<rparr>))\<rparr>))"

definition fs_truncate ::
    "fs_env \<Rightarrow> typed_fd \<Rightarrow> nat \<Rightarrow> bool \<Rightarrow> 'm fs_world \<Rightarrow> ((truncate_error + unit) \<times> 'm fs_world) outcome" where
  "fs_truncate env fd len reset_offset w =
     obind (get_entry_mut fd (fd_table w)) (\<lambda>r.
       case r of
         None \<Rightarrow> Done (Inl truncate_error.ClosedFd, w)
       | Some (DirDesc _, _) \<Rightarrow> Done (Inl IsDirectory, w)
       | Some (FileDesc x, put) \<Rightarrow>
           if \<not> read_allowed x \<and> \<not> write_allowed x then Done (Inl truncate_error.PathOnlyFd, w)
           else if \<not> write_allowed x then Done (Inl truncate_error.NotForWriting, w)
           else
             let a = fd_file x; c = f_data (files (fs w) a); n = length (cow_bytes c)
             in if len > n \<and> \<not> can_reserve env n (len - n)
                then Done (Inl truncate_error.FileTooLarge, w\<lparr>fs := set_data a (Owned (cow_bytes c)) (fs w)\<rparr>)
                else
                  let c' = (if len < n
                            then (case c of Borrowed d \<Rightarrow> Borrowed (take len d) | Owned d \<Rightarrow> Owned (take len d))
                            else if len = n then c
                            else Owned (cow_bytes c @ replicate (len - n) 0))
                  in Done (Inr (),
                       w\<lparr>fs := touch_file a (clock_now env 0) (set_data a c' (fs w)),
                         fd_table := (if reset_offset then put (FileDesc (x\<lparr>position := 0\<rparr>)) else fd_table w)\<rparr>))"

definition fs_close :: "typed_fd \<Rightarrow> 'm fs_world \<Rightarrow> (typed_fd \<times> 'm fs_world) outcome" where
  "fs_close fd w = obind (remove_fd fd (fd_table w)) (\<lambda>(_, fd', t). Done (fd', w\<lparr>fd_table := t\<rparr>))"

text \<open>The two ways \<open>open\<close> comes to an entry; the flag says whether it was created.\<close>

definition open_create ::
    "fs_env \<Rightarrow> string \<Rightarrow> u32 \<Rightarrow> u32 \<Rightarrow> in_mem_fs \<Rightarrow> ((open_error + fs_entry \<times> bool) \<times> in_mem_fs) outcome" where
  "open_create env path flags m s =
     (let u = acting_user env s in
      try_path open_error.PathError s (resolved_path path u s) (\<lambda>path.
      try_path open_error.PathError s (parent_and_entry path u s) (\<lambda>(parent, entry).
        case entry of
          Some e \<Rightarrow>
            Done (if contains flags O_EXCL then Inl open_error.AlreadyExists else Inr (e, False), s)
        | None \<Rightarrow>
            (case parent of
               None \<Rightarrow> Panic
             | Some (_, d) \<Rightarrow>
                 if \<not> can_write_by (d_perms (dirs s d)) u then Done (Inl open_error.NoWritePerms, s)
                 else
                   obind (insert_child d (last (components path)) RegularFile (clock_now env 0) s) (\<lambda>s.
                   obind (fresh_id s) (\<lambda>(i, s).
                     let (e, s) = new_file \<lparr>f_perms = \<lparr>p_mode = m, p_userinfo = u, p_atime = clock_now env 1,
                                                      p_mtime = clock_now env 2\<rparr>,
                                            f_data = Owned [], f_unique_id = i, f_nlink = 1, is_fifo = False\<rparr> s
                     in obind (insert_entry path e s) (\<lambda>s. Done (Inr (e, True), s))))))))"

definition open_existing ::
    "fs_env \<Rightarrow> string \<Rightarrow> in_mem_fs \<Rightarrow> ((open_error + fs_entry \<times> bool) \<times> in_mem_fs) outcome" where
  "open_existing env path s =
     try_path open_error.PathError s (parent_and_entry path (acting_user env s) s) (\<lambda>(_, entry).
       Done (case entry of
               None \<Rightarrow> Inl (open_error.PathError NoSuchFileOrDirectory)
             | Some e \<Rightarrow> Inr (e, False), s))"

definition supported_oflags :: u32 where
  "supported_oflags =
     O_CREAT OR RDONLY OR WRONLY OR RDWR OR O_TRUNC OR O_NOCTTY OR O_EXCL OR O_DIRECTORY OR O_NONBLOCK OR
     O_LARGEFILE OR O_NOFOLLOW OR O_APPEND OR O_NOATIME OR O_DSYNC OR O_SYNC OR O_DIRECT OR O_ASYNC OR
     O_CLOEXEC OR O_PATH"

text \<open>The access the flags ask for, refused when the permissions of an existing entry do not allow it.\<close>

definition open_access ::
    "fs_env \<Rightarrow> u32 \<Rightarrow> bool \<Rightarrow> fs_entry \<Rightarrow> in_mem_fs \<Rightarrow> open_error + bool \<times> bool" where
  "open_access env flags created e s =
     (let u = acting_user env s; p = entry_perms e s;
          access_mode = flags AND (WRONLY OR RDWR);
          path_only = contains flags O_PATH;
          wants_read = (\<not> path_only \<and> (access_mode = RDONLY \<or> access_mode = RDWR));
          wants_write = (\<not> path_only \<and> (access_mode = WRONLY \<or> access_mode = RDWR))
      in if wants_read \<and> \<not> created \<and> \<not> can_read_by p u then Inl AccessNotAllowed
         else if wants_write \<and> \<not> created \<and> \<not> can_write_by p u then Inl AccessNotAllowed
         else Inr (wants_read, wants_write))"

definition fs_open ::
    "type_id \<Rightarrow> fs_env \<Rightarrow> string \<Rightarrow> u32 \<Rightarrow> u32 \<Rightarrow> 'm fs_world \<Rightarrow> ((open_error + typed_fd) \<times> 'm fs_world) outcome" where
  "fs_open ty env path flags m w =
     (let s = fs w; u = acting_user env s in
      if flags AND NOT supported_oflags \<noteq> 0 then Done (Inl (open_error.PathError InvalidPathname), w)
      else
        obind (absolute_path path s) (\<lambda>path.
        try_path open_error.PathError w
          (if contains flags O_NOFOLLOW \<or> contains flags O_CREAT then Done (Inr path)
           else resolve_final_symlinks path u s) (\<lambda>path.
        obind (if contains flags O_CREAT then open_create env path flags m s else open_existing env path s) (\<lambda>(r, s).
          let w = w\<lparr>fs := s\<rparr> in
          case r of
            Inl e \<Rightarrow> Done (Inl e, w)
          | Inr (e, created) \<Rightarrow>
              let flags = (if created then flags AND NOT O_DIRECTORY else flags) in
              (case open_access env flags created e s of
                 Inl err \<Rightarrow> Done (Inl err, w)
               | Inr (ra, wa) \<Rightarrow>
                   let d = (case e of
                              File a \<Rightarrow>
                                if contains flags O_DIRECTORY then Inl (open_error.PathError ComponentNotADirectory)
                                else Inr (FileDesc \<lparr>fd_file = a, read_allowed = ra, write_allowed = wa, position = 0,
                                                    append_mode = contains flags O_APPEND\<rparr>)
                            | Dir a \<Rightarrow> Inr (DirDesc a)
                            | Symlink _ \<Rightarrow> Inl (open_error.PathError TooManySymlinkHops))
                   in case d of
                        Inl err \<Rightarrow> Done (Inl err, w)
                      | Inr desc \<Rightarrow>
                          obind (insert_fd ty desc (fd_table w)) (\<lambda>(fd, t).
                            let w = w\<lparr>fd_table := t\<rparr> in
                            if contains flags O_TRUNC then
                              obind (fs_truncate env fd 0 True w) (\<lambda>(r, w).
                                case r of
                                  Inr _ \<Rightarrow> Done (Inr fd, w)
                                | Inl err \<Rightarrow>
                                    obind (fs_close fd w) (\<lambda>(_, w). Done (Inl (open_error.TruncateError err), w)))
                            else Done (Inr fd, w)))))))"

definition chmod_fd :: "fs_env \<Rightarrow> typed_fd \<Rightarrow> u32 \<Rightarrow> 'm fs_world \<Rightarrow> ((chmod_error + unit) \<times> 'm fs_world) outcome" where
  "chmod_fd env fd m w =
     (let u = acting_user env (fs w) in
      obind (get_entry_mut fd (fd_table w)) (\<lambda>r.
        case r of
          None \<Rightarrow> Done (Inl chmod_error.Io, w)
        | Some (desc, _) \<Rightarrow>
            (let e = (case desc of FileDesc x \<Rightarrow> File (fd_file x) | DirDesc a \<Rightarrow> Dir a);
                 p = entry_perms e (fs w)
             in if \<not> (user u = 0 \<or> user u = user (p_userinfo p)) then Done (Inl chmod_error.NotTheOwner, w)
                else Done (Inr (), w\<lparr>fs := set_entry_perms e (p\<lparr>p_mode := m\<rparr>) (fs w)\<rparr>))))"

definition fd_file_status :: "typed_fd \<Rightarrow> 'm fs_world \<Rightarrow> (file_status_error + file_status) outcome" where
  "fd_file_status fd w =
     obind (get_entry fd (fd_table w)) (\<lambda>r.
       Done (case r of
               None \<Rightarrow> Inl file_status_error.ClosedFd
             | Some (FileDesc x) \<Rightarrow> Inr (node_status (File (fd_file x)) (fs w))
             | Some (DirDesc a) \<Rightarrow> Inr (node_status (Dir a) (fs w))))"

definition entry_ino :: "fs_entry \<Rightarrow> in_mem_fs \<Rightarrow> nat" where
  "entry_ino e s =
     (case e of
        File a \<Rightarrow> f_unique_id (files s a) | Dir a \<Rightarrow> d_unique_id (dirs s a) | Symlink a \<Rightarrow> s_unique_id (links s a))"

definition get_node_info :: "string \<Rightarrow> in_mem_fs \<Rightarrow> node_info option" where
  "get_node_info key s =
     map_option (\<lambda>e. \<lparr>dev = DEVICE_ID, ino = entry_ino e s, rdev = None\<rparr>) (map_of (root_entries s) key)"

definition dir_entries :: "nat \<Rightarrow> in_mem_fs \<Rightarrow> dir_entry list" where
  "dir_entries a s =
     (let parent_path = (case List.find (\<lambda>(_, e). e = Dir a) (root_entries s) of Some (k, _) \<Rightarrow> k | None \<Rightarrow> '''')
      in \<lparr>de_name = ''.'', de_file_type = Directory,
          de_ino_info = Some \<lparr>dev = DEVICE_ID, ino = d_unique_id (dirs s a), rdev = None\<rparr>\<rparr>
       # \<lparr>de_name = ''..'', de_file_type = Directory, de_ino_info = get_node_info parent_path s\<rparr>
       # map (\<lambda>(name, ft). \<lparr>de_name = name, de_file_type = ft,
                             de_ino_info = get_node_info (parent_path @ ''/'' @ name) s\<rparr>) (children (dirs s a)))"

definition read_dir :: "typed_fd \<Rightarrow> 'm fs_world \<Rightarrow> (read_dir_error + dir_entry list) outcome" where
  "read_dir fd w =
     obind (get_entry fd (fd_table w)) (\<lambda>r.
       Done (case r of
               None \<Rightarrow> Inl read_dir_error.ClosedFd
             | Some (FileDesc _) \<Rightarrow> Inl read_dir_error.NotADirectory
             | Some (DirDesc a) \<Rightarrow> Inr (dir_entries a (fs w))))"

definition get_static_backing_data :: "typed_fd \<Rightarrow> 'm fs_world \<Rightarrow> u8 list option outcome" where
  "get_static_backing_data fd w =
     obind (get_entry fd (fd_table w)) (\<lambda>r.
       Done (case r of
               Some (FileDesc x) \<Rightarrow>
                 (case f_data (files (fs w) (fd_file x)) of Borrowed d \<Rightarrow> Some d | Owned _ \<Rightarrow> None)
             | _ \<Rightarrow> None))"

definition initialize_primarily_read_heavy_file :: "typed_fd \<Rightarrow> cow \<Rightarrow> 'm fs_world \<Rightarrow> 'm fs_world outcome" where
  "initialize_primarily_read_heavy_file fd data w =
     obind (get_entry_mut fd (fd_table w)) (\<lambda>r.
     obind (unwrap r) (\<lambda>(desc, _).
       case desc of
         DirDesc _ \<Rightarrow> Panic
       | FileDesc x \<Rightarrow>
           assert_that (cow_bytes (f_data (files (fs w) (fd_file x))) = [])
             (Done (w\<lparr>fs := set_data (fd_file x) data (fs w)\<rparr>))))"

end
