(* ===== verification/InMemTree.thy ===== *)
theory InMemTree
  imports InMemFs
begin

text \<open>
  The in-memory file system as a tree of names. The map from paths to entries is read as a partial function
  from lists of names; the invariant ties it to the children each directory lists. The lemmas follow
  the walk along a path, show that every operation keeps the invariant and meets none of its
  assertions, and say what the operations do to the tree.
\<close>

section \<open>Paths as lists of names\<close>

definition key_of :: "string list \<Rightarrow> string" where
  "key_of ns = concat (map (\<lambda>n. ''/'' @ n) ns)"

abbreviation proper :: "string list \<Rightarrow> bool" where
  "proper ns \<equiv> list_all proper_name ns"

lemma key_of_simps [simp]:
  "key_of [] = ''''"
  "key_of (n # ns) = ''/'' @ n @ key_of ns"
  "key_of (xs @ ys) = key_of xs @ key_of ys"
  by (simp_all add: key_of_def)

lemma key_of_join: "key_of ns = join_slash ('''' # ns)"
proof (induction ns)
  case (Cons n ns)
  then show ?case by (cases ns) simp_all
qed simp

lemma split_key: "proper ns \<Longrightarrow> split_slash (key_of ns) = '''' # ns"
  unfolding key_of_join by (rule split_join) (auto simp: list_all_iff proper_name_def)

lemma key_of_inj: "proper ns \<Longrightarrow> proper ms \<Longrightarrow> key_of ns = key_of ms \<longleftrightarrow> ns = ms"
  by (metis split_key list.inject)

lemma last_components_key [simp]: "proper ns \<Longrightarrow> ns \<noteq> [] \<Longrightarrow> last (components (key_of ns)) = last ns"
  by (simp add: components_def split_key del: key_of_simps)

lemma proper_normal_form: "proper ns \<Longrightarrow> normal_form ns"
  using normal_form_append [of ns 0] by simp

lemma normalized_components_key:
  assumes "proper ns"
  shows "normalized_components (key_of ns) = (if ns = [] then [] else '''' # ns)"
proof (cases ns)
  case (Cons n ms)
  then have "starts_with_slash (key_of ns)" by (simp add: starts_with_slash_def)
  then show ?thesis
    unfolding normalized_components_walk split_key [OF assms]
    using walk_id [OF proper_normal_form [OF assms]] Cons by (simp add: walk_skip)
qed (simp add: normalized_components_walk starts_with_slash_def walk_def walk_step_def)

text \<open>The components of any path: some to be skipped, then names.\<close>

definition names_of :: "string \<Rightarrow> string list" where
  "names_of path = filter (\<lambda>c. c \<noteq> '''' \<and> c \<noteq> ''..'') (normalized_components path)"

lemma filter_proper: "proper ns \<Longrightarrow> filter (\<lambda>c. c \<noteq> '''' \<and> c \<noteq> ''..'') ns = ns"
  by (induction ns) (auto simp: proper_name_def)

lemma components_shape:
  obtains skip where "normalized_components path = skip @ names_of path" "proper (names_of path)"
    "\<forall>c \<in> set skip. c = '''' \<or> c = ''..''"
proof -
  have "normal_form (walk (split_slash path))"
    by (rule walk_normal_form) (use split_slash_no_slash in blast)
  then obtain m ns where ns: "walk (split_slash path) = replicate m ''..'' @ ns" "proper ns"
    by (rule normal_form_cases)
  define skip where "skip = (if starts_with_slash path then [''''] else []) @ replicate m ''..''"
  have nc: "normalized_components path = skip @ ns"
    by (simp add: normalized_components_walk ns(1) skip_def)
  have "filter (\<lambda>c. c \<noteq> '''' \<and> c \<noteq> ''..'') skip = []"
    by (auto simp: skip_def filter_empty_conv)
  then have "names_of path = ns" by (simp add: names_of_def nc filter_proper [OF ns(2)])
  moreover have "\<forall>c \<in> set skip. c = '''' \<or> c = ''..''"
    by (auto simp: skip_def split: if_splits)
  ultimately show ?thesis using that [of skip] nc ns(2) by simp
qed

lemma components_split:
  "\<exists>skip. normalized_components path = skip @ names_of path \<and> (\<forall>c \<in> set skip. c = '''' \<or> c = ''..'')"
  by (rule components_shape [of path]) blast

lemma names_of_key: "proper ns \<Longrightarrow> names_of (key_of ns) = ns"
  by (cases ns) (simp_all add: names_of_def normalized_components_key filter_proper del: key_of_simps,
    auto simp: proper_name_def filter_proper)

lemma proper_names_of [simp]: "proper (names_of path)"
  by (rule components_shape [of path]) simp

section \<open>The tree and its invariant\<close>

definition tree :: "in_mem_fs \<Rightarrow> string list \<Rightarrow> fs_entry option" where
  "tree s ns = (if proper ns then map_of (root_entries s) (key_of ns) else None)"

definition kids :: "in_mem_fs \<Rightarrow> nat \<Rightarrow> string \<Rightarrow> file_type option" where
  "kids s d = map_of (children (dirs s d))"

definition kind_ok :: "file_type \<Rightarrow> fs_entry \<Rightarrow> bool" where
  "kind_ok ft e =
     (case e of
        File _ \<Rightarrow> ft = RegularFile \<or> ft = Fifo | Dir _ \<Rightarrow> ft = Directory | Symlink _ \<Rightarrow> ft = file_type.Symlink)"

primrec node_addr :: "fs_entry \<Rightarrow> nat" where
  "node_addr (File a) = a"
| "node_addr (Dir a) = a"
| "node_addr (Symlink a) = a"

definition tree_ok :: "(string list \<Rightarrow> fs_entry option) \<Rightarrow> (nat \<Rightarrow> string \<Rightarrow> file_type option) \<Rightarrow> nat \<Rightarrow> bool" where
  "tree_ok T C N \<longleftrightarrow>
     (\<exists>r. T [] = Some (Dir r)) \<and>
     (\<forall>ns n e. T (ns @ [n]) = Some e \<longrightarrow> (\<exists>d ft. T ns = Some (Dir d) \<and> C d n = Some ft \<and> kind_ok ft e)) \<and>
     (\<forall>ns d n ft. T ns = Some (Dir d) \<longrightarrow> C d n = Some ft \<longrightarrow> T (ns @ [n]) \<noteq> None) \<and>
     (\<forall>ns ms d. T ns = Some (Dir d) \<longrightarrow> T ms = Some (Dir d) \<longrightarrow> ns = ms) \<and>
     (\<forall>ns e. T ns = Some e \<longrightarrow> node_addr e < N)"

definition keys_ok :: "in_mem_fs \<Rightarrow> bool" where
  "keys_ok s \<longleftrightarrow> distinct (map fst (root_entries s)) \<and>
     (\<forall>k \<in> fst ` set (root_entries s). \<exists>ns. proper ns \<and> k = key_of ns)"

definition fs_ok :: "in_mem_fs \<Rightarrow> bool" where
  "fs_ok s \<longleftrightarrow> tree_ok (tree s) (kids s) (next_node s) \<and> keys_ok s \<and> current_working_dir s = ''/''"

lemma tree_okD:
  assumes "tree_ok T C N"
  shows "\<exists>r. T [] = Some (Dir r)"
    and "T (ns @ [n]) = Some e \<Longrightarrow> \<exists>d ft. T ns = Some (Dir d) \<and> C d n = Some ft \<and> kind_ok ft e"
    and "T ns = Some (Dir d) \<Longrightarrow> C d n = Some ft \<Longrightarrow> T (ns @ [n]) \<noteq> None"
    and "T ns = Some (Dir d) \<Longrightarrow> T ms = Some (Dir d) \<Longrightarrow> ns = ms"
    and "T ns = Some e \<Longrightarrow> node_addr e < N"
  using assms unfolding tree_ok_def by blast+

lemma tree_key: "proper ns \<Longrightarrow> map_of (root_entries s) (key_of ns) = tree s ns"
  by (simp add: tree_def)

lemma tree_proper: "tree s ns = Some e \<Longrightarrow> proper ns"
  by (simp add: tree_def split: if_splits)

section \<open>The walk\<close>

lemma walk_skip_prefix:
  "\<forall>c \<in> set skip. c = '''' \<or> c = ''..'' \<Longrightarrow>
     walk_from s u False collected parent (skip @ ns) = walk_from s u False collected parent ns"
  by (induction skip) auto

text \<open>Every directory from the root down to \<open>ns\<close> exists and may be searched.\<close>

definition reachable_dir :: "in_mem_fs \<Rightarrow> user_info \<Rightarrow> string list \<Rightarrow> bool" where
  "reachable_dir s u ns \<longleftrightarrow>
     (\<forall>pre. prefix pre ns \<longrightarrow> (\<exists>d. tree s pre = Some (Dir d) \<and> can_execute_by (d_perms (dirs s d)) u))"

lemma reachable_dir_snoc:
  "reachable_dir s u (ns @ [n]) \<longleftrightarrow>
     reachable_dir s u ns \<and> (\<exists>d. tree s (ns @ [n]) = Some (Dir d) \<and> can_execute_by (d_perms (dirs s d)) u)"
  by (auto simp: reachable_dir_def prefix_snoc)

lemma reachable_dir_prefix: "reachable_dir s u ns \<Longrightarrow> prefix pre ns \<Longrightarrow> reachable_dir s u pre"
  by (meson reachable_dir_def prefix_order.trans)

text \<open>Where a walk arrives: at the root, or below a directory it could search.\<close>

definition arrived :: "in_mem_fs \<Rightarrow> user_info \<Rightarrow> string list \<Rightarrow> (string \<times> nat) option \<Rightarrow> bool" where
  "arrived s u ns parent \<longleftrightarrow> proper ns \<and>
     (if ns = [] then parent = None
      else reachable_dir s u (butlast ns) \<and>
           (\<exists>d. parent = Some (key_of (butlast ns), d) \<and> tree s (butlast ns) = Some (Dir d)))"

lemma walk_from_spec:
  assumes "proper pre" and "proper ns"
    and "pre \<noteq> [] \<Longrightarrow> reachable_dir s u (butlast pre)"
    and "arrived s u pre parent"
  shows "\<exists>r. walk_from s u seen (key_of pre) parent ns = Done r \<and>
    (\<forall>p c. r = Arrived p c \<longrightarrow> c = key_of (pre @ ns) \<and> arrived s u (pre @ ns) p)"
  using assms
proof (induction ns arbitrary: pre parent seen)
  case (Cons n ns)
  have n: "n \<noteq> ''''" "n \<noteq> ''..''" "proper_name n" using Cons.prems(2) by (auto simp: proper_name_def)
  have t: "map_of (root_entries s) (key_of pre) = tree s pre" using Cons.prems(1) by (simp add: tree_key)
  show ?case
  proof (cases "\<exists>d. tree s pre = Some (Dir d) \<and> can_execute_by (d_perms (dirs s d)) u")
    case True
    then obtain d where d: "tree s pre = Some (Dir d)" "can_execute_by (d_perms (dirs s d)) u" by blast
    have rd: "reachable_dir s u pre"
    proof (cases pre rule: rev_cases)
      case Nil
      then show ?thesis using d by (auto simp: reachable_dir_def)
    next
      case (snoc ms m)
      then show ?thesis using d Cons.prems(3) by (auto simp: reachable_dir_snoc)
    qed
    have "arrived s u (pre @ [n]) (Some (key_of pre, d))"
      using Cons.prems(1) n(3) rd d(1) by (simp add: arrived_def)
    then have "\<exists>r. walk_from s u True (key_of (pre @ [n])) (Some (key_of pre, d)) ns = Done r \<and>
      (\<forall>p c. r = Arrived p c \<longrightarrow> c = key_of ((pre @ [n]) @ ns) \<and> arrived s u ((pre @ [n]) @ ns) p)"
      using Cons.prems n(3) rd by (intro Cons.IH) auto
    then show ?thesis using n d by (simp add: t)
  next
    case False
    then show ?thesis using n by (auto simp: t Let_def split: option.split fs_entry.split)
  qed
qed simp

lemma walk_from_reachable:
  assumes "proper (pre @ ns)" and "ns \<noteq> []" and "reachable_dir s u (pre @ butlast ns)"
  shows "\<exists>d. tree s (pre @ butlast ns) = Some (Dir d) \<and>
    walk_from s u seen (key_of pre) parent ns = Done (Arrived (Some (key_of (pre @ butlast ns), d)) (key_of (pre @ ns)))"
  using assms
proof (induction ns arbitrary: pre parent seen)
  case (Cons n ns)
  have p: "proper_name n" "proper pre" using Cons.prems(1) by simp_all
  then have n: "n \<noteq> ''''" "n \<noteq> ''..''" by (simp_all add: proper_name_def)
  have "reachable_dir s u pre" by (rule reachable_dir_prefix [OF Cons.prems(3)]) simp
  then obtain d where d: "tree s pre = Some (Dir d)" "can_execute_by (d_perms (dirs s d)) u"
    by (auto simp: reachable_dir_def)
  have step: "walk_from s u seen (key_of pre) parent (n # ns) =
      walk_from s u True (key_of (pre @ [n])) (Some (key_of pre, d)) ns"
    using n p d by (simp add: tree_key)
  show ?case
  proof (cases "ns = []")
    case True
    then show ?thesis unfolding step using d by simp
  next
    case False
    then have "\<exists>d'. tree s ((pre @ [n]) @ butlast ns) = Some (Dir d') \<and>
      walk_from s u True (key_of (pre @ [n])) (Some (key_of pre, d)) ns =
        Done (Arrived (Some (key_of ((pre @ [n]) @ butlast ns), d')) (key_of ((pre @ [n]) @ ns)))"
      using Cons.prems by (intro Cons.IH) auto
    then show ?thesis unfolding step using False by simp
  qed
qed simp

lemma walk_path:
  "\<exists>r. walk_from s u False '''' None (normalized_components path) = Done r \<and>
     (\<forall>p c. r = Arrived p c \<longrightarrow> c = key_of (names_of path) \<and> arrived s u (names_of path) p)"
proof -
  obtain skip where skip: "normalized_components path = skip @ names_of path" "\<forall>c \<in> set skip. c = '''' \<or> c = ''..''"
    using components_split [of path] by blast
  show ?thesis
    using walk_from_spec [of "[]" "names_of path" s u None False]
    by (simp add: skip(1) walk_skip_prefix [OF skip(2)] arrived_def)
qed

lemma walk_loop_spec:
  "\<exists>r. walk_loop n s u path = Done r \<and>
     (\<forall>p e. r = Inr (p, e) \<longrightarrow> (\<exists>ns. arrived s u ns p \<and> e = tree s ns \<and> (names_of path = [] \<longrightarrow> ns = [])))"
proof (induction n arbitrary: path)
  case 0
  obtain r where r: "walk_from s u False '''' None (normalized_components path) = Done r"
    "\<forall>p c. r = Arrived p c \<longrightarrow> c = key_of (names_of path) \<and> arrived s u (names_of path) p"
    using walk_path [of s u path] by blast
  then show ?case by (cases r) (auto simp: tree_key)
next
  case (Suc n)
  obtain r where r: "walk_from s u False '''' None (normalized_components path) = Done r"
    "\<forall>p c. r = Arrived p c \<longrightarrow> c = key_of (names_of path) \<and> arrived s u (names_of path) p"
    using walk_path [of s u path] by blast
  show ?case
  proof (cases r)
    case (StartOver path')
    have "names_of path \<noteq> []"
    proof
      assume e: "names_of path = []"
      obtain skip where "normalized_components path = skip @ []" "\<forall>c \<in> set skip. c = '''' \<or> c = ''..''"
        using components_split [of path] unfolding e by blast
      then have "walk_from s u False '''' None (normalized_components path) = Done (Arrived None '''')"
        using walk_skip_prefix [of skip s u "''''" None "[]"] by simp
      then show False using r(1) StartOver by simp
    qed
    then show ?thesis using r(1) StartOver Suc.IH [of path'] by (simp del: split_paired_All) blast
  qed (use r in \<open>auto simp: tree_key\<close>)
qed

lemma parent_and_entry_spec:
  obtains (failed) e where "parent_and_entry path u s = Done (Inl e)"
  | (found) ns p where "parent_and_entry path u s = Done (Inr (p, tree s ns))" "arrived s u ns p"
      "names_of path = [] \<Longrightarrow> ns = []"
proof -
  obtain r where r: "parent_and_entry path u s = Done r"
    "\<forall>p e. r = Inr (p, e) \<longrightarrow> (\<exists>ns. arrived s u ns p \<and> e = tree s ns \<and> (names_of path = [] \<longrightarrow> ns = []))"
    using walk_loop_spec [of WALK_SYMLINK_HOPS s u path] unfolding parent_and_entry_def by blast
  show ?thesis
  proof (cases r)
    case (Inl e)
    then show ?thesis using failed r(1) by simp
  next
    case (Inr pe)
    then obtain p e where "r = Inr (p, e)" by (cases pe) simp
    then show ?thesis using found r by blast
  qed
qed

lemma parent_and_entry_reachable:
  assumes "proper (ns @ [n])" and "reachable_dir s u ns"
  shows "\<exists>d. tree s ns = Some (Dir d) \<and>
    parent_and_entry (key_of (ns @ [n])) u s = Done (Inr (Some (key_of ns, d), tree s (ns @ [n])))"
proof -
  obtain d where d: "tree s ns = Some (Dir d)"
    "walk_from s u False '''' None (ns @ [n]) = Done (Arrived (Some (key_of ns, d)) (key_of (ns @ [n])))"
    using walk_from_reachable [of "[]" "ns @ [n]" s u False None] assms by auto
  have "walk_from s u False '''' None (normalized_components (key_of (ns @ [n]))) =
      Done (Arrived (Some (key_of ns, d)) (key_of (ns @ [n])))"
    using d(2) unfolding normalized_components_key [OF assms(1)] by simp
  then have "walk_loop k s u (key_of (ns @ [n])) = Done (Inr (Some (key_of ns, d), tree s (ns @ [n])))" for k
    by (cases k) (simp_all add: tree_key [OF assms(1), symmetric] del: key_of_simps)
  then show ?thesis using d(1) unfolding parent_and_entry_def by blast
qed

lemma resolved_path_spec:
  obtains (failed) e where "resolved_path path u s = Done (Inl e)"
  | (root) r where "resolved_path path u s = Done (Inr r)" "parent_and_entry r u s = Done (Inr (None, tree s []))"
  | (named) ns n d where "resolved_path path u s = Done (Inr (key_of (ns @ [n])))" "proper (ns @ [n])"
      "reachable_dir s u ns" "tree s ns = Some (Dir d)"
      "parent_and_entry (key_of (ns @ [n])) u s = Done (Inr (Some (key_of ns, d), tree s (ns @ [n])))"
proof (rule parent_and_entry_spec [of path u s])
  fix e
  assume "parent_and_entry path u s = Done (Inl e)"
  then show thesis using failed by (simp add: resolved_path_def)
next
  fix ns p
  assume a: "parent_and_entry path u s = Done (Inr (p, tree s ns))" "arrived s u ns p" "names_of path = [] \<Longrightarrow> ns = []"
  show thesis
  proof (cases "ns = []")
    case True
    then have "p = None" using a(2) by (simp add: arrived_def)
    then show thesis using root [of path] a(1) True by (simp add: resolved_path_def)
  next
    case False
    then obtain d where d: "p = Some (key_of (butlast ns), d)" "reachable_dir s u (butlast ns)" "proper ns"
      using a(2) by (auto simp: arrived_def)
    have names: "names_of path \<noteq> []" using a(3) False by blast
    define n where "n = last (names_of path)"
    have "proper_name n" using names proper_names_of [of path] by (auto simp: n_def list_all_iff)
    moreover have "proper (butlast ns)" using d(3) by (auto simp: list_all_iff dest: in_set_butlastD)
    ultimately have pr: "proper (butlast ns @ [n])" by simp
    have "resolved_path path u s = Done (Inr (key_of (butlast ns @ [n])))"
      using a(1) d(1) names by (simp add: resolved_path_def names_of_def [symmetric] n_def Let_def)
    moreover obtain d' where "tree s (butlast ns) = Some (Dir d')"
      "parent_and_entry (key_of (butlast ns @ [n])) u s = Done (Inr (Some (key_of (butlast ns), d'), tree s (butlast ns @ [n])))"
      using parent_and_entry_reachable [OF pr d(2)] by blast
    ultimately show thesis using named pr d(2) by blast
  qed
qed

section \<open>Changes of the tree\<close>

lemma tree_update:
  assumes "proper ns" and "root_entries s' = AList.update (key_of ns) e (root_entries s)"
  shows "tree s' = (tree s)(ns \<mapsto> e)"
proof
  fix ms
  show "tree s' ms = ((tree s)(ns \<mapsto> e)) ms"
    using assms key_of_inj [of ms ns] by (auto simp: tree_def update_conv')
qed

lemma tree_delete:
  assumes "proper ns" and "root_entries s' = AList.delete (key_of ns) (root_entries s)"
  shows "tree s' = (tree s)(ns := None)"
proof
  fix ms
  show "tree s' ms = ((tree s)(ns := None)) ms"
    using assms key_of_inj [of ms ns] by (auto simp: tree_def delete_conv')
qed

lemma tree_same: "root_entries s' = root_entries s \<Longrightarrow> tree s' = tree s"
  by (rule ext) (simp add: tree_def)

lemma keys_ok_update:
  assumes "keys_ok s" and "proper ns" and "root_entries s' = AList.update (key_of ns) e (root_entries s)"
  shows "keys_ok s'"
  using assms by (auto simp: keys_ok_def distinct_update dom_update)

lemma keys_ok_delete:
  assumes "keys_ok s" and "root_entries s' = AList.delete k (root_entries s)"
  shows "keys_ok s'"
  using assms by (auto simp: keys_ok_def AList.delete_eq intro: distinct_map_filter)

lemma tree_ok_add:
  assumes ok: "tree_ok T C N" and d: "T ns = Some (Dir d)" and new: "T (ns @ [n]) = None" and ft: "kind_ok ft e"
    and N: "N \<le> N'" "node_addr e < N'" and fresh: "\<And>x. e = Dir x \<Longrightarrow> N \<le> x"
    and C': "\<And>x. C' x = (if x = d then (C d)(n \<mapsto> ft) else if e = Dir x then Map.empty else C x)"
  shows "tree_ok (T(ns @ [n] \<mapsto> e)) C' N'"
proof -
  note D = tree_okD [OF ok]
  have dN: "d < N" using D(5) [OF d] by simp
  have no_child: "T ((ns @ [n]) @ [m]) = None" for m
    using D(2) [of "ns @ [n]" m] new by (cases "T ((ns @ [n]) @ [m])") auto
  have old: "x \<noteq> d \<Longrightarrow> T ms = Some (Dir x) \<Longrightarrow> C' x = C x" for x ms
  proof -
    assume x: "x \<noteq> d" "T ms = Some (Dir x)"
    then have "e \<noteq> Dir x" using fresh [of x] D(5) [of ms "Dir x"] by auto
    then show "C' x = C x" using x(1) C' [of x] by simp
  qed
  show ?thesis
    unfolding tree_ok_def
  proof (intro conjI allI impI)
    show "\<exists>r. (T(ns @ [n] \<mapsto> e)) [] = Some (Dir r)" using D(1) by simp
  next
    fix ms m e'
    assume a: "(T(ns @ [n] \<mapsto> e)) (ms @ [m]) = Some e'"
    show "\<exists>d' ft'. (T(ns @ [n] \<mapsto> e)) ms = Some (Dir d') \<and> C' d' m = Some ft' \<and> kind_ok ft' e'"
    proof (cases "ms = ns \<and> m = n")
      case True
      then have "C' d m = Some ft" using C' [of d] by simp
      then show ?thesis using True a d ft by simp
    next
      case 2: False
      then have "T (ms @ [m]) = Some e'" using a by (auto split: if_splits)
      then obtain d' ft' where m: "T ms = Some (Dir d')" "C d' m = Some ft'" "kind_ok ft' e'" using D(2) by blast
      have "ms \<noteq> ns @ [n]" using m(1) new by auto
      moreover have "C' d' m = Some ft'"
      proof (cases "d' = d")
        case True
        then have "ms = ns" using D(4) m(1) d by blast
        then show ?thesis using 2 m(2) True C' [of d] by simp
      next
        case False
        then show ?thesis using old [OF False m(1)] m(2) by simp
      qed
      ultimately show ?thesis using m by simp
    qed
  next
    fix ms d' m ft'
    assume a: "(T(ns @ [n] \<mapsto> e)) ms = Some (Dir d')" "C' d' m = Some ft'"
    show "(T(ns @ [n] \<mapsto> e)) (ms @ [m]) \<noteq> None"
    proof (cases "ms = ns @ [n]")
      case True
      then have e: "e = Dir d'" using a(1) by simp
      then have "d' \<noteq> d" using fresh dN by auto
      then show ?thesis using a(2) e C' [of d'] by simp
    next
      case False
      then have T: "T ms = Some (Dir d')" using a(1) by simp
      show ?thesis
      proof (cases "d' = d")
        case True
        then have "ms = ns" using D(4) T d by blast
        then show ?thesis using a(2) True D(3) [OF d, of m] C' [of d] by (auto split: if_splits)
      next
        case False
        then show ?thesis using a(2) old [OF False T] D(3) [OF T, of m] by simp
      qed
    qed
  next
    fix ms ms' x
    assume a: "(T(ns @ [n] \<mapsto> e)) ms = Some (Dir x)" "(T(ns @ [n] \<mapsto> e)) ms' = Some (Dir x)"
    have "e \<noteq> Dir x" if "T k = Some (Dir x)" for k
      using fresh [of x] D(5) [OF that] by auto
    then show "ms = ms'"
      using a D(4) [of ms x ms'] by (cases "ms = ns @ [n]"; cases "ms' = ns @ [n]") auto
  next
    fix ms e'
    assume "(T(ns @ [n] \<mapsto> e)) ms = Some e'"
    then show "node_addr e' < N'" using D(5) [of ms e'] N by (auto split: if_splits)
  qed
qed

lemma tree_ok_remove:
  assumes ok: "tree_ok T C N" and d: "T ns = Some (Dir d)" and e: "T (ns @ [n]) = Some e"
    and leaf: "\<And>x. e = Dir x \<Longrightarrow> C x = Map.empty"
    and C': "\<And>x. C' x = (if x = d then (C d)(n := None) else C x)"
  shows "tree_ok (T(ns @ [n] := None)) C' N"
proof -
  note D = tree_okD [OF ok]
  have no_child: "T ((ns @ [n]) @ [m]) = None" for m
  proof (rule ccontr)
    assume "T ((ns @ [n]) @ [m]) \<noteq> None"
    then obtain d' ft where "T (ns @ [n]) = Some (Dir d')" "C d' m = Some ft" using D(2) by blast
    then show False using e leaf by simp
  qed
  show ?thesis
    unfolding tree_ok_def
  proof (intro conjI allI impI)
    show "\<exists>r. (T(ns @ [n] := None)) [] = Some (Dir r)" using D(1) by simp
  next
    fix ms m e'
    assume a: "(T(ns @ [n] := None)) (ms @ [m]) = Some e'"
    then have ne: "\<not> (ms = ns \<and> m = n)" and T: "T (ms @ [m]) = Some e'" by (auto split: if_splits)
    from D(2) [OF T] obtain d' ft' where m: "T ms = Some (Dir d')" "C d' m = Some ft'" "kind_ok ft' e'" by blast
    have "ms \<noteq> ns @ [n]" using no_child [of m] T by auto
    moreover have "C' d' m = Some ft'"
      using m(2) C' [of d'] ne D(4) [OF m(1), of ns] d by (cases "d' = d") auto
    ultimately show "\<exists>d' ft'. (T(ns @ [n] := None)) ms = Some (Dir d') \<and> C' d' m = Some ft' \<and> kind_ok ft' e'"
      using m by simp
  next
    fix ms d' m ft'
    assume a: "(T(ns @ [n] := None)) ms = Some (Dir d')" "C' d' m = Some ft'"
    then have T: "T ms = Some (Dir d')" by (auto split: if_splits)
    have c: "C d' m = Some ft'" and ne: "\<not> (d' = d \<and> m = n)"
      using a(2) C' [of d'] by (auto split: if_splits)
    have "ms @ [m] \<noteq> ns @ [n]" using ne T d by auto
    then show "(T(ns @ [n] := None)) (ms @ [m]) \<noteq> None" using D(3) [OF T c] by simp
  next
    fix ms ms' x
    assume "(T(ns @ [n] := None)) ms = Some (Dir x)" "(T(ns @ [n] := None)) ms' = Some (Dir x)"
    then show "ms = ms'" using D(4) [of ms x ms'] by (auto split: if_splits)
  next
    fix ms e'
    assume "(T(ns @ [n] := None)) ms = Some e'"
    then show "node_addr e' < N" using D(5) [of ms e'] by (auto split: if_splits)
  qed
qed

text \<open>
  Moving a name: everything at or below \<open>from\<close> is found at the same place below \<open>to\<close> afterwards, and
  nothing is left at \<open>from\<close>.
\<close>

definition moved :: "string list \<Rightarrow> string list \<Rightarrow> (string list \<Rightarrow> fs_entry option) \<Rightarrow> string list \<Rightarrow> fs_entry option" where
  "moved from to T ns =
     (if prefix to ns then T (from @ drop (length to) ns)
      else if prefix from ns then None
      else T ns)"

lemma tree_ok_prefix:
  assumes "tree_ok T C N" and "T (ns @ ms) \<noteq> None" and "ms \<noteq> []"
  shows "\<exists>d. T ns = Some (Dir d)"
  using assms(2,3)
proof (induction ms rule: rev_induct)
  case (snoc m ms)
  obtain e where "T ((ns @ ms) @ [m]) = Some e" using snoc.prems by auto
  then obtain d where d: "T (ns @ ms) = Some (Dir d)" using tree_okD(2) [OF assms(1)] by blast
  show ?case
  proof (cases "ms = []")
    case False
    then show ?thesis using snoc.IH d by simp
  qed (use d in simp)
qed simp

lemma tree_ok_below_leaf:
  assumes "tree_ok T C N" and "\<And>d. T ns \<noteq> Some (Dir d)" and "ms \<noteq> []"
  shows "T (ns @ ms) = None"
  using tree_ok_prefix [OF assms(1) _ assms(3)] assms(2) by (cases "T (ns @ ms)") auto

lemma moved_simps:
  "moved from to T (to @ ks) = T (from @ ks)"
  "\<not> prefix to ms \<Longrightarrow> \<not> prefix from ms \<Longrightarrow> moved from to T ms = T ms"
  "\<not> prefix to ms \<Longrightarrow> prefix from ms \<Longrightarrow> moved from to T ms = None"
  by (simp_all add: moved_def)

lemma prefix_snoc_step: "prefix xs (ms @ [m]) \<Longrightarrow> \<not> prefix xs ms \<Longrightarrow> xs = ms @ [m]"
  by (simp add: prefix_snoc)

text \<open>The situation of a move: \<open>from\<close> and \<open>to\<close> exclude each other, their parents exist, and the children change.\<close>

definition move_setup ::
    "(string list \<Rightarrow> fs_entry option) \<Rightarrow> (nat \<Rightarrow> string \<Rightarrow> file_type option) \<Rightarrow> nat \<Rightarrow> string list \<Rightarrow> string \<Rightarrow> nat \<Rightarrow>
     string list \<Rightarrow> string \<Rightarrow> nat \<Rightarrow> fs_entry \<Rightarrow> file_type \<Rightarrow> (nat \<Rightarrow> string \<Rightarrow> file_type option) \<Rightarrow> bool" where
  "move_setup T C N ts t td fs' f fd e ft C' \<longleftrightarrow> tree_ok T C N \<and>
     \<not> prefix (fs' @ [f]) (ts @ [t]) \<and> \<not> prefix (ts @ [t]) (fs' @ [f]) \<and>
     T fs' = Some (Dir fd) \<and> T ts = Some (Dir td) \<and> T (fs' @ [f]) = Some e \<and> kind_ok ft e \<and>
     (\<forall>x m. C' x m = (if x = td \<and> m = t then Some ft else if x = fd \<and> m = f then None else C x m))"

lemma move_setupD:
  assumes "move_setup T C N ts t td fs' f fd e ft C'"
  shows "tree_ok T C N" "\<not> prefix (fs' @ [f]) (ts @ [t])" "\<not> prefix (ts @ [t]) (fs' @ [f])"
    "T fs' = Some (Dir fd)" "T ts = Some (Dir td)" "T (fs' @ [f]) = Some e" "kind_ok ft e"
    "C' x m = (if x = td \<and> m = t then Some ft else if x = fd \<and> m = f then None else C x m)"
  using assms unfolding move_setup_def by blast+

lemma move_inner_dir:
  assumes mv: "move_setup T C N ts t td fs' f fd e ft C'" and a: "T (fs' @ [f] @ ks) = Some (Dir x)"
  shows "C' x = C x"
proof -
  note ok = move_setupD(1) [OF mv] and par = move_setupD(2,3) [OF mv] and fd = move_setupD(4) [OF mv]
    and td = move_setupD(5) [OF mv] and e = move_setupD(6) [OF mv] and ft = move_setupD(7) [OF mv]
    and C' = move_setupD(8) [OF mv]
  have "x \<noteq> fd" using tree_okD(4) [OF ok a, of fs'] fd by auto
  moreover have "x \<noteq> td" using tree_okD(4) [OF ok a, of ts] td par(1) by auto
  ultimately show ?thesis by (auto simp: C')
qed

lemma move_parent_of:
  assumes mv: "move_setup T C N ts t td fs' f fd e ft C'"
    and m0: "moved (fs' @ [f]) (ts @ [t]) T (ms @ [m]) = Some e'"
  shows "\<exists>d' ft'. moved (fs' @ [f]) (ts @ [t]) T ms = Some (Dir d') \<and> C' d' m = Some ft' \<and> kind_ok ft' e'"
proof -
  note ok = move_setupD(1) [OF mv] and par = move_setupD(2,3) [OF mv] and fd = move_setupD(4) [OF mv]
    and td = move_setupD(5) [OF mv] and e = move_setupD(6) [OF mv] and ft = move_setupD(7) [OF mv]
    and C' = move_setupD(8) [OF mv]
  note move_inner_dir = move_inner_dir [OF mv]
  show ?thesis
  proof (cases "prefix (ts @ [t]) ms")
    case True
    then obtain ks where ks: "ms = (ts @ [t]) @ ks" by (auto simp: prefix_def)
    have "T ((fs' @ [f] @ ks) @ [m]) = Some e'"
      using m0 moved_simps(1) [of "fs' @ [f]" "ts @ [t]" T "ks @ [m]"] by (simp add: ks)
    then obtain d' ft' where d': "T (fs' @ [f] @ ks) = Some (Dir d')" "C d' m = Some ft'" "kind_ok ft' e'"
      using tree_okD(2) [OF ok] by blast
    then show ?thesis
      using move_inner_dir [OF d'(1)] moved_simps(1) [of "fs' @ [f]" "ts @ [t]" T ks] by (simp add: ks)
  next
    case nto: False
    show ?thesis
    proof (cases "prefix (ts @ [t]) (ms @ [m])")
      case True
      then have "ts @ [t] = ms @ [m]" using nto by (rule prefix_snoc_step)
      then have m: "ms = ts" "m = t" by auto
      then have "e' = e" using m0 moved_simps(1) [of "fs' @ [f]" "ts @ [t]" T "[]"] e by simp
      moreover have "moved (fs' @ [f]) (ts @ [t]) T ts = Some (Dir td)"
        using td par(1) prefix_snoc [of "fs' @ [f]" ts t] by (subst moved_simps(2)) auto
      ultimately show ?thesis using m ft by (auto simp: C')
    next
      case nto': False
      then have nfrom: "\<not> prefix (fs' @ [f]) (ms @ [m])" using m0 by (auto simp: moved_def)
      then have T: "T (ms @ [m]) = Some e'" using m0 nto' by (simp add: moved_simps(2))
      then obtain d' ft' where d': "T ms = Some (Dir d')" "C d' m = Some ft'" "kind_ok ft' e'"
        using tree_okD(2) [OF ok] by blast
      have "\<not> prefix (fs' @ [f]) ms" using nfrom by (simp add: prefix_snoc)
      then have "moved (fs' @ [f]) (ts @ [t]) T ms = Some (Dir d')" using d'(1) nto by (simp add: moved_simps(2))
      moreover have "\<not> (d' = td \<and> m = t)" using tree_okD(4) [OF ok d'(1), of ts] td nto' by auto
      moreover have "\<not> (d' = fd \<and> m = f)" using tree_okD(4) [OF ok d'(1), of fs'] fd nfrom by auto
      ultimately show ?thesis using d' by (auto simp: C')
    qed
  qed
qed

lemma move_child_of:
  assumes mv: "move_setup T C N ts t td fs' f fd e ft C'"
    and a: "moved (fs' @ [f]) (ts @ [t]) T ms = Some (Dir d')" and c: "C' d' m = Some ft'"
  shows "moved (fs' @ [f]) (ts @ [t]) T (ms @ [m]) \<noteq> None"
proof -
  note ok = move_setupD(1) [OF mv] and par = move_setupD(2,3) [OF mv] and fd = move_setupD(4) [OF mv]
    and td = move_setupD(5) [OF mv] and e = move_setupD(6) [OF mv] and ft = move_setupD(7) [OF mv]
    and C' = move_setupD(8) [OF mv]
  note move_inner_dir = move_inner_dir [OF mv]
  show ?thesis
  proof (cases "prefix (ts @ [t]) ms")
    case True
    then obtain ks where ks: "ms = (ts @ [t]) @ ks" by (auto simp: prefix_def)
    have T: "T (fs' @ [f] @ ks) = Some (Dir d')"
      using a moved_simps(1) [of "fs' @ [f]" "ts @ [t]" T ks] by (simp add: ks)
    then have "C d' m = Some ft'" using c move_inner_dir by simp
    from tree_okD(3) [OF ok T this] show ?thesis
      using moved_simps(1) [of "fs' @ [f]" "ts @ [t]" T "ks @ [m]"] by (simp add: ks)
  next
    case nto: False
    then have nfrom: "\<not> prefix (fs' @ [f]) ms" and T: "T ms = Some (Dir d')"
      using a by (auto simp: moved_def split: if_splits)
    show ?thesis
    proof (cases "ms @ [m] = ts @ [t]")
      case True
      then show ?thesis using e moved_simps(1) [of "fs' @ [f]" "ts @ [t]" T "[]"] by simp
    next
      case ne: False
      then have nto': "\<not> prefix (ts @ [t]) (ms @ [m])" using nto prefix_snoc_step by metis
      have not_to: "\<not> (d' = td \<and> m = t)" using tree_okD(4) [OF ok T, of ts] td ne by auto
      then have "\<not> (d' = fd \<and> m = f)" and Cm: "C d' m = Some ft'" using c by (auto simp: C' split: if_splits)
      then have "ms @ [m] \<noteq> fs' @ [f]" using T fd by auto
      then have "\<not> prefix (fs' @ [f]) (ms @ [m])" using nfrom prefix_snoc_step by metis
      then show ?thesis using nto' tree_okD(3) [OF ok T Cm] by (simp add: moved_simps(2))
    qed
  qed
qed

lemma tree_ok_move:
  assumes mv: "move_setup T C N ts t td fs' f fd e ft C'"
  shows "tree_ok (moved (fs' @ [f]) (ts @ [t]) T) C' N"
proof -
  note ok = move_setupD(1) [OF mv] and par = move_setupD(2,3) [OF mv] and fd = move_setupD(4) [OF mv]
    and td = move_setupD(5) [OF mv] and e = move_setupD(6) [OF mv] and ft = move_setupD(7) [OF mv]
    and C' = move_setupD(8) [OF mv]
  let ?T = "moved (fs' @ [f]) (ts @ [t]) T"
  have origin: "\<exists>os. T os = Some x \<and> (os = ms \<and> \<not> prefix (fs' @ [f]) ms \<and> \<not> prefix (ts @ [t]) ms \<or>
      (\<exists>ks. ms = (ts @ [t]) @ ks \<and> os = (fs' @ [f]) @ ks))" if "?T ms = Some x" for ms x
    using that by (auto simp: moved_def prefix_def split: if_splits)
  have "ms = ms'" if a: "?T ms = Some (Dir x)" "?T ms' = Some (Dir x)" for ms ms' x
  proof -
    obtain os where os: "T os = Some (Dir x)" "os = ms \<and> \<not> prefix (fs' @ [f]) ms \<and> \<not> prefix (ts @ [t]) ms \<or>
      (\<exists>ks. ms = (ts @ [t]) @ ks \<and> os = (fs' @ [f]) @ ks)" using origin [OF a(1)] by blast
    obtain os' where os': "T os' = Some (Dir x)" "os' = ms' \<and> \<not> prefix (fs' @ [f]) ms' \<and> \<not> prefix (ts @ [t]) ms' \<or>
      (\<exists>ks. ms' = (ts @ [t]) @ ks \<and> os' = (fs' @ [f]) @ ks)" using origin [OF a(2)] by blast
    have "os = os'" using tree_okD(4) [OF ok os(1) os'(1)] .
    then show ?thesis using os(2) os'(2) by (auto simp: prefix_def)
  qed
  moreover have "node_addr x < N" if "?T ms = Some x" for ms x
    using origin [OF that] tree_okD(5) [OF ok] by blast
  moreover have "\<exists>r. ?T [] = Some (Dir r)"
    using tree_okD(1) [OF ok] by (simp add: moved_def)
  ultimately show ?thesis
    unfolding tree_ok_def using move_parent_of [OF mv] move_child_of [OF mv] by blast
qed


end
