(* ===== verification/InMemOps.thy ===== *)
theory InMemOps
  imports InMemTree
begin

text \<open>
  What the operations of the in-memory file system do to the tree. Every operation has one of a few
  effects (nothing, a node created, a file linked, a name removed, a name moved), each with the
  permissions it needs; the invariant of the tree and the count of links follow from the effects,
  and each operation is shown to return, without meeting an assertion, with one of them.
\<close>

section \<open>Effects\<close>

text \<open>
  The flag says whether names may move: only \<open>rename\<close> does that. The user is the one the operation acts as:
  every change of a directory needs the right to write it.
\<close>

inductive fs_effect :: "bool \<Rightarrow> user_info \<Rightarrow> in_mem_fs \<Rightarrow> in_mem_fs \<Rightarrow> bool" for mv u s where
  same_tree:
    "\<lbrakk>tree s' = tree s; keys_ok s'; kids s' = kids s; next_node s' = next_node s;
      current_working_dir s' = current_working_dir s; unique_id_freshness s' = unique_id_freshness s;
      \<And>a. f_nlink (files s' a) = f_nlink (files s a)\<rbrakk>
     \<Longrightarrow> fs_effect mv u s s'"
| created:
    "\<lbrakk>reachable_dir s u ns; tree s ns = Some (Dir d); can_write_by (d_perms (dirs s d)) u;
      proper (ns @ [n]); tree s (ns @ [n]) = None; kind_ok ft e; node_addr e = next_node s;
      tree s' = (tree s)(ns @ [n] \<mapsto> e); keys_ok s';
      kids s' = (\<lambda>x. if x = d then (kids s d)(n \<mapsto> ft) else if e = Dir x then Map.empty else kids s x);
      next_node s' = Suc (next_node s); current_working_dir s' = current_working_dir s; unique_id_freshness s' = Suc (unique_id_freshness s);
      \<And>a. f_nlink (files s' a) = (if e = File a then 1 else f_nlink (files s a))\<rbrakk>
     \<Longrightarrow> fs_effect mv u s s'"
| linked:
    "\<lbrakk>reachable_dir s u ns; tree s ns = Some (Dir d); can_write_by (d_perms (dirs s d)) u;
      proper (ns @ [n]); tree s (ns @ [n]) = None; tree s ms = Some (File b);
      tree s' = (tree s)(ns @ [n] \<mapsto> File b); keys_ok s';
      kids s' = (\<lambda>x. if x = d then (kids s d)(n \<mapsto> RegularFile) else kids s x);
      next_node s' = next_node s; current_working_dir s' = current_working_dir s; unique_id_freshness s' = unique_id_freshness s;
      \<And>a. f_nlink (files s' a) = (if a = b then f_nlink (files s a) + 1 else f_nlink (files s a))\<rbrakk>
     \<Longrightarrow> fs_effect mv u s s'"
| removed:
    "\<lbrakk>reachable_dir s u ns; tree s ns = Some (Dir d); can_write_by (d_perms (dirs s d)) u;
      tree s (ns @ [n]) = Some e; \<And>x. e = Dir x \<Longrightarrow> kids s x = Map.empty;
      tree s' = (tree s)(ns @ [n] := None); keys_ok s';
      kids s' = (\<lambda>x. if x = d then (kids s d)(n := None) else kids s x);
      next_node s' = next_node s; current_working_dir s' = current_working_dir s; unique_id_freshness s' = unique_id_freshness s;
      \<And>a. f_nlink (files s' a) = (if e = File a then f_nlink (files s a) - 1 else f_nlink (files s a))\<rbrakk>
     \<Longrightarrow> fs_effect mv u s s'"
| renamed:
    "\<lbrakk>mv; reachable_dir s u fs'; tree s fs' = Some (Dir fd); can_write_by (d_perms (dirs s fd)) u;
      reachable_dir s u ts; tree s ts = Some (Dir td); can_write_by (d_perms (dirs s td)) u;
      tree s (fs' @ [f]) = Some e; \<not> prefix (fs' @ [f]) (ts @ [t]); \<not> prefix (ts @ [t]) (fs' @ [f]);
      \<And>x. tree s (ts @ [t]) \<noteq> Some (Dir x); kids s fd f = Some ft;
      tree s' = moved (fs' @ [f]) (ts @ [t]) (tree s); keys_ok s';
      \<And>x m. kids s' x m = (if x = td \<and> m = t then Some ft else if x = fd \<and> m = f then None else kids s x m);
      next_node s' = next_node s; current_working_dir s' = current_working_dir s; unique_id_freshness s' = unique_id_freshness s;
      \<And>a. f_nlink (files s' a) =
        (if tree s (ts @ [t]) = Some (File a) \<and> e \<noteq> File a then f_nlink (files s a) - 1 else f_nlink (files s a))\<rbrakk>
     \<Longrightarrow> fs_effect mv u s s'"

lemma fs_okD:
  assumes "fs_ok s"
  shows "tree_ok (tree s) (kids s) (next_node s)" "keys_ok s" "current_working_dir s = ''/''"
  using assms by (simp_all add: fs_ok_def)

text \<open>The child of an entry has the kind of the entry.\<close>

lemma child_kind:
  assumes "fs_ok s" and "tree s ns = Some (Dir d)" and "tree s (ns @ [n]) = Some e"
  shows "\<exists>ft. kids s d n = Some ft \<and> kind_ok ft e"
  using tree_okD(2) [OF fs_okD(1) [OF assms(1)] assms(3)] assms(2) by auto

lemma no_child:
  assumes "fs_ok s" and "tree s ns = Some (Dir d)" and "tree s (ns @ [n]) = None"
  shows "kids s d n = None"
  using tree_okD(3) [OF fs_okD(1) [OF assms(1)] assms(2), of n] assms(3) by (cases "kids s d n") auto

lemma fs_effect_ok: "fs_effect mv u s s' \<Longrightarrow> fs_ok s \<Longrightarrow> fs_ok s'"
proof (induction rule: fs_effect.induct)
  case (same_tree s')
  then show ?case by (simp add: fs_ok_def)
next
  case (created ns d n ft e s')
  have "tree_ok ((tree s)(ns @ [n] \<mapsto> e)) (kids s') (next_node s')"
    by (rule tree_ok_add [OF fs_okD(1) [OF created.prems] created.hyps(2,5,6)])
      (use created.hyps(7,10,11) in \<open>auto\<close>)
  then show ?case using created by (simp add: fs_ok_def)
next
  case (linked ns d n ms b s')
  have "b < next_node s" using tree_okD(5) [OF fs_okD(1) [OF linked.prems] linked.hyps(6)] by simp
  then have "tree_ok ((tree s)(ns @ [n] \<mapsto> File b)) (kids s') (next_node s')"
    by (intro tree_ok_add [OF fs_okD(1) [OF linked.prems] linked.hyps(2,5), where ft = RegularFile])
      (use linked.hyps(9,10) in \<open>auto simp: kind_ok_def\<close>)
  then show ?case using linked by (simp add: fs_ok_def)
next
  case (removed ns d n e s')
  have "tree_ok ((tree s)(ns @ [n] := None)) (kids s') (next_node s)"
    by (rule tree_ok_remove [OF fs_okD(1) [OF removed.prems] removed.hyps(2,4,5)])
      (use removed.hyps(8) in \<open>auto\<close>)
  then show ?case using removed by (simp add: fs_ok_def)
next
  case (renamed fs' fd ts td f e t ft s')
  obtain ft' where "kids s fd f = Some ft'" "kind_ok ft' e"
    using child_kind [OF renamed.prems renamed.hyps(3,8)] by blast
  then have "kind_ok ft e" using renamed.hyps(12) by simp
  then have "move_setup (tree s) (kids s) (next_node s) ts t td fs' f fd e ft (kids s')"
    unfolding move_setup_def using fs_okD(1) [OF renamed.prems] renamed.hyps(3,6,8,9,10,15) by blast
  from tree_ok_move [OF this] show ?case using renamed by (simp add: fs_ok_def)
qed

section \<open>Results of operations\<close>

text \<open>An operation returns, with an effect, and with none when it returns an error.\<close>

definition good_result :: "bool \<Rightarrow> user_info \<Rightarrow> in_mem_fs \<Rightarrow> (('e + 'r) \<times> in_mem_fs) outcome \<Rightarrow> bool" where
  "good_result mv u s out \<longleftrightarrow> (\<exists>r s'. out = Done (r, s') \<and> fs_effect mv u s s' \<and> (isl r \<longrightarrow> s' = s))"

lemma fs_effect_refl: "fs_ok s \<Longrightarrow> fs_effect mv u s s"
  by (rule same_tree) (simp_all add: fs_okD(2))

lemma good_error [simp]: "fs_ok s \<Longrightarrow> good_result mv u s (Done (Inl e, s))"
  by (simp add: good_result_def fs_effect_refl)

lemma good_unchanged [simp]: "fs_ok s \<Longrightarrow> good_result mv u s (Done (r, s))"
  by (simp add: good_result_def fs_effect_refl)

lemma good_success: "fs_effect mv u s s' \<Longrightarrow> good_result mv u s (Done (Inr x, s'))"
  by (simp add: good_result_def)

lemma absolute_path_Done: "fs_ok s \<Longrightarrow> \<exists>p. absolute_path path s = Done p"
  by (simp add: absolute_path_def fs_okD(3))

lemma good_absolute:
  assumes "fs_ok s" and "\<And>p. good_result mv u s (K p)"
  shows "good_result mv u s (obind (absolute_path path s) K)"
  using absolute_path_Done [OF assms(1), of path] assms(2) by auto

lemma good_found:
  assumes "fs_ok s" and "\<And>ns p. arrived s u ns p \<Longrightarrow> good_result mv u s (K (p, tree s ns))"
  shows "good_result mv u s (try_path W s (parent_and_entry path u s) K)"
  by (rule parent_and_entry_spec [of path u s]) (simp_all add: try_path_def assms)

lemma good_named:
  assumes "fs_ok s" and "\<And>r d. tree s [] = Some (Dir d) \<Longrightarrow> good_result mv u s (K r (None, Some (Dir d)))"
    and "\<And>ns n d. proper (ns @ [n]) \<Longrightarrow> reachable_dir s u ns \<Longrightarrow> tree s ns = Some (Dir d) \<Longrightarrow>
      good_result mv u s (K (key_of (ns @ [n])) (Some (key_of ns, d), tree s (ns @ [n])))"
  shows "good_result mv u s (try_path W s (resolved_path path u s) (\<lambda>q. try_path W s (parent_and_entry q u s) (K q)))"
proof (rule resolved_path_spec [of path u s])
  fix e
  assume "resolved_path path u s = Done (Inl e)"
  then show ?thesis using assms(1) by (simp add: try_path_def)
next
  fix r
  assume r: "resolved_path path u s = Done (Inr r)" "parent_and_entry r u s = Done (Inr (None, tree s []))"
  obtain d where "tree s [] = Some (Dir d)" using tree_okD(1) [OF fs_okD(1) [OF assms(1)]] by blast
  then show ?thesis using assms(2) [of d r] r by (simp add: try_path_def)
next
  fix ns n d
  assume "resolved_path path u s = Done (Inr (key_of (ns @ [n])))" "proper (ns @ [n])"
    "reachable_dir s u ns" "tree s ns = Some (Dir d)"
    "parent_and_entry (key_of (ns @ [n])) u s = Done (Inr (Some (key_of ns, d), tree s (ns @ [n])))"
  then show ?thesis using assms(3) [of ns n d] by (simp add: try_path_def del: key_of_simps)
qed

section \<open>The shared steps\<close>

lemma tree_updates [simp]:
  "tree (s\<lparr>dirs := x\<rparr>) = tree s" "tree (s\<lparr>files := y\<rparr>) = tree s" "tree (s\<lparr>links := z\<rparr>) = tree s"
  "tree (s\<lparr>next_node := n\<rparr>) = tree s" "tree (s\<lparr>unique_id_freshness := n\<rparr>) = tree s"
  by (rule tree_same; simp)+

lemma keys_updates [simp]:
  "keys_ok (s\<lparr>dirs := x\<rparr>) = keys_ok s" "keys_ok (s\<lparr>files := y\<rparr>) = keys_ok s" "keys_ok (s\<lparr>links := z\<rparr>) = keys_ok s"
  "keys_ok (s\<lparr>next_node := n\<rparr>) = keys_ok s" "keys_ok (s\<lparr>unique_id_freshness := n\<rparr>) = keys_ok s"
  by (simp_all add: keys_ok_def)

lemma kids_updates [simp]:
  "kids (s\<lparr>dirs := (dirs s)(d := x)\<rparr>) = (kids s)(d := map_of (children x))"
  "kids (s\<lparr>files := y\<rparr>) = kids s" "kids (s\<lparr>links := z\<rparr>) = kids s" "kids (s\<lparr>next_node := n\<rparr>) = kids s"
  "kids (s\<lparr>unique_id_freshness := n\<rparr>) = kids s" "kids (s\<lparr>root_entries := r\<rparr>) = kids s"
  by (rule ext, simp add: kids_def)+

lemma insert_child_Done:
  "kids s d n = None \<Longrightarrow> insert_child d n ft t s =
     Done (s\<lparr>dirs := (dirs s)(d := (dirs s d)\<lparr>d_perms := (d_perms (dirs s d))\<lparr>p_mtime := t\<rparr>,
                                        children := AList.update n ft (children (dirs s d))\<rparr>)\<rparr>)"
  by (simp add: insert_child_def kids_def Let_def)

lemma fresh_id_Done:
  "unique_id_freshness s < usize_max \<Longrightarrow>
     fresh_id s = Done (unique_id_freshness s, s\<lparr>unique_id_freshness := Suc (unique_id_freshness s)\<rparr>)"
  by (simp add: fresh_id_def Let_def)

lemma insert_entry_Done:
  "proper ns \<Longrightarrow> tree s ns = None \<Longrightarrow>
     insert_entry (key_of ns) e s = Done (s\<lparr>root_entries := AList.update (key_of ns) e (root_entries s)\<rparr>)"
  by (simp add: insert_entry_def tree_def)

lemma remove_entry_Done:
  "tree s ns = Some e \<Longrightarrow>
     remove_entry (key_of ns) s = Done (e, s\<lparr>root_entries := AList.delete (key_of ns) (root_entries s)\<rparr>)"
  by (simp add: remove_entry_def tree_def split: if_splits)

lemma children_kids: "map_of (children (dirs s d)) = kids s d"
  by (simp add: kids_def)

text \<open>Creating a node: the child, the node itself (as the state it leaves), the entry.\<close>

lemma create_effect:
  assumes ok: "fs_ok s" and rd: "reachable_dir s u ns" "tree s ns = Some (Dir d)" "can_write_by (d_perms (dirs s d)) u"
    and new: "proper (ns @ [n])" "tree s (ns @ [n]) = None" and e: "kind_ok ft e" "node_addr e = next_node s"
    and s1: "root_entries s1 = root_entries s"
      "kids s1 = (\<lambda>x. if x = d then (kids s d)(n \<mapsto> ft) else if e = Dir x then Map.empty else kids s x)"
      "next_node s1 = Suc (next_node s)" "current_working_dir s1 = current_working_dir s" "unique_id_freshness s1 = Suc (unique_id_freshness s)"
      "\<And>a. f_nlink (files s1 a) = (if e = File a then 1 else f_nlink (files s a))"
  shows "good_result mv u s (obind (insert_entry (key_of (ns @ [n])) e s1) (\<lambda>s'. Done (Inr x, s')))"
proof -
  have "tree s1 (ns @ [n]) = None" using new(2) tree_same [OF s1(1)] by simp
  then have i: "insert_entry (key_of (ns @ [n])) e s1 =
      Done (s1\<lparr>root_entries := AList.update (key_of (ns @ [n])) e (root_entries s1)\<rparr>)" (is "_ = Done ?s'")
    using insert_entry_Done [OF new(1), of s1] by simp
  have "fs_effect mv u s ?s'"
  proof (rule created [OF rd new e])
    show "tree ?s' = (tree s)(ns @ [n] \<mapsto> e)"
      by (rule tree_update [OF new(1)]) (simp add: s1(1))
    show "keys_ok ?s'"
      by (rule keys_ok_update [OF fs_okD(2) [OF ok] new(1)]) (simp add: s1(1))
  qed (use s1 in simp_all)
  then show ?thesis unfolding i by (simp add: good_success)
qed

section \<open>The operations\<close>

text \<open>What the creation of a node of each kind leaves as it is.\<close>

definition makes_node :: "file_type \<Rightarrow> (in_mem_fs \<Rightarrow> fs_entry \<times> in_mem_fs) \<Rightarrow> bool" where
  "makes_node ft mk \<longleftrightarrow> (\<forall>s. case mk s of (e, s') \<Rightarrow>
     kind_ok ft e \<and> node_addr e = next_node s \<and> root_entries s' = root_entries s \<and>
     next_node s' = Suc (next_node s) \<and> current_working_dir s' = current_working_dir s \<and> unique_id_freshness s' = unique_id_freshness s \<and>
     kids s' = (\<lambda>x. if e = Dir x then Map.empty else kids s x) \<and>
     (\<forall>a. f_nlink (files s' a) = (if e = File a then 1 else f_nlink (files s a))))"

lemma makes_node_new:
  "makes_node Directory (new_dir \<lparr>d_perms = p, children = [], d_unique_id = i\<rparr>)"
  "makes_node file_type.Symlink (new_symlink l)"
  "makes_node (if ff then Fifo else RegularFile) (new_file \<lparr>f_perms = p, f_data = c, f_unique_id = i, f_nlink = 1, is_fifo = ff\<rparr>)"
  by (auto simp: makes_node_def new_dir_def new_symlink_def new_file_def kind_ok_def kids_def fun_eq_iff)

lemma create_good:
  assumes ok: "fs_ok s" and i: "unique_id_freshness s < usize_max"
    and rd: "reachable_dir s u ns" "tree s ns = Some (Dir d)" "can_write_by (d_perms (dirs s d)) u"
    and new: "proper (ns @ [n])" "tree s (ns @ [n]) = None" and mk: "\<And>k. makes_node ft (mk k)"
  shows "good_result mv u s (obind (insert_child d n ft t s) (\<lambda>s1.
    obind (fresh_id s1) (\<lambda>(k, s2). case mk k s2 of (e, s3) \<Rightarrow>
      obind (insert_entry (key_of (ns @ [n])) e s3) (\<lambda>s4. Done (Inr (x e), s4)))))"
proof -
  define s1 where "s1 = s\<lparr>dirs := (dirs s)(d := (dirs s d)\<lparr>d_perms := (d_perms (dirs s d))\<lparr>p_mtime := t\<rparr>,
    children := AList.update n ft (children (dirs s d))\<rparr>)\<rparr>"
  have s1: "insert_child d n ft t s = Done s1"
    unfolding s1_def using insert_child_Done [OF no_child [OF ok rd(2) new(2)]] by simp
  define s2 where "s2 = s1\<lparr>unique_id_freshness := Suc (unique_id_freshness s1)\<rparr>"
  have s2: "fresh_id s1 = Done (unique_id_freshness s1, s2)"
    unfolding s2_def by (rule fresh_id_Done) (simp add: s1_def i)
  obtain e s3 where s3: "mk (unique_id_freshness s1) s2 = (e, s3)" by force
  have m: "kind_ok ft e" "node_addr e = next_node s2" "root_entries s3 = root_entries s2"
    "next_node s3 = Suc (next_node s2)" "current_working_dir s3 = current_working_dir s2" "unique_id_freshness s3 = unique_id_freshness s2"
    "kids s3 = (\<lambda>x. if e = Dir x then Map.empty else kids s2 x)"
    "\<And>a. f_nlink (files s3 a) = (if e = File a then 1 else f_nlink (files s2 a))"
    using mk [of "unique_id_freshness s1"] s3 by (auto simp: makes_node_def dest: spec [of _ s2])
  have "d \<noteq> next_node s" using tree_okD(5) [OF fs_okD(1) [OF ok] rd(2)] by auto
  then have "good_result mv u s (obind (insert_entry (key_of (ns @ [n])) e s3) (\<lambda>s4. Done (Inr (x e), s4)))"
    by (intro create_effect [OF ok rd new, where ft = ft])
      (use m in \<open>auto simp: s2_def s1_def update_conv' kids_def fun_eq_iff\<close>)
  then show ?thesis by (simp add: s1 s2 s3)
qed

lemma mkdir_good:
  assumes ok: "fs_ok s" and i: "unique_id_freshness s < usize_max"
  shows "good_result mv (acting_user env s) s (mkdir env path m s)"
  unfolding mkdir_def Let_def
  by (rule good_absolute [OF ok], rule good_named [OF ok])
    (auto simp: ok simp del: key_of_simps intro!: create_good [OF ok i] makes_node_new)

lemma symlink_good:
  assumes ok: "fs_ok s" and i: "unique_id_freshness s < usize_max"
  shows "good_result mv (acting_user env s) s (symlink env target path s)"
  unfolding symlink_def Let_def
  by (rule good_absolute [OF ok], rule good_named [OF ok])
    (auto simp: ok simp del: key_of_simps intro!: create_good [OF ok i] makes_node_new)

lemma make_fifo_good:
  assumes ok: "fs_ok s" and i: "unique_id_freshness s < usize_max"
  shows "good_result mv (acting_user env s) s (make_fifo env path m s)"
  unfolding make_fifo_def Let_def
  by (rule good_absolute [OF ok], rule good_named [OF ok])
    (auto simp: ok simp del: key_of_simps intro!: create_good [OF ok i] makes_node_new(3) [where ff = True, simplified])

lemma open_create_good:
  assumes ok: "fs_ok s" and i: "unique_id_freshness s < usize_max"
  shows "good_result mv (acting_user env s) s (open_create env path flags m s)"
  unfolding open_create_def Let_def
  by (rule good_named [OF ok])
    (auto simp: ok simp del: key_of_simps split: option.split
      intro!: create_good [OF ok i] makes_node_new(3) [where ff = False, simplified])

text \<open>Removing a name: the child, then the entry.\<close>

lemma remove_child_eq:
  "remove_child d n t s = (kids s d n,
     s\<lparr>dirs := (dirs s)(d := (dirs s d)\<lparr>d_perms := (d_perms (dirs s d))\<lparr>p_mtime := t\<rparr>,
                                 children := AList.delete n (children (dirs s d))\<rparr>)\<rparr>)"
  by (simp add: remove_child_def kids_def Let_def)

lemma remove_effect:
  assumes ok: "fs_ok s" and rd: "reachable_dir s u ns" "tree s ns = Some (Dir d)" "can_write_by (d_perms (dirs s d)) u"
    and e: "tree s (ns @ [n]) = Some e" "\<And>x. e = Dir x \<Longrightarrow> kids s x = Map.empty"
    and s': "root_entries s' = AList.delete (key_of (ns @ [n])) (root_entries s)"
      "kids s' = (\<lambda>x. if x = d then (kids s d)(n := None) else kids s x)"
      "next_node s' = next_node s" "current_working_dir s' = current_working_dir s" "unique_id_freshness s' = unique_id_freshness s"
      "\<And>a. f_nlink (files s' a) = (if e = File a then f_nlink (files s a) - 1 else f_nlink (files s a))"
  shows "fs_effect mv u s s'"
proof (rule removed [OF rd e])
  show "tree s' = (tree s)(ns @ [n] := None)" by (rule tree_delete [OF tree_proper [OF e(1)] s'(1)])
  show "keys_ok s'" by (rule keys_ok_delete [OF fs_okD(2) [OF ok] s'(1)])
qed (use s' in simp_all)

lemma rmdir_good:
  assumes ok: "fs_ok s"
  shows "good_result mv (acting_user env s) s (rmdir env path s)"
  unfolding rmdir_def Let_def
proof (rule good_absolute [OF ok], rule good_named [OF ok], goal_cases)
  case (2 p ns n d)
  show ?case
  proof (cases "\<exists>a. tree s (ns @ [n]) = Some (Dir a) \<and> children (dirs s a) = [] \<and>
      can_write_by (d_perms (dirs s d)) (acting_user env s)")
    case True
    then obtain a where a: "tree s (ns @ [n]) = Some (Dir a)" "children (dirs s a) = []"
      "can_write_by (d_perms (dirs s d)) (acting_user env s)" by blast
    obtain ft where ft: "kids s d n = Some ft" "kind_ok ft (Dir a)" using child_kind [OF ok 2(3) a(1)] by blast
    then have "ft = Directory" by (simp add: kind_ok_def)
    then show ?thesis
      using a ft 2(1)
      by (simp add: remove_child_eq remove_entry_Done is_dir_def del: key_of_simps)
        (rule good_success, rule remove_effect [OF ok 2(2,3) a(3,1)],
          auto simp: kids_def delete_conv' fun_eq_iff)
  qed (use ok in \<open>auto split: option.split fs_entry.split\<close>)
qed (use ok in simp)

lemma unlink_good:
  assumes ok: "fs_ok s"
  shows "good_result mv (acting_user env s) s (unlink env path s)"
  unfolding unlink_def Let_def
proof (rule good_absolute [OF ok], rule good_named [OF ok], goal_cases)
  case (2 p ns n d)
  show ?case
  proof (cases "\<exists>e. tree s (ns @ [n]) = Some e \<and> \<not> is_dir e \<and> can_write_by (d_perms (dirs s d)) (acting_user env s)")
    case True
    then obtain e where e: "tree s (ns @ [n]) = Some e" "\<not> is_dir e"
      "can_write_by (d_perms (dirs s d)) (acting_user env s)" by blast
    obtain ft where ft: "kids s d n = Some ft" "kind_ok ft e" using child_kind [OF ok 2(3) e(1)] by blast
    then have "Some ft \<in> {Some RegularFile, Some file_type.Symlink, Some Fifo}"
      using e(2) by (auto simp: kind_ok_def is_dir_def split: fs_entry.splits)
    then show ?thesis
      using e ft 2(1)
      by (cases e) (simp_all add: remove_child_eq remove_entry_Done is_dir_def del: key_of_simps,
          (rule good_success, rule remove_effect [OF ok 2(2,3) e(3,1)],
            auto simp: kids_def delete_conv' fun_eq_iff)+)
  qed (use ok in \<open>auto simp: is_dir_def split: option.split fs_entry.split\<close>)
qed (use ok in simp)

lemma link_effect:
  assumes ok: "fs_ok s" and rd: "reachable_dir s u ns" "tree s ns = Some (Dir d)" "can_write_by (d_perms (dirs s d)) u"
    and new: "proper (ns @ [n])" "tree s (ns @ [n]) = None" and b: "tree s ms = Some (File b)"
    and s': "root_entries s' = AList.update (key_of (ns @ [n])) (File b) (root_entries s)"
      "kids s' = (\<lambda>x. if x = d then (kids s d)(n \<mapsto> RegularFile) else kids s x)"
      "next_node s' = next_node s" "current_working_dir s' = current_working_dir s" "unique_id_freshness s' = unique_id_freshness s"
      "\<And>a. f_nlink (files s' a) = (if a = b then f_nlink (files s a) + 1 else f_nlink (files s a))"
  shows "fs_effect mv u s s'"
proof (rule linked [OF rd new b])
  show "tree s' = (tree s)(ns @ [n] \<mapsto> File b)" by (rule tree_update [OF new(1) s'(1)])
  show "keys_ok s'" by (rule keys_ok_update [OF fs_okD(2) [OF ok] new(1) s'(1)])
qed (use s' in simp_all)

lemma link_good:
  assumes ok: "fs_ok s"
  shows "good_result mv (acting_user env s) s (link env oldpath newpath s)"
  unfolding link_def Let_def
proof (rule good_absolute [OF ok], rule good_absolute [OF ok], rule good_found [OF ok], goal_cases)
  case (1 p q ms pm)
  show ?case
  proof (cases "\<exists>b. tree s ms = Some (File b)")
    case True
    then obtain b where b: "tree s ms = Some (File b)" by blast
    show ?thesis
      unfolding b prod.case option.case fs_entry.case
    proof (rule good_named [OF ok], goal_cases)
      case (2 ns n d)
      show ?case
      proof (cases "tree s (ns @ [n]) = None \<and> can_write_by (d_perms (dirs s d)) (acting_user env s)")
        case True
        then show ?thesis
          using no_child [OF ok 2(3), of n] 2(1)
          by (simp add: insert_child_Done insert_entry_Done del: key_of_simps)
            (rule good_success, rule link_effect [OF ok 2(2,3) _ 2(1) _ b],
              auto simp: kids_def update_conv' fun_eq_iff)
      qed (use ok in auto)
    qed (use ok in simp)
  qed (use ok in \<open>auto split: option.split fs_entry.split\<close>)
qed

section \<open>Attributes and data\<close>

lemma set_entry_perms_effect: "fs_ok s \<Longrightarrow> fs_effect mv u s (set_entry_perms e p s)"
  by (rule same_tree; cases e) (auto simp: set_entry_perms_def fs_okD(2) kids_def fun_eq_iff)

lemma set_data_effect: "fs_ok s \<Longrightarrow> fs_effect mv u s (set_data a c s)"
  by (rule same_tree) (auto simp: set_data_def fs_okD(2))

lemma touch_file_effect: "fs_ok s \<Longrightarrow> fs_effect mv u s (touch_file a t s)"
  by (rule same_tree) (auto simp: touch_file_def fs_okD(2))

lemma set_default_user_effect: "fs_ok s \<Longrightarrow> fs_effect mv u s (set_default_user v g s)"
  by (rule same_tree, drule_tac [2] fs_okD(2)) (auto simp: set_default_user_def tree_def keys_ok_def kids_def fun_eq_iff)

lemma chmod_good: "fs_ok s \<Longrightarrow> good_result mv (acting_user env s) s (chmod env path m s)"
  unfolding chmod_def Let_def
  by (rule good_absolute, assumption, rule good_found, assumption)
    (auto split: option.split intro: good_success set_entry_perms_effect)

lemma chown_good: "fs_ok s \<Longrightarrow> good_result mv (acting_user env s) s (chown env path nu ng s)"
  unfolding chown_def Let_def
  by (rule good_absolute, assumption, rule good_found, assumption)
    (auto split: option.split intro: good_success set_entry_perms_effect)

lemma set_entry_perms_same [simp]: "set_entry_perms e (entry_perms e s) s = s"
  by (cases e) (simp_all add: set_entry_perms_def entry_perms_def)

lemma set_times_good: "fs_ok s \<Longrightarrow> good_result mv (acting_user env s) s (set_times env path a m s)"
  unfolding set_times_def Let_def
  by (rule good_absolute, assumption, rule good_found, assumption)
    (auto simp: apply_times_def Let_def split: option.split intro: good_success set_entry_perms_effect)

section \<open>Moving\<close>

lemma split_key_slash:
  assumes "proper xs"
  shows "split_slash (key_of xs @ CHR ''/'' # r) = '''' # xs @ split_slash r"
proof -
  have "key_of xs @ CHR ''/'' # r = join_slash (('''' # xs) @ split_slash r)"
    by (subst join_slash_append) (simp_all add: key_of_join join_split)
  moreover have "\<forall>w \<in> set (('''' # xs) @ split_slash r). CHR ''/'' \<notin> set w"
    using assms split_slash_no_slash by (auto simp: list_all_iff proper_name_def)
  ultimately show ?thesis using split_join [of "('''' # xs) @ split_slash r"] by simp
qed

lemma below_key:
  assumes "proper xs" and "proper ys"
  shows "prefix (key_of xs @ ''/'') (key_of ys) \<longleftrightarrow> (\<exists>zs. zs \<noteq> [] \<and> ys = xs @ zs)"
proof
  assume "prefix (key_of xs @ ''/'') (key_of ys)"
  then obtain r where "key_of ys = key_of xs @ CHR ''/'' # r" by (auto simp: prefix_def)
  then have "'''' # ys = '''' # xs @ split_slash r"
    using split_key [OF assms(2)] split_key_slash [OF assms(1), of r] by metis
  then show "\<exists>zs. zs \<noteq> [] \<and> ys = xs @ zs" by (intro exI [of _ "split_slash r"]) simp
next
  assume "\<exists>zs. zs \<noteq> [] \<and> ys = xs @ zs"
  then obtain z zs where "ys = xs @ z # zs" by (auto simp: neq_Nil_conv)
  then show "prefix (key_of xs @ ''/'') (key_of ys)" by (auto simp: prefix_def)
qed

text \<open>
  The loop that re-keys descendants: each of the given keys, all strictly below \<open>from\<close>, is found at its
  place below \<open>to\<close> afterwards.
\<close>

definition rekeyed :: "string list \<Rightarrow> string list \<Rightarrow> string list set \<Rightarrow> (string list \<Rightarrow> fs_entry option) \<Rightarrow> string list \<Rightarrow> fs_entry option" where
  "rekeyed from to K T ms =
     (if \<exists>ks \<in> K. ms = to @ ks then T (from @ drop (length to) ms)
      else if \<exists>ks \<in> K. ms = from @ ks then None
      else T ms)"

lemma rekeyed_empty [simp]: "rekeyed from to {} T = T"
  by (simp add: rekeyed_def fun_eq_iff)

lemma rekeyed_insert:
  assumes "\<not> prefix from to" "\<not> prefix to from" and "k \<notin> K"
  shows "rekeyed from to K (T(from @ k := None, to @ k := T (from @ k))) = rekeyed from to (insert k K) T"
proof -
  have ne: "from @ xs \<noteq> to @ ys" for xs ys
    using assms(1,2) by (metis prefixI prefix_same_cases)
  show ?thesis using ne ne [symmetric] assms(3) by (auto simp: rekeyed_def fun_eq_iff)
qed

lemma rekey_loop_spec:
  assumes "distinct kss" and "\<forall>ks \<in> set kss. ks \<noteq> [] \<and> tree s (from @ ks) \<noteq> None"
    and "\<not> prefix from to" "\<not> prefix to from" and "proper to" and "keys_ok s"
  shows "\<exists>r. rekey_loop (key_of from @ ''/'') (key_of to @ ''/'') (map (\<lambda>ks. key_of (from @ ks)) kss) s =
      Done (s\<lparr>root_entries := r\<rparr>) \<and> keys_ok (s\<lparr>root_entries := r\<rparr>) \<and>
      tree (s\<lparr>root_entries := r\<rparr>) = rekeyed from to (set kss) (tree s)"
  using assms
proof (induction kss arbitrary: s)
  case Nil
  then show ?case by (intro exI [of _ "root_entries s"]) simp
next
  case (Cons ks kss)
  obtain e where e: "tree s (from @ ks) = Some e" using Cons.prems(2) by auto
  have pf: "proper (from @ ks)" by (rule tree_proper [OF e])
  then have pt: "proper (to @ ks)" using Cons.prems(5) by simp
  obtain k ks' where k: "ks = k # ks'" using Cons.prems(2) by (auto simp: neq_Nil_conv)
  have new: "(key_of to @ ''/'') @ drop (length (key_of from @ ''/'')) (key_of (from @ ks)) = key_of (to @ ks)"
    by (simp add: k)
  define s1 where "s1 = s\<lparr>root_entries := AList.delete (key_of (from @ ks)) (root_entries s)\<rparr>"
  define s2 where "s2 = s1\<lparr>root_entries := AList.update (key_of (to @ ks)) e (root_entries s1)\<rparr>"
  have t1: "tree s1 = (tree s)(from @ ks := None)"
    by (rule tree_delete [OF pf]) (simp add: s1_def)
  have t2: "tree s2 = (tree s)(from @ ks := None, to @ ks := tree s (from @ ks))"
    using tree_update [OF pt, of s2 e s1] by (simp add: s2_def t1 e)
  have ok1: "keys_ok s1" by (rule keys_ok_delete [OF Cons.prems(6)]) (simp add: s1_def)
  have ok2: "keys_ok s2" by (rule keys_ok_update [OF ok1 pt]) (simp add: s2_def)
  have "from @ xs \<noteq> to @ ys" for xs ys
    using Cons.prems(3,4) by (metis prefixI prefix_same_cases)
  then have "\<forall>ks \<in> set kss. ks \<noteq> [] \<and> tree s2 (from @ ks) \<noteq> None"
    using Cons.prems(1,2) by (auto simp: t2)
  then obtain r where r: "rekey_loop (key_of from @ ''/'') (key_of to @ ''/'') (map (\<lambda>ks. key_of (from @ ks)) kss) s2 = Done (s2\<lparr>root_entries := r\<rparr>)"
    "keys_ok (s2\<lparr>root_entries := r\<rparr>)" "tree (s2\<lparr>root_entries := r\<rparr>) = rekeyed from to (set kss) (tree s2)"
    using Cons.IH [of s2] Cons.prems(1,3,4,5) ok2 by auto
  have s2r: "s2\<lparr>root_entries := r\<rparr> = s\<lparr>root_entries := r\<rparr>" by (simp add: s2_def s1_def)
  have "rekey_loop (key_of from @ ''/'') (key_of to @ ''/'') (map (\<lambda>ks. key_of (from @ ks)) (ks # kss)) s =
      rekey_loop (key_of from @ ''/'') (key_of to @ ''/'') (map (\<lambda>ks. key_of (from @ ks)) kss) s2"
    using remove_entry_Done [OF e] unfolding s2_def s1_def new [symmetric] by (simp del: key_of_simps append_assoc)
  moreover have "rekeyed from to (set kss) (tree s2) = rekeyed from to (set (ks # kss)) (tree s)"
    unfolding t2 using rekeyed_insert [OF Cons.prems(3,4), of ks "set kss"] Cons.prems(1) by simp
  ultimately show ?case using r unfolding s2r by (intro exI [of _ r]) simp
qed

text \<open>The keys that are re-keyed are those of the proper descendants of \<open>from\<close>.\<close>

definition below :: "string list \<Rightarrow> (string list \<Rightarrow> fs_entry option) \<Rightarrow> string list set" where
  "below from T = {ks. ks \<noteq> [] \<and> T (from @ ks) \<noteq> None}"

lemma descendant_keys:
  assumes ok: "keys_ok s" and pf: "proper from"
  shows "\<exists>kss. distinct kss \<and> set kss = below from (tree s) \<and>
    filter (prefix (key_of from @ ''/'')) (map fst (root_entries s)) = map (\<lambda>ks. key_of (from @ ks)) kss"
proof -
  let ?keys = "filter (prefix (key_of from @ ''/'')) (map fst (root_entries s))"
  let ?kss = "map (\<lambda>k. drop (length from) (names_of k)) ?keys"
  have key: "\<exists>ks. k = key_of (from @ ks) \<and> names_of k = from @ ks \<and> ks \<in> below from (tree s)" if k: "k \<in> set ?keys" for k
  proof -
    obtain ns where ns: "proper ns" "k = key_of ns" using ok k by (auto simp: keys_ok_def)
    moreover obtain ks where "ks \<noteq> []" "ns = from @ ks" using below_key [OF pf ns(1)] k ns(2) by auto
    moreover have "tree s ns \<noteq> None" using k ns by (auto simp: tree_def map_of_eq_None_iff)
    ultimately show ?thesis using names_of_key [OF ns(1)] by (auto simp: below_def)
  qed
  have eq: "?keys = map (\<lambda>ks. key_of (from @ ks)) ?kss"
    by (rule sym, subst map_map, rule map_idI, drule key) (auto simp del: key_of_simps)
  moreover have "distinct ?keys" using ok by (simp add: keys_ok_def)
  then have "distinct ?kss" using eq by (metis (no_types, lifting) distinct_map)
  moreover have "set ?kss = below from (tree s)"
  proof
    show "set ?kss \<subseteq> below from (tree s)" using key by fastforce
    show "below from (tree s) \<subseteq> set ?kss"
    proof
      fix ks
      assume ks: "ks \<in> below from (tree s)"
      then obtain e where e: "tree s (from @ ks) = Some e" by (auto simp: below_def)
      then have "key_of (from @ ks) \<in> set ?keys"
        using below_key [OF pf tree_proper [OF e]] ks
        by (auto simp: tree_def below_def simp del: key_of_simps dest!: map_of_SomeD split: if_splits intro: rev_image_eqI)
      then show "ks \<in> set ?kss"
        using names_of_key [OF tree_proper [OF e]] by (force intro: rev_image_eqI simp del: key_of_simps)
    qed
  qed
  ultimately show ?thesis by blast
qed

lemma rekey_descendants_spec:
  assumes "keys_ok s" and "proper from" "proper to" and "\<not> prefix from to" "\<not> prefix to from"
  shows "\<exists>r. rekey_descendants (key_of from) (key_of to) s = Done (s\<lparr>root_entries := r\<rparr>) \<and> keys_ok (s\<lparr>root_entries := r\<rparr>) \<and>
    tree (s\<lparr>root_entries := r\<rparr>) = rekeyed from to (below from (tree s)) (tree s)"
proof -
  obtain kss where kss: "distinct kss" "set kss = below from (tree s)"
    "filter (prefix (key_of from @ ''/'')) (map fst (root_entries s)) = map (\<lambda>ks. key_of (from @ ks)) kss"
    using descendant_keys [OF assms(1,2)] by blast
  have "\<forall>ks \<in> set kss. ks \<noteq> [] \<and> tree s (from @ ks) \<noteq> None" unfolding kss(2) by (simp add: below_def)
  from rekey_loop_spec [OF kss(1) this assms(4,5,3,1)] show ?thesis
    unfolding rekey_descendants_def kss(3) kss(2) by blast
qed

lemma rekeyed_moved:
  assumes "\<not> prefix from to" "\<not> prefix to from" and "T from = Some e" and "\<And>ks. ks \<noteq> [] \<Longrightarrow> T (to @ ks) = None"
  shows "(rekeyed from to (below from (T(from := None))) (T(from := None)))(to \<mapsto> e) = moved from to T"
proof
  fix ms
  have ne: "from @ xs \<noteq> to @ ys" for xs ys
    using assms(1,2) by (metis prefixI prefix_same_cases)
  consider (target) ks where "ms = to @ ks" | (source) ks where "ms = from @ ks" | (other) "\<not> prefix to ms" "\<not> prefix from ms"
    unfolding prefix_def by blast
  then show "((rekeyed from to (below from (T(from := None))) (T(from := None)))(to \<mapsto> e)) ms = moved from to T ms"
  proof cases
    case (target ks)
    then show ?thesis
      using assms(3,4) ne [of ks "[]"] ne [of "[]" "[]"] by (auto simp: moved_simps(1) rekeyed_def below_def)
  next
    case (source ks)
    have "\<not> prefix to (from @ ks)" using ne [of ks] by (auto simp: prefix_def)
    then show ?thesis
      using source ne [of ks "[]"] ne [of ks] by (auto simp: moved_simps(3) rekeyed_def below_def)
  next
    case other
    then show ?thesis by (auto simp: moved_simps(2) rekeyed_def)
  qed
qed

lemma tree_root_entries: "tree (s\<lparr>root_entries := r, files := y\<rparr>) = tree (s\<lparr>root_entries := r\<rparr>)"
  by (rule tree_same) simp

lemma move_entry_spec:
  assumes ok: "keys_ok s" and par: "\<not> prefix from to" "\<not> prefix to from" and e: "tree s from = Some e"
    and leaf: "\<not> is_dir e \<Longrightarrow> below from (tree s) = {}" and to: "proper to" "\<And>ks. ks \<noteq> [] \<Longrightarrow> tree s (to @ ks) = None"
  shows "\<exists>r fl. move_entry (is_dir e) (key_of from) (key_of to) s = Done (s\<lparr>root_entries := r, files := fl\<rparr>) \<and>
    keys_ok (s\<lparr>root_entries := r\<rparr>) \<and> tree (s\<lparr>root_entries := r\<rparr>) = moved from to (tree s) \<and>
    (\<forall>a. f_nlink (fl a) = (if tree s to = Some (File a) \<and> e \<noteq> File a then f_nlink (files s a) - 1 else f_nlink (files s a)))"
proof -
  have pf: "proper from" by (rule tree_proper [OF e])
  define s1 where "s1 = s\<lparr>root_entries := AList.delete (key_of from) (root_entries s)\<rparr>"
  have t1: "tree s1 = (tree s)(from := None)" by (rule tree_delete [OF pf]) (simp add: s1_def)
  have ok1: "keys_ok s1" by (rule keys_ok_delete [OF ok]) (simp add: s1_def)
  have b1: "below from (tree s1) = below from (tree s)" by (auto simp: t1 below_def)
  obtain r where r: "(if is_dir e then rekey_descendants (key_of from) (key_of to) s1 else Done s1) = Done (s1\<lparr>root_entries := r\<rparr>)"
    "keys_ok (s1\<lparr>root_entries := r\<rparr>)" "tree (s1\<lparr>root_entries := r\<rparr>) = rekeyed from to (below from (tree s1)) (tree s1)"
  proof (cases "is_dir e")
    case False
    then show ?thesis using that [of "root_entries s1"] leaf ok1 by (simp add: b1)
  qed (use rekey_descendants_spec [OF ok1 pf to(1) par] that in auto)
  define s2 where "s2 = s1\<lparr>root_entries := r\<rparr>"
  have rep: "map_of r (key_of to) = tree s to"
  proof -
    have "tree s2 to = tree s to" using par by (auto simp: s2_def r(3) rekeyed_def t1 below_def)
    then show ?thesis using to(1) by (simp add: tree_def s2_def)
  qed
  define q where "q = AList.update (key_of to) e r"
  have t3: "tree (s\<lparr>root_entries := q\<rparr>) = moved from to (tree s)"
    using tree_update [OF to(1), of "s\<lparr>root_entries := q\<rparr>" e s2] rekeyed_moved [OF par e to(2)]
    by (simp add: q_def s2_def r(3) t1 del: fun_upd_apply)
  have ok3: "keys_ok (s\<lparr>root_entries := q\<rparr>)"
    by (rule keys_ok_update [OF r(2) to(1)]) (simp add: q_def)
  have rem: "remove_entry (key_of from) s = Done (e, s1)" using remove_entry_Done [OF e] by (simp add: s1_def)
  define fl where "fl = (case tree s to of Some (File b) \<Rightarrow>
      if e = File b then files s else (files s)(b := (files s b)\<lparr>f_nlink := f_nlink (files s b) - 1\<rparr>) | _ \<Rightarrow> files s)"
  have "move_entry (is_dir e) (key_of from) (key_of to) s = Done (s\<lparr>root_entries := q, files := fl\<rparr>)"
    unfolding move_entry_def rem obind.simps prod.case r(1)
    by (simp add: Let_def rep q_def fl_def s1_def split: option.split fs_entry.split)
  moreover have "\<forall>a. f_nlink (fl a) = (if tree s to = Some (File a) \<and> e \<noteq> File a then f_nlink (files s a) - 1 else f_nlink (files s a))"
    by (auto simp: fl_def split: option.split fs_entry.split)
  ultimately show ?thesis using t3 ok3 by blast
qed

lemma move_child_spec:
  assumes "kids s fd f = Some ft" and "same \<longleftrightarrow> fd = td"
  shows "move_child env u same fd f td t s = (Some rename_error.NoWritePerms, s) \<or>
    (\<exists>ds. move_child env u same fd f td t s = (None, s\<lparr>dirs := ds\<rparr>) \<and>
       can_write_by (d_perms (dirs s fd)) u \<and> can_write_by (d_perms (dirs s td)) u \<and>
       (\<forall>x m. kids (s\<lparr>dirs := ds\<rparr>) x m = (if x = td \<and> m = t then Some ft else if x = fd \<and> m = f then None else kids s x m)))"
  using assms
  by (auto simp: move_child_def remove_child_eq kids_def delete_conv' update_conv')

text \<open>Both names resolve to the same entry: only the time of the directory changes.\<close>

lemma move_entry_self:
  assumes "tree s ns = Some e" and "\<not> is_dir e"
  shows "\<exists>r. move_entry (is_dir e) (key_of ns) (key_of ns) s = Done (s\<lparr>root_entries := r\<rparr>) \<and>
    (keys_ok s \<longrightarrow> keys_ok (s\<lparr>root_entries := r\<rparr>)) \<and> tree (s\<lparr>root_entries := r\<rparr>) = tree s"
proof -
  have pf: "proper ns" by (rule tree_proper [OF assms(1)])
  define s1 where "s1 = s\<lparr>root_entries := AList.delete (key_of ns) (root_entries s)\<rparr>"
  define s2 where "s2 = s\<lparr>root_entries := AList.update (key_of ns) e (root_entries s1)\<rparr>"
  have t1: "tree s1 = (tree s)(ns := None)" by (rule tree_delete [OF pf]) (simp add: s1_def)
  have "tree s2 = (tree s1)(ns \<mapsto> e)" by (rule tree_update [OF pf]) (simp add: s2_def)
  then have "tree s2 = tree s" using assms(1) by (auto simp: t1)
  moreover have "keys_ok s2" if "keys_ok s"
    using keys_ok_delete [OF that, of s1] keys_ok_update [OF _ pf, of s1 s2 e] by (simp add: s1_def s2_def)
  moreover have "move_entry (is_dir e) (key_of ns) (key_of ns) s = Done s2"
    using assms(2) by (simp add: move_entry_def remove_entry_Done [OF assms(1)] Let_def s2_def s1_def delete_conv')
  ultimately show ?thesis unfolding s2_def by blast
qed

lemma is_dir_iff: "is_dir e \<longleftrightarrow> (\<exists>d. e = Dir d)"
  by (cases e) (simp_all add: is_dir_def)

lemma prefix_is_dir:
  "tree_ok T C N \<Longrightarrow> T ms = Some e \<Longrightarrow> prefix ns ms \<Longrightarrow> ns \<noteq> ms \<Longrightarrow> \<exists>d. T ns = Some (Dir d)"
  using tree_ok_prefix [of T C N ns] by (auto simp: prefix_def)

lemma same_parent: "fs_ok s \<Longrightarrow> tree s ns = Some (Dir x) \<Longrightarrow> tree s ms = Some (Dir y) \<Longrightarrow> key_of ns = key_of ms \<longleftrightarrow> x = y"
  using key_of_inj [OF tree_proper tree_proper, of s ns _ s ms] tree_okD(4) [OF fs_okD(1), of s ns x ms] by auto

lemma moved_self: "moved ns ns T = T"
  by (auto simp: moved_def fun_eq_iff prefix_def)

lemma move_spec:
  assumes ok: "fs_ok s"
    and F: "proper (fs' @ [f])" "reachable_dir s u fs'" "tree s fs' = Some (Dir fd)" "tree s (fs' @ [f]) = Some e"
    and T: "proper (ts @ [t])" "reachable_dir s u ts" "tree s ts = Some (Dir td)" "\<And>x. tree s (ts @ [t]) \<noteq> Some (Dir x)"
    and inside: "\<not> (is_dir e \<and> prefix (key_of (fs' @ [f]) @ ''/'') (key_of (ts @ [t])))"
  shows "(case move_child env u (key_of fs' = key_of ts) fd f td t s of
      (Some e, s) \<Rightarrow> Done (Inl e, s)
    | (None, s) \<Rightarrow> obind (move_entry (is_dir e) (key_of (fs' @ [f])) (key_of (ts @ [t])) s) (\<lambda>s. Done (Inr (), s))) =
      Done (Inl rename_error.NoWritePerms, s) \<or>
    (\<exists>s'. (case move_child env u (key_of fs' = key_of ts) fd f td t s of
      (Some e, s) \<Rightarrow> Done (Inl e, s)
    | (None, s) \<Rightarrow> obind (move_entry (is_dir e) (key_of (fs' @ [f])) (key_of (ts @ [t])) s) (\<lambda>s. Done (Inr (), s))) =
      Done (Inr (), s') \<and> fs_effect True u s s' \<and> tree s' = moved (fs' @ [f]) (ts @ [t]) (tree s))"
    (is "?out = _ \<or> _")
proof -
  note tok = fs_okD(1) [OF ok]
  obtain ft where ft: "kids s fd f = Some ft" "kind_ok ft e" using child_kind [OF ok F(3,4)] by blast
  from move_child_spec [OF ft(1) same_parent [OF ok F(3) T(3)], of env u t]
  consider (refused) "move_child env u (key_of fs' = key_of ts) fd f td t s = (Some rename_error.NoWritePerms, s)"
    | (children) ds where "move_child env u (key_of fs' = key_of ts) fd f td t s = (None, s\<lparr>dirs := ds\<rparr>)"
       "can_write_by (d_perms (dirs s fd)) u" "can_write_by (d_perms (dirs s td)) u"
       "\<forall>x m. kids (s\<lparr>dirs := ds\<rparr>) x m = (if x = td \<and> m = t then Some ft else if x = fd \<and> m = f then None else kids s x m)"
    by blast
  then show ?thesis
  proof cases
    case refused
    then show ?thesis by simp
  next
    case (children ds)
    let ?s = "s\<lparr>dirs := ds\<rparr>"
    have leaf: "below (fs' @ [f]) (tree ?s) = {}" if "\<not> is_dir e"
      using tree_ok_below_leaf [OF tok, of "fs' @ [f]"] that F(4) by (fastforce simp: below_def is_dir_iff)
    have to: "tree ?s ((ts @ [t]) @ ks) = None" if "ks \<noteq> []" for ks
      using tree_ok_below_leaf [OF tok T(4) that] by simp
    show ?thesis
    proof (cases "fs' @ [f] = ts @ [t]")
      case True
      then have same: "fs' = ts" "f = t" "fd = td" using F(3) T(3) by auto
      have "\<not> is_dir e" using F(4) T(4) same by (auto simp: is_dir_def split: fs_entry.splits)
      then obtain r where r: "move_entry (is_dir e) (key_of (fs' @ [f])) (key_of (ts @ [t])) ?s = Done (?s\<lparr>root_entries := r\<rparr>)"
        "keys_ok (?s\<lparr>root_entries := r\<rparr>)" "tree (?s\<lparr>root_entries := r\<rparr>) = tree s"
        using move_entry_self [of ?s "fs' @ [f]" e] F(4) fs_okD(2) [OF ok] same by auto
      have "fs_effect True u s (?s\<lparr>root_entries := r\<rparr>)"
        by (rule same_tree [OF r(3,2)]) (use children(4) same ft(1) in \<open>auto simp: fun_eq_iff kids_def\<close>)
      then show ?thesis using children(1) r(1,3) same by (simp add: moved_self del: key_of_simps)
    next
      case False
      have "\<not> prefix (ts @ [t]) (fs' @ [f])"
        using prefix_is_dir [OF tok F(4), of "ts @ [t]"] T(4) False by blast
      moreover have "\<not> prefix (fs' @ [f]) (ts @ [t])"
      proof
        assume "prefix (fs' @ [f]) (ts @ [t])"
        then have pre: "prefix (fs' @ [f]) ts" using False by auto
        then have "is_dir e"
          using prefix_is_dir [OF tok T(3) pre] F(4) T(3) by (cases "fs' @ [f] = ts") (auto simp: is_dir_iff)
        then show False using inside below_key [OF F(1) T(1)] pre by (auto simp: prefix_def)
      qed
      ultimately have par: "\<not> prefix (fs' @ [f]) (ts @ [t])" "\<not> prefix (ts @ [t]) (fs' @ [f])" by blast+
      obtain r fl where r: "move_entry (is_dir e) (key_of (fs' @ [f])) (key_of (ts @ [t])) ?s = Done (?s\<lparr>root_entries := r, files := fl\<rparr>)"
        "keys_ok (?s\<lparr>root_entries := r\<rparr>)" "tree (?s\<lparr>root_entries := r\<rparr>) = moved (fs' @ [f]) (ts @ [t]) (tree s)"
        "\<And>a. f_nlink (fl a) = (if tree s (ts @ [t]) = Some (File a) \<and> e \<noteq> File a then f_nlink (files s a) - 1 else f_nlink (files s a))"
        using move_entry_spec [OF _ par _ leaf T(1) to, of e] F(4) fs_okD(2) [OF ok] by auto
      have "fs_effect True u s (?s\<lparr>root_entries := r, files := fl\<rparr>)"
        by (rule renamed [OF TrueI F(2,3) children(2) T(2,3) children(3) F(4) par T(4) ft(1)])
          (use r children(4) in \<open>auto simp: tree_root_entries kids_def keys_ok_def\<close>)
      then show ?thesis using children(1) r(1,3) by (simp add: tree_root_entries del: key_of_simps)
    qed
  qed
qed

lemma good_moved:
  "fs_ok s \<Longrightarrow> out = Done (Inl e, s) \<or> (\<exists>s'. out = Done (Inr (), s') \<and> fs_effect mv u s s' \<and> P s') \<Longrightarrow> good_result mv u s out"
  by (auto intro: good_success)

text \<open>A path that resolves: to the root, or to a name in a reachable directory.\<close>

definition resolved :: "in_mem_fs \<Rightarrow> user_info \<Rightarrow> string \<Rightarrow> bool" where
  "resolved s u r \<longleftrightarrow> parent_and_entry r u s = Done (Inr (None, tree s [])) \<or>
     (\<exists>ns n d. r = key_of (ns @ [n]) \<and> proper (ns @ [n]) \<and> reachable_dir s u ns \<and> tree s ns = Some (Dir d) \<and>
        parent_and_entry r u s = Done (Inr (Some (key_of ns, d), tree s (ns @ [n]))))"

lemma good_resolved:
  assumes "fs_ok s" and "\<And>r. resolved s u r \<Longrightarrow> good_result mv u s (K r)"
  shows "good_result mv u s (try_path W s (resolved_path path u s) K)"
  by (rule resolved_path_spec [of path u s]) (use assms in \<open>simp_all add: try_path_def resolved_def del: key_of_simps\<close>, blast+)

lemma good_resolved_cases:
  assumes ok: "fs_ok s" and "resolved s u r"
    and "good_result mv u s (K (None, tree s []))"
    and "\<And>ns n d. r = key_of (ns @ [n]) \<Longrightarrow> proper (ns @ [n]) \<Longrightarrow> reachable_dir s u ns \<Longrightarrow> tree s ns = Some (Dir d) \<Longrightarrow>
      good_result mv u s (K (Some (key_of ns, d), tree s (ns @ [n])))"
  shows "good_result mv u s (try_path W s (parent_and_entry r u s) K)"
  using assms(2) unfolding resolved_def
  by (elim disjE exE conjE) (simp_all add: try_path_def assms(3,4) del: key_of_simps)

lemma rename_good:
  assumes ok: "fs_ok s"
  shows "good_result True (acting_user env s) s (rename env from to s)"
  unfolding rename_def Let_def
proof (rule good_absolute [OF ok], rule good_absolute [OF ok], goal_cases)
  case (1 p q)
  show ?case
  proof (cases "p = q")
    case True
    then show ?thesis by (simp, intro good_found [OF ok]) (simp add: ok)
  next
    case False
    show ?thesis
      unfolding if_not_P [OF False]
    proof (rule good_resolved [OF ok], rule good_resolved [OF ok], rule good_resolved_cases [OF ok], assumption, goal_cases)
      case (2 r r' fs' f fd)
      show ?case
      proof (cases "\<exists>e. tree s (fs' @ [f]) = Some e \<and> \<not> (is_dir e \<and> prefix (r @ ''/'') r')")
        case True
        then obtain e where e: "tree s (fs' @ [f]) = Some e" "\<not> (is_dir e \<and> prefix (r @ ''/'') r')" by blast
        show ?thesis
          unfolding e(1) prod.case option.case if_not_P [OF e(2)]
        proof (rule good_resolved_cases [OF ok 2(2)], goal_cases)
          case (2 ts t td)
          have good: "good_result True (acting_user env s) s (case move_child env (acting_user env s) (key_of fs' = key_of ts) fd f td t s of
                (Some e, s) \<Rightarrow> Done (Inl e, s)
              | (None, s) \<Rightarrow> obind (move_entry (is_dir e) r r' s) (\<lambda>s. Done (Inr (), s)))"
            if "\<And>x. tree s (ts @ [t]) \<noteq> Some (Dir x)"
            unfolding \<open>r = _\<close> \<open>r' = _\<close>
            by (rule good_moved [OF ok], rule move_spec [OF ok _ _ _ e(1) _ _ _ that]) (use 2 \<open>proper (fs' @ [f])\<close> \<open>reachable_dir s (acting_user env s) fs'\<close>
                \<open>tree s fs' = Some (Dir fd)\<close> e(2) \<open>r = _\<close> in \<open>simp_all del: key_of_simps\<close>)
          show ?case
            using good ok 2 \<open>proper (fs' @ [f])\<close> \<open>r = _\<close>
            by (cases "tree s (ts @ [t])") (auto simp: is_dir_iff simp del: key_of_simps)
        qed (use ok in simp)
      qed (use ok in \<open>auto split: option.split\<close>)
    qed (use ok in simp)
  qed
qed

text \<open>A rename that succeeds.\<close>

lemma try_path_Inr: "try_path W s m K = Done (Inr x, s') \<longleftrightarrow> (\<exists>a. m = Done (Inr a) \<and> K a = Done (Inr x, s'))"
  by (cases m) (auto simp: try_path_def split: sum.splits)

lemma resolved_path_resolved: "resolved_path p u s = Done (Inr r) \<Longrightarrow> resolved s u r"
  by (rule resolved_path_spec [of p u s]) (auto simp: resolved_def simp del: key_of_simps)

lemma resolved_entry:
  assumes "resolved s u r" and "parent_and_entry r u s = Done (Inr (Some (pp, d), e))"
  shows "\<exists>ns n. r = key_of (ns @ [n]) \<and> proper (ns @ [n]) \<and> reachable_dir s u ns \<and> tree s ns = Some (Dir d) \<and>
    pp = key_of ns \<and> e = tree s (ns @ [n])"
  using assms unfolding resolved_def by (elim disjE exE conjE) (simp_all del: key_of_simps, blast)

lemma rename_moves:
  assumes ok: "fs_ok s" and r: "rename env p q s = Done (Inr (), s')"
    and p: "absolute_path p s = Done p'" and q: "absolute_path q s = Done q'" and ne: "p' \<noteq> q'"
  shows "\<exists>from to e. resolved_path p' (acting_user env s) s = Done (Inr (key_of from)) \<and>
    resolved_path q' (acting_user env s) s = Done (Inr (key_of to)) \<and> tree s from = Some e \<and> tree s' = moved from to (tree s)"
proof -
  define u where "u = acting_user env s"
  note r = r [unfolded rename_def Let_def p q obind.simps if_not_P [OF ne] try_path_Inr, folded u_def]
  from r obtain r1 r2 pf ef where rs: "resolved_path p' u s = Done (Inr r1)" "resolved_path q' u s = Done (Inr r2)"
    and pe: "parent_and_entry r1 u s = Done (Inr (pf, ef))" by auto
  note r = r [unfolded rs outcome.inject sum.inject simp_thms ex_simps pe prod.inject]
  obtain pp fd where pf: "pf = Some (pp, fd)" using r by (cases pf) auto
  obtain e where ef: "ef = Some e" using r pf by (cases ef) auto
  have inside: "\<not> (is_dir e \<and> prefix (r1 @ ''/'') r2)" using r pf ef by auto
  note r = r [unfolded pf ef]
  obtain pt et where pe2: "parent_and_entry r2 u s = Done (Inr (pt, et))" using r inside by (auto simp: try_path_Inr)
  obtain pp' td where pt: "pt = Some (pp', td)" using r inside pe2 by (cases pt) (auto simp: try_path_Inr)
  have nd: "\<not> (case et of Some e \<Rightarrow> is_dir e | None \<Rightarrow> False)"
    using r inside pe2 pt by (auto simp: try_path_Inr split: if_splits)
  have tail: "(case move_child env u (pp = pp') fd (last (components r1)) td (last (components r2)) s of
      (Some e, s) \<Rightarrow> Done (Inl e, s)
    | (None, s) \<Rightarrow> obind (move_entry (is_dir e) r1 r2 s) (\<lambda>s. Done (Inr (), s))) = Done (Inr (), s')"
    using r inside pe2 pt nd by (auto simp: try_path_Inr split: if_splits)
  obtain fs' f where F: "r1 = key_of (fs' @ [f])" "proper (fs' @ [f])" "reachable_dir s u fs'" "tree s fs' = Some (Dir fd)"
    "pp = key_of fs'" "tree s (fs' @ [f]) = Some e"
    using resolved_entry [OF resolved_path_resolved [OF rs(1)]] pe pf ef by metis
  obtain ts t where T: "r2 = key_of (ts @ [t])" "proper (ts @ [t])" "reachable_dir s u ts" "tree s ts = Some (Dir td)"
    "pp' = key_of ts" "et = tree s (ts @ [t])"
    using resolved_entry [OF resolved_path_resolved [OF rs(2)]] pe2 pt by metis
  have "tree s (ts @ [t]) \<noteq> Some (Dir x)" for x using nd T(6) by (auto simp: is_dir_iff)
  note spec = move_spec [OF ok F(2,3,4,6) T(2,3,4) this inside [unfolded F(1) T(1)], of env]
  have names: "last (components r1) = f" "last (components r2) = t" using F(1,2) T(1,2) by (simp_all del: key_of_simps)
  from spec have "tree s' = moved (fs' @ [f]) (ts @ [t]) (tree s)"
    unfolding tail [unfolded names, unfolded F(1,5) T(1,5)] by simp
  then show ?thesis using rs F(1,6) T(1) unfolding u_def by blast
qed

end
