(* ===== verification/InMemRuns.thy ===== *)
theory InMemRuns
  imports InMemOps
begin

text \<open>
  Runs of the in-memory file system: any sequence of calls, each in surroundings of its own. The tree
  invariant holds in every state a run reaches, no call meets one of the assertions of the code before
  the inode numbers run out, and link counts agree with the names that refer to a file.
\<close>

section \<open>Names of a file\<close>

definition names :: "in_mem_fs \<Rightarrow> nat \<Rightarrow> string list set" where
  "names s a = {ns. tree s ns = Some (File a)}"

lemma mem_names: "ns \<in> names s a \<longleftrightarrow> tree s ns = Some (File a)"
  by (simp add: names_def)

lemma finite_tree: "finite {ns. tree s ns \<noteq> None}"
proof (rule finite_subset)
  show "{ns. tree s ns \<noteq> None} \<subseteq> names_of ` fst ` set (root_entries s)"
  proof
    fix ns
    assume "ns \<in> {ns. tree s ns \<noteq> None}"
    then obtain e where "proper ns" "(key_of ns, e) \<in> set (root_entries s)"
      by (auto simp: tree_def dest!: map_of_SomeD split: if_splits)
    then have "ns = names_of (fst (key_of ns, e))" by (simp add: names_of_key)
    then show "ns \<in> names_of ` fst ` set (root_entries s)" using \<open>_ \<in> set _\<close> by blast
  qed
qed simp

lemma finite_names [simp]: "finite (names s a)"
  by (rule finite_subset [OF _ finite_tree]) (auto simp: names_def)

text \<open>A move carries the names along, the one it replaces apart.\<close>

lemma card_moved:
  assumes ok: "tree_ok (tree s) C N" and par: "\<not> prefix from to" "\<not> prefix to from"
    and to: "\<And>x. tree s to \<noteq> Some (Dir x)" and s': "tree s' = moved from to (tree s)"
  shows "card (names s' a) = card (names s a - {to})"
proof -
  define f where "f ms = (if prefix from ms then to @ drop (length from) ms else ms)" for ms :: "string list"
  have ne: "from @ xs \<noteq> to @ ys" for xs ys
    using par by (metis prefixI prefix_same_cases)
  have below: "ms = to" if "prefix to ms" "ms \<in> names s a" for ms
    using that tree_ok_below_leaf [OF ok to] by (auto simp: prefix_def names_def) (metis append_Nil2 option.distinct(1))
  have np: "\<not> prefix to ms" if "ms \<in> names s a - {to}" for ms using below that by blast
  have "inj_on f (names s a - {to})"
  proof (rule inj_onI)
    fix x y
    assume a: "x \<in> names s a - {to}" "y \<in> names s a - {to}" "f x = f y"
    show "x = y"
      using a(3) np [OF a(1)] np [OF a(2)] by (auto simp: f_def prefix_def split: if_splits)
  qed
  moreover have "f ` (names s a - {to}) = names s' a"
  proof
    show "f ` (names s a - {to}) \<subseteq> names s' a"
      using np by (auto simp: f_def names_def s' moved_simps prefix_def)
    show "names s' a \<subseteq> f ` (names s a - {to})"
    proof
      fix ms
      assume "ms \<in> names s' a"
      then have ms: "moved from to (tree s) ms = Some (File a)" by (simp add: names_def s')
      show "ms \<in> f ` (names s a - {to})"
      proof (cases "prefix to ms")
        case True
        then obtain ks where ks: "ms = to @ ks" by (auto simp: prefix_def)
        then have "from @ ks \<in> names s a - {to}"
          using ms ne [of ks "[]"] by (simp add: moved_simps(1) names_def)
        then show ?thesis by (rule rev_image_eqI) (simp add: f_def ks)
      next
        case False
        then have "\<not> prefix from ms" "tree s ms = Some (File a)" using ms by (auto simp: moved_def split: if_splits)
        then show ?thesis using False by (intro rev_image_eqI [of ms]) (auto simp: names_def f_def)
      qed
    qed
  qed
  ultimately show ?thesis by (metis card_image)
qed

text \<open>A count may be too high, as after a file was moved over another name of its own, never too low.\<close>

definition nlink_bound :: "in_mem_fs \<Rightarrow> bool" where
  "nlink_bound s \<longleftrightarrow> (\<forall>a. card (names s a) \<le> f_nlink (files s a))"

definition nlink_exact :: "in_mem_fs \<Rightarrow> bool" where
  "nlink_exact s \<longleftrightarrow> (\<forall>a. card (names s a) = f_nlink (files s a))"

text \<open>What an effect other than a move does to the names of a file and to its count.\<close>

lemma effect_names:
  assumes "fs_effect False u s s'" and "fs_ok s"
  shows "names s' a = names s a \<and> f_nlink (files s' a) = f_nlink (files s a) \<or>
    (\<exists>ns. ns \<notin> names s a \<and> names s' a = insert ns (names s a) \<and> f_nlink (files s' a) = Suc (f_nlink (files s a))) \<or>
    names s a = {} \<and> card (names s' a) = 1 \<and> f_nlink (files s' a) = 1 \<or>
    (\<exists>ns \<in> names s a. names s' a = names s a - {ns} \<and> f_nlink (files s' a) = f_nlink (files s a) - 1)"
  using assms
proof (induction rule: fs_effect.induct)
  case (same_tree s')
  then show ?case by (simp add: names_def)
next
  case (created ns d n ft e s')
  have "names s a = {}" if "e = File a"
    using tree_okD(5) [OF fs_okD(1) [OF created.prems], of _ "File a"] created.hyps(7) that by (auto simp: names_def)
  moreover have "names s' a = (if e = File a then insert (ns @ [n]) (names s a) else names s a)"
    using created.hyps(5,8) by (auto simp: names_def)
  ultimately show ?case using created.hyps(14) [of a] by auto
next
  case (linked ns d n ms b s')
  then show ?case by (auto simp: names_def intro!: exI [of _ "ns @ [n]"])
next
  case (removed ns d n e s')
  then show ?case by (auto simp: names_def intro!: bexI [of _ "ns @ [n]"])
qed simp

lemma effect_nlink_exact:
  assumes "fs_effect False u s s'" and "fs_ok s" and "nlink_exact s"
  shows "nlink_exact s'"
  unfolding nlink_exact_def
proof
  fix a
  show "card (names s' a) = f_nlink (files s' a)"
    using effect_names [OF assms(1,2), of a] assms(3) by (auto simp: nlink_exact_def card_Diff_singleton)
qed

text \<open>A move keeps counts exact, unless it replaced another name of the same file.\<close>

lemma fs_effect_cases:
  "fs_effect mv u s s' \<Longrightarrow> fs_ok s \<Longrightarrow> fs_effect False u s s' \<or>
   (\<exists>from to e. from \<noteq> to \<and> tree s from = Some e \<and> tree s' = moved from to (tree s) \<and>
      (\<forall>a. card (names s' a) = card (names s a - {to})) \<and>
      (\<forall>a. f_nlink (files s' a) =
         (if tree s to = Some (File a) \<and> e \<noteq> File a then f_nlink (files s a) - 1 else f_nlink (files s a))))"
proof (induction rule: fs_effect.induct)
  case (renamed fs' fd ts td f e t ft s')
  have "card (names s' a) = card (names s a - {ts @ [t]})" for a
    by (rule card_moved [OF fs_okD(1) [OF renamed.prems] renamed.hyps(9,10,11,13)])
  then show ?case
    using renamed.hyps(8,9,13,19) by (intro disjI2 exI [of _ "fs' @ [f]"] exI [of _ "ts @ [t]"] exI [of _ e]) auto
next
  case (same_tree s')
  then have "fs_effect False u s s'" by (intro fs_effect.same_tree)
  then show ?case ..
next
  case (created ns d n ft e s')
  from created.hyps have "fs_effect False u s s'" by (rule fs_effect.created)
  then show ?case ..
next
  case (linked ns d n ms b s')
  from linked.hyps have "fs_effect False u s s'" by (rule fs_effect.linked)
  then show ?case ..
next
  case (removed ns d n e s')
  from removed.hyps have "fs_effect False u s s'" by (rule fs_effect.removed)
  then show ?case ..
qed

lemma effect_nlink_bound:
  assumes "fs_effect mv u s s'" and "fs_ok s" and "nlink_bound s"
  shows "nlink_bound s'"
  unfolding nlink_bound_def
proof
  fix a
  have b: "card (names s a) \<le> f_nlink (files s a)" using assms(3) by (simp add: nlink_bound_def)
  from fs_effect_cases [OF assms(1,2)] show "card (names s' a) \<le> f_nlink (files s' a)"
  proof (elim disjE exE conjE)
    assume "fs_effect False u s s'"
    from effect_names [OF this assms(2), of a] b show ?thesis
      by (elim disjE exE bexE conjE) (simp_all add: card_Diff_singleton diff_le_mono)
  next
    fix x to e
    assume "\<forall>a. card (names s' a) = card (names s a - {to})"
      "\<forall>a. f_nlink (files s' a) =
         (if tree s to = Some (File a) \<and> e \<noteq> File a then f_nlink (files s a) - 1 else f_nlink (files s a))"
    then show ?thesis
      using b by (auto simp: card_Diff_singleton_if mem_names diff_le_mono)
  qed
qed

lemma effect_nlink_moved:
  assumes "fs_effect mv u s s'" and "fs_ok s" and "nlink_exact s"
  shows "nlink_exact s' \<or> (\<exists>from to a. from \<noteq> to \<and> tree s from = Some (File a) \<and> tree s to = Some (File a) \<and>
    tree s' = moved from to (tree s))"
  using fs_effect_cases [OF assms(1,2)]
proof (elim disjE exE conjE)
  assume "fs_effect False u s s'"
  then show ?thesis using effect_nlink_exact assms(2,3) by blast
next
  fix x to e
  assume a: "x \<noteq> to" "tree s x = Some e" "tree s' = moved x to (tree s)"
    "\<forall>a. card (names s' a) = card (names s a - {to})"
    "\<forall>a. f_nlink (files s' a) =
       (if tree s to = Some (File a) \<and> e \<noteq> File a then f_nlink (files s a) - 1 else f_nlink (files s a))"
  show ?thesis
  proof (cases "\<exists>b. tree s to = Some (File b) \<and> e = File b")
    case False
    then have "nlink_exact s'"
      using a(4,5) assms(3) by (auto simp: nlink_exact_def card_Diff_singleton_if mem_names)
    then show ?thesis ..
  qed (use a in blast)
qed

section \<open>Calls\<close>

text \<open>The calls that name a path, and what each returns: whether it succeeded, and the state after it.\<close>

datatype path_call =
    Mkdir string u32
  | Rmdir string
  | Unlink string
  | Link string string
  | MakeFifo string u32
  | MakeSymlink string string
  | Rename string string
  | Chmod string u32
  | Chown string "u16 option" "u16 option"
  | SetTimes string "timestamp option" "timestamp option"
  | Create string u32 u32

definition succeeded :: "(('e + 'r) \<times> 's) outcome \<Rightarrow> (bool \<times> 's) outcome" where
  "succeeded m = obind m (\<lambda>(r, s). Done (\<not> isl r, s))"

fun path_step :: "fs_env \<Rightarrow> path_call \<Rightarrow> in_mem_fs \<Rightarrow> (bool \<times> in_mem_fs) outcome" where
  "path_step env (Mkdir p m) s = succeeded (mkdir env p m s)"
| "path_step env (Rmdir p) s = succeeded (rmdir env p s)"
| "path_step env (Unlink p) s = succeeded (unlink env p s)"
| "path_step env (Link p q) s = succeeded (link env p q s)"
| "path_step env (MakeFifo p m) s = succeeded (make_fifo env p m s)"
| "path_step env (MakeSymlink t p) s = succeeded (symlink env t p s)"
| "path_step env (Rename p q) s = succeeded (rename env p q s)"
| "path_step env (Chmod p m) s = succeeded (chmod env p m s)"
| "path_step env (Chown p u g) s = succeeded (chown env p u g s)"
| "path_step env (SetTimes p a m) s = succeeded (set_times env p a m s)"
| "path_step env (Create p f m) s = succeeded (open_create env p f m s)"

definition moves :: "path_call \<Rightarrow> bool" where
  "moves c \<longleftrightarrow> (case c of Rename _ _ \<Rightarrow> True | _ \<Rightarrow> False)"

lemma succeeded_good:
  "good_result mv u s out \<Longrightarrow> \<exists>b s'. succeeded out = Done (b, s') \<and> fs_effect mv u s s' \<and> (\<not> b \<longrightarrow> s' = s)"
  by (auto simp: good_result_def succeeded_def)

lemma path_step_good:
  assumes ok: "fs_ok s" and i: "unique_id_freshness s < usize_max"
  shows "\<exists>b s'. path_step env c s = Done (b, s') \<and> fs_effect (moves c) (acting_user env s) s s' \<and> (\<not> b \<longrightarrow> s' = s)"
  by (cases c) (simp_all only: path_step.simps moves_def path_call.case,
    (rule succeeded_good, intro mkdir_good rmdir_good unlink_good link_good make_fifo_good symlink_good rename_good chmod_good
      chown_good set_times_good open_create_good ok i)+)

section \<open>Calls on descriptors\<close>

lemma touched_data_effect: "fs_ok s \<Longrightarrow> fs_effect mv u s (touch_file a t (set_data b c s))"
  by (rule same_tree) (auto simp: touch_file_def set_data_def fs_okD(2))

lemmas data_effects = fs_effect_refl set_data_effect touched_data_effect set_entry_perms_effect

text \<open>Whenever a call returns, the file system it leaves satisfies a predicate.\<close>

definition leaves :: "(in_mem_fs \<Rightarrow> bool) \<Rightarrow> ('r \<times> 'm fs_world) outcome \<Rightarrow> bool" where
  "leaves P out \<longleftrightarrow> (\<forall>r w'. out = Done (r, w') \<longrightarrow> P (fs w'))"

lemma leaves_simps [simp]:
  "leaves P Panic" "leaves P (Done (r, w)) \<longleftrightarrow> P (fs w)"
  "leaves P (assert_that b m) \<longleftrightarrow> (b \<longrightarrow> leaves P m)"
  by (simp_all add: leaves_def assert_that_def)

lemma leaves_bind: "(\<And>x. m = Done x \<Longrightarrow> leaves P (K x)) \<Longrightarrow> leaves P (obind m K)"
  by (cases m) simp_all

lemma leavesD: "leaves P out \<Longrightarrow> out = Done (r, w') \<Longrightarrow> P (fs w')"
  by (simp add: leaves_def)

lemma fs_read_leaves: "leaves (\<lambda>s'. s' = fs w) (fs_read dbg fd len offset w)"
  unfolding fs_read_def by (rule leaves_bind) (auto simp: Let_def intro!: leaves_bind split: option.split prod.split fs_descriptor.split)

lemma fs_seek_leaves: "leaves (\<lambda>s'. s' = fs w) (fs_seek fd off whence w)"
  unfolding fs_seek_def by (rule leaves_bind) (auto simp: Let_def split: option.split prod.split fs_descriptor.split)

lemma fs_close_leaves: "leaves (\<lambda>s'. s' = fs w) (fs_close fd w)"
  unfolding fs_close_def by (rule leaves_bind) auto

lemma fs_write_leaves: "fs_ok (fs w) \<Longrightarrow> leaves (fs_effect mv u (fs w)) (fs_write env fd buf offset w)"
  unfolding fs_write_def
  by (rule leaves_bind) (auto simp: Let_def data_effects split: option.split prod.split fs_descriptor.split)

lemma fs_truncate_leaves: "fs_ok (fs w) \<Longrightarrow> leaves (fs_effect mv u (fs w)) (fs_truncate env fd n z w)"
  unfolding fs_truncate_def
  by (rule leaves_bind) (auto simp: Let_def data_effects split: option.split prod.split fs_descriptor.split)

lemma chmod_fd_leaves: "fs_ok (fs w) \<Longrightarrow> leaves (fs_effect mv u (fs w)) (chmod_fd env fd m w)"
  unfolding chmod_fd_def Let_def
  by (rule leaves_bind) (auto simp: Let_def data_effects split: option.split prod.split fs_descriptor.split)

lemma open_existing_same: "open_existing env path s = Done (r, s') \<Longrightarrow> s' = s"
  unfolding open_existing_def try_path_def obind_eq_Done by (elim exE conjE) (auto split: sum.splits)

text \<open>Opening creates a file or finds an entry, and may then empty the file.\<close>

lemma fs_open_leaves:
  assumes ok: "fs_ok (fs w)" and i: "unique_id_freshness (fs w) < usize_max"
  shows "leaves (\<lambda>s'. \<exists>s1. fs_effect mv (acting_user env (fs w)) (fs w) s1 \<and> fs_effect mv (acting_user env (fs w)) s1 s')
    (fs_open ty env path flags m w)" (is "leaves ?P _")
proof -
  define u where "u = acting_user env (fs w)"
  have refl: "?P s1" if "fs_effect mv u (fs w) s1" for s1
    using that fs_effect_refl [OF fs_effect_ok [OF that ok]] unfolding u_def by blast
  have tr: "leaves ?P (obind (fs_truncate env fd 0 True w1) (\<lambda>(r, w). case r of Inr _ \<Rightarrow> Done (Inr fd, w)
        | Inl err \<Rightarrow> obind (fs_close fd w) (\<lambda>(_, w). Done (Inl (open_error.TruncateError err), w))))"
    if w1: "fs_effect mv u (fs w) (fs w1)" for fd and w1 :: "'a fs_world"
  proof (rule leaves_bind)
    fix x
    assume x: "fs_truncate env fd 0 True w1 = Done x"
    obtain r w2 where [simp]: "x = (r, w2)" by force
    have "?P (fs w2)"
      using leavesD [OF fs_truncate_leaves [OF fs_effect_ok [OF w1 ok]]] x w1 unfolding u_def by auto
    then show "leaves ?P (case x of (r, w) \<Rightarrow> case r of Inr _ \<Rightarrow> Done (Inr fd, w)
        | Inl err \<Rightarrow> obind (fs_close fd w) (\<lambda>(_, w). Done (Inl (open_error.TruncateError err), w)))"
      using leavesD [OF fs_close_leaves, of fd w2] by (auto split: sum.split intro!: leaves_bind)
  qed
  have entry: "fs_effect mv u (fs w) s1"
    if "(if contains flags O_CREAT then open_create env p flags m (fs w) else open_existing env p (fs w)) = Done (x, s1)" for p x s1
    using open_create_good [OF ok i, of mv env p flags m] that open_existing_same [of env p "fs w" x s1] fs_effect_refl [OF ok]
    by (auto simp: good_result_def u_def split: if_splits)
  show ?thesis
    unfolding fs_open_def Let_def try_path_def
    using fs_effect_refl [OF ok, of mv u] entry
    by (auto intro!: leaves_bind tr refl simp: Let_def split: sum.split prod.split fs_entry.split)
qed

lemma initialize_leaves:
  assumes ok: "fs_ok (fs w)"
  shows "leaves (fs_effect mv u (fs w)) (obind (initialize_primarily_read_heavy_file fd c w) (\<lambda>w. Done ((), w)))"
proof (cases "get_entry_mut fd (fd_table w)")
  case (Done r)
  show ?thesis
  proof (cases r)
    case (Some p)
    obtain d put where "p = (d, put)" by force
    then show ?thesis
      using ok Done Some
      by (cases d) (simp_all add: initialize_primarily_read_heavy_file_def unwrap_def assert_that_def set_data_effect)
  qed (use Done in \<open>simp add: initialize_primarily_read_heavy_file_def unwrap_def\<close>)
qed (simp add: initialize_primarily_read_heavy_file_def)

section \<open>Reachable states\<close>

text \<open>
  The states calls can lead to. The acting user may change at any time, by the default user or by the
  start and the end of a section with root privileges. Inode numbers are 64 bits wide; calls that may
  take one are considered while there is one left. The flag says whether \<open>rename\<close> is among the calls.
\<close>

inductive fs_reach :: "bool \<Rightarrow> 'm fs_world \<Rightarrow> bool" for mv where
  start: "fs_reach mv \<lparr>fs = fs_new env, fd_table = t\<rparr>"
| path: "\<lbrakk>fs_reach mv w; moves c \<Longrightarrow> mv; unique_id_freshness (fs w) < usize_max; path_step env c (fs w) = Done (b, s')\<rbrakk>
    \<Longrightarrow> fs_reach mv (w\<lparr>fs := s'\<rparr>)"
| opened: "\<lbrakk>fs_reach mv w; unique_id_freshness (fs w) < usize_max; fs_open ty env p flags m w = Done (r, w')\<rbrakk> \<Longrightarrow> fs_reach mv w'"
| read: "\<lbrakk>fs_reach mv w; fs_read dbg fd len offset w = Done (r2, w')\<rbrakk> \<Longrightarrow> fs_reach mv w'"
| wrote: "\<lbrakk>fs_reach mv w; fs_write env fd buf offset w = Done (r3, w')\<rbrakk> \<Longrightarrow> fs_reach mv w'"
| seeked: "\<lbrakk>fs_reach mv w; fs_seek fd off whence w = Done (r4, w')\<rbrakk> \<Longrightarrow> fs_reach mv w'"
| truncated: "\<lbrakk>fs_reach mv w; fs_truncate env fd n z w = Done (r5, w')\<rbrakk> \<Longrightarrow> fs_reach mv w'"
| closed: "\<lbrakk>fs_reach mv w; fs_close fd w = Done (fd', w')\<rbrakk> \<Longrightarrow> fs_reach mv w'"
| chmodded: "\<lbrakk>fs_reach mv w; chmod_fd env fd m w = Done (r6, w')\<rbrakk> \<Longrightarrow> fs_reach mv w'"
| initialized: "\<lbrakk>fs_reach mv w; initialize_primarily_read_heavy_file fd c w = Done w'\<rbrakk> \<Longrightarrow> fs_reach mv w'"
| acting: "fs_reach mv w \<Longrightarrow> fs_reach mv (w\<lparr>fs := (fs w)\<lparr>current_user := u, identity_forced := b\<rparr>\<rparr>)"

definition counted :: "bool \<Rightarrow> in_mem_fs \<Rightarrow> bool" where
  "counted mv s \<longleftrightarrow> fs_ok s \<and> nlink_bound s \<and> (\<not> mv \<longrightarrow> nlink_exact s)"

lemma exact_bound: "nlink_exact s \<Longrightarrow> nlink_bound s"
  by (simp add: nlink_exact_def nlink_bound_def)

lemma counted_effect: "counted mv s \<Longrightarrow> fs_effect mv' u s s' \<Longrightarrow> (mv' \<Longrightarrow> mv) \<Longrightarrow> counted mv s'"
  using fs_effect_ok [of mv' u s s'] effect_nlink_bound [of mv' u s s'] effect_nlink_exact [of u s s']
  by (cases mv') (auto simp: counted_def)

lemma tree_new: "tree (fs_new env) = [[] \<mapsto> Dir 0]"
  using key_of_inj [of _ "[]"] by (auto simp: tree_def fs_new_def Let_def fun_eq_iff)

lemma counted_new: "counted mv (fs_new env)"
proof -
  have "tree_ok (tree (fs_new env)) (kids (fs_new env)) (next_node (fs_new env))"
    unfolding tree_ok_def tree_new by (auto simp: kids_def fs_new_def root_dir_new_def Let_def)
  moreover have "keys_ok (fs_new env)" by (auto simp: keys_ok_def fs_new_def Let_def intro: exI [of _ "[]"])
  moreover have "nlink_exact (fs_new env)" unfolding nlink_exact_def names_def tree_new by (simp add: fs_new_def Let_def)
  ultimately show ?thesis using exact_bound by (simp add: counted_def fs_ok_def) (simp add: fs_new_def Let_def)
qed

lemma counted_acting: "counted mv (s\<lparr>current_user := u, identity_forced := b\<rparr>) = counted mv s"
proof -
  have "tree (s\<lparr>current_user := u, identity_forced := b\<rparr>) = tree s" by (rule tree_same) simp
  moreover have "kids (s\<lparr>current_user := u, identity_forced := b\<rparr>) = kids s" by (simp add: kids_def fun_eq_iff)
  ultimately show ?thesis
    by (simp add: counted_def fs_ok_def keys_ok_def kids_def nlink_bound_def nlink_exact_def names_def)
qed

lemma fs_reach_counted: "fs_reach mv w \<Longrightarrow> counted mv (fs w)"
proof (induction rule: fs_reach.induct)
  case (start env t)
  then show ?case by (simp add: counted_new)
next
  case (path w c env b s')
  then have "fs_ok (fs w)" by (simp add: counted_def)
  then have "fs_effect (moves c) (acting_user env (fs w)) (fs w) s'" using path_step_good [of "fs w" env c] path.hyps(3,4) by auto
  then show ?case using counted_effect [OF path.IH] path.hyps(2) by simp
next
  case (opened w ty env p flags m r w')
  then have "fs_ok (fs w)" by (simp add: counted_def)
  from leavesD [OF fs_open_leaves [OF this opened.hyps(2), of False] opened.hyps(3)] opened.IH show ?case
    using counted_effect by blast
next
  case (acting w u b)
  then show ?case by (simp add: counted_acting)
next
  case (initialized w fd c w')
  then have "fs_ok (fs w)" by (simp add: counted_def)
  from leavesD [OF initialize_leaves [OF this], of fd c "()" w' False] initialized show ?case
    using counted_effect by simp blast
next
  case (read w dbg fd len offset r2 w')
  then show ?case using leavesD [OF fs_read_leaves] by metis
next
  case (seeked w fd off whence r4 w')
  then show ?case using leavesD [OF fs_seek_leaves] by metis
next
  case (closed w fd fd' w')
  then show ?case using leavesD [OF fs_close_leaves] by metis
next
  case (wrote w env fd buf offset r3 w')
  then have "fs_ok (fs w)" by (simp add: counted_def)
  from leavesD [OF fs_write_leaves [OF this, of False] wrote.hyps(2)] wrote.IH show ?case using counted_effect by blast
next
  case (truncated w env fd n z r5 w')
  then have "fs_ok (fs w)" by (simp add: counted_def)
  from leavesD [OF fs_truncate_leaves [OF this, of False] truncated.hyps(2)] truncated.IH show ?case using counted_effect by blast
next
  case (chmodded w env fd m r6 w')
  then have "fs_ok (fs w)" by (simp add: counted_def)
  from leavesD [OF chmod_fd_leaves [OF this, of False] chmodded.hyps(2)] chmodded.IH show ?case using counted_effect by blast
qed

section \<open>Runs of path calls\<close>

fun run_paths :: "(fs_env \<times> path_call) list \<Rightarrow> in_mem_fs \<Rightarrow> (bool list \<times> in_mem_fs) outcome" where
  "run_paths [] s = Done ([], s)"
| "run_paths ((env, c) # cs) s =
     obind (path_step env c s) (\<lambda>(b, s). obind (run_paths cs s) (\<lambda>(bs, s). Done (b # bs, s)))"

lemma effect_freshness: "fs_effect mv u s s' \<Longrightarrow> unique_id_freshness s' \<le> Suc (unique_id_freshness s)"
  by (induction rule: fs_effect.induct) simp_all

lemma run_paths_reach:
  assumes "fs_reach mv w" and "\<forall>(env, c) \<in> set cs. moves c \<longrightarrow> mv" and "unique_id_freshness (fs w) + length cs \<le> usize_max"
  shows "\<exists>bs s. run_paths cs (fs w) = Done (bs, s) \<and> length bs = length cs \<and> fs_reach mv (w\<lparr>fs := s\<rparr>)"
  using assms
proof (induction cs arbitrary: w)
  case Nil
  then show ?case by simp
next
  case (Cons ec cs)
  obtain env c where ec: "ec = (env, c)" by force
  have i: "unique_id_freshness (fs w) < usize_max" using Cons.prems(3) by simp
  have "fs_ok (fs w)" using fs_reach_counted [OF Cons.prems(1)] by (simp add: counted_def)
  from path_step_good [OF this i] obtain b s where s: "path_step env c (fs w) = Done (b, s)"
    "fs_effect (moves c) (acting_user env (fs w)) (fs w) s" by blast
  have "fs_reach mv (w\<lparr>fs := s\<rparr>)" by (rule path [OF Cons.prems(1) _ i s(1)]) (use Cons.prems(2) ec in auto)
  then obtain bs s2 where "run_paths cs s = Done (bs, s2)" "length bs = length cs" "fs_reach mv (w\<lparr>fs := s2\<rparr>)"
    using Cons.IH [of "w\<lparr>fs := s\<rparr>"] Cons.prems(2,3) effect_freshness [OF s(2)] by auto
  then show ?case using s(1) by (simp add: ec)
qed

text \<open>A run for the witnesses: root makes a directory, a file in it and a second name for the file.\<close>

definition demo_env :: fs_env where
  "demo_env = \<lparr>calling_thread = None, ident = ident_set 0 0 ident_init, clock_now = (\<lambda>_. timestamp_default), can_reserve = (\<lambda>_ _. True)\<rparr>"

definition demo_calls :: "(fs_env \<times> path_call) list" where
  "demo_calls = map (Pair demo_env) [Mkdir ''/d'' 0x1ed, Create ''/d/f'' 0x40 0x1a4, Link ''/d/f'' ''/g'']"

definition demo_fs :: in_mem_fs where
  "demo_fs = (case run_paths demo_calls (fs_new demo_env) of Done (_, s) \<Rightarrow> s | Panic \<Rightarrow> fs_new demo_env)"

lemma demo_run:
  "case run_paths demo_calls (fs_new demo_env) of
     Done (bs, s) \<Rightarrow> bs = [True, True, True] \<and> unique_id_freshness s = 3 \<and>
       root_entries s = [('''', Dir 0), (''/d'', Dir 1), (''/d/f'', File 2), (''/g'', File 2)] \<and> f_nlink (files s 2) = 2
   | Panic \<Rightarrow> False"
  by code_simp

lemma demo_reach: "fs_reach False \<lparr>fs = demo_fs, fd_table = t\<rparr>"
proof -
  have "\<exists>bs s. run_paths demo_calls (fs_new demo_env) = Done (bs, s) \<and> length bs = length demo_calls \<and>
      fs_reach False (\<lparr>fs = fs_new demo_env, fd_table = t\<rparr>\<lparr>fs := s\<rparr>)"
    using run_paths_reach [OF start [of False demo_env t], of demo_calls]
    by (simp add: demo_calls_def moves_def fs_new_def Let_def)
  then show ?thesis by (auto simp: demo_fs_def)
qed

lemma demo_fs_simps:
  "root_entries demo_fs = [('''', Dir 0), (''/d'', Dir 1), (''/d/f'', File 2), (''/g'', File 2)]"
  "f_nlink (files demo_fs 2) = 2" "unique_id_freshness demo_fs = 3"
  using demo_run by (auto simp: demo_fs_def split: outcome.splits)

section \<open>Properties\<close>

text \<open>C1: In every state that calls lead to, the map from paths to entries is a tree that agrees with the
  directories: the root is a directory; an entry's parent is a directory that lists it under its name and with
  its kind; what a directory lists exists; a directory has one name. The link count of a file is never below the
  number of its names, and equal to it as long as nothing was renamed.\<close>

theorem fs_tree_consistent:
  assumes "fs_reach mv w"
  shows "(\<exists>r. tree (fs w) [] = Some (Dir r)) \<and>
    (\<forall>ns n e. tree (fs w) (ns @ [n]) = Some e \<longrightarrow>
      (\<exists>d ft. tree (fs w) ns = Some (Dir d) \<and> map_of (children (dirs (fs w) d)) n = Some ft \<and> kind_ok ft e)) \<and>
    (\<forall>ns d n. tree (fs w) ns = Some (Dir d) \<longrightarrow> n \<in> fst ` set (children (dirs (fs w) d)) \<longrightarrow> tree (fs w) (ns @ [n]) \<noteq> None) \<and>
    (\<forall>ns ms d. tree (fs w) ns = Some (Dir d) \<longrightarrow> tree (fs w) ms = Some (Dir d) \<longrightarrow> ns = ms) \<and>
    (\<forall>a. card {ns. tree (fs w) ns = Some (File a)} \<le> f_nlink (files (fs w) a)) \<and>
    (\<not> mv \<longrightarrow> (\<forall>a. card {ns. tree (fs w) ns = Some (File a)} = f_nlink (files (fs w) a)))"
proof -
  have "counted mv (fs w)" by (rule fs_reach_counted [OF assms])
  then have ok: "tree_ok (tree (fs w)) (kids (fs w)) (next_node (fs w))"
    and n: "nlink_bound (fs w)" "\<not> mv \<Longrightarrow> nlink_exact (fs w)"
    by (simp_all add: counted_def fs_ok_def)
  note D = tree_okD [OF ok, unfolded kids_def]
  have "tree (fs w) (ns @ [m]) \<noteq> None"
    if a: "tree (fs w) ns = Some (Dir d)" "m \<in> fst ` set (children (dirs (fs w) d))" for ns d m
  proof -
    obtain ft where "map_of (children (dirs (fs w) d)) m = Some ft" using a(2) by (metis map_of_eq_None_iff not_None_eq)
    then show ?thesis by (rule D(3) [OF a(1)])
  qed
  then show ?thesis
    using D(1,2,4) n by (intro conjI allI impI) (simp_all add: nlink_bound_def nlink_exact_def names_def)
qed

theorem fs_tree_consistent_witness:
  "tree demo_fs [''d'', ''f''] = Some (File 2) \<and> tree demo_fs [''d''] = Some (Dir 1) \<and>
   tree demo_fs [''g''] = Some (File 2) \<and> card {ns. tree demo_fs ns = Some (File 2)} = 2"
  using fs_tree_consistent [OF demo_reach] by (simp add: demo_fs_simps tree_def proper_name_def)





text \<open>C5: A successful rename of one path to another moves the entry the first resolves to, with everything below it, to
  where the second resolves to, leaves nothing at the old place and changes no other name.\<close>

theorem fs_rename_moves_subtree:
  assumes "fs_reach mv w" and "rename env p q (fs w) = Done (Inr (), s')"
    and "absolute_path p (fs w) = Done p'" and "absolute_path q (fs w) = Done q'" and "p' \<noteq> q'"
  shows "\<exists>from to. resolved_path p' (acting_user env (fs w)) (fs w) = Done (Inr (key_of from)) \<and>
    resolved_path q' (acting_user env (fs w)) (fs w) = Done (Inr (key_of to)) \<and> tree (fs w) from \<noteq> None \<and>
    (\<forall>ks. tree s' (to @ ks) = tree (fs w) (from @ ks)) \<and>
    (\<forall>ns. prefix from ns \<longrightarrow> \<not> prefix to ns \<longrightarrow> tree s' ns = None) \<and>
    (\<forall>ns. \<not> prefix from ns \<longrightarrow> \<not> prefix to ns \<longrightarrow> tree s' ns = tree (fs w) ns)"
proof -
  have "fs_ok (fs w)" using fs_reach_counted [OF assms(1)] by (simp add: counted_def)
  from rename_moves [OF this assms(2-5)] show ?thesis by (auto simp: moved_simps simp del: key_of_simps) (metis moved_simps option.distinct(1))
qed

lemma demo_rename:
  "case rename demo_env ''/d'' ''/e'' demo_fs of
     Done (r, s) \<Rightarrow> r = Inr () \<and> map fst (root_entries s) = ['''', ''/g'', ''/e/f'', ''/e'']
   | Panic \<Rightarrow> False"
  unfolding demo_fs_def by code_simp

theorem fs_rename_moves_subtree_witness:
  "\<exists>s'. rename demo_env ''/d'' ''/e'' demo_fs = Done (Inr (), s') \<and>
    (\<exists>from to. resolved_path ''/d'' (acting_user demo_env demo_fs) demo_fs = Done (Inr (key_of from)) \<and>
      tree s' (to @ [''f'']) = tree demo_fs (from @ [''f'']))"
proof -
  obtain s' where s': "rename demo_env ''/d'' ''/e'' demo_fs = Done (Inr (), s')"
    using demo_rename by (auto split: outcome.splits)
  moreover have "absolute_path ''/d'' demo_fs = Done ''/d''" "absolute_path ''/e'' demo_fs = Done ''/e''"
    unfolding demo_fs_def by code_simp+
  ultimately show ?thesis
    using fs_rename_moves_subtree [OF demo_reach [of new_from_litebox_creation], of demo_env "''/d''" "''/e''" s' "''/d''" "''/e''"] by simp blast
qed

text \<open>
  Renaming a file over another of its own names leaves the count at two while one name remains: the file
  moved onto its own link is exempt from the decrement, though a name of it has gone.
\<close>

lemma rename_over_own_link:
  "case rename demo_env ''/d/f'' ''/g'' demo_fs of
     Done (r, s) \<Rightarrow> r = Inr () \<and> root_entries s = [('''', Dir 0), (''/d'', Dir 1), (''/g'', File 2)] \<and> f_nlink (files s 2) = 2
   | Panic \<Rightarrow> False"
  unfolding demo_fs_def by code_simp

end
