(* ===== verification/InMemData.thy ===== *)
theory InMemData
  imports InMemRuns
begin

text \<open>
  The bytes of files of the in-memory file system, read and written through descriptors: what every
  branch of a read and a write does, that a read sees what was written through any descriptor of the
  same file, zero where nothing was, and where a read of the code panics.
\<close>

section \<open>The bytes after a write\<close>

definition byte_at :: "u8 list \<Rightarrow> nat \<Rightarrow> u8" where
  "byte_at bs i = (if i < length bs then bs ! i else 0)"

lemma length_written: "length (written p buf data) = max (length data) (p + length buf)"
  by (auto simp: written_def Let_def)

lemma byte_at_written:
  "byte_at (written p buf data) i = (if p \<le> i \<and> i < p + length buf then buf ! (i - p) else byte_at data i)"
proof (cases "p < length data")
  case True
  consider "i < p" | "p \<le> i" "i < p + length buf" "i < length data" | "p \<le> i" "i < p + length buf" "length data \<le> i"
    | "p + length buf \<le> i" by linarith
  then show ?thesis
    using True by cases (auto simp: written_def byte_at_def Let_def nth_append min_def)
next
  case False
  then show ?thesis by (auto simp: written_def byte_at_def nth_append)
qed

lemma slice_bytes:
  "j < min n (length data - q) \<Longrightarrow> (take n (drop q data)) ! j = byte_at data (q + j)"
  by (auto simp: byte_at_def)

section \<open>Outcomes of a read and a write\<close>

text \<open>What a read delivers: the bytes from the position on, at most as many as asked for.\<close>

definition delivered :: "nat \<Rightarrow> nat \<Rightarrow> u8 list \<Rightarrow> u8 list" where
  "delivered pos len data = take len (drop pos data)"

lemma get_entry_mut_none:
  assumes "table_inv h t" and "denotes t fd = None"
  shows "get_entry_mut fd t = Done None"
  using resolve_denotes(1) [OF assms(1), of fd] assms(2) by (simp add: get_entry_mut_def)

lemma delivered_length: "min (pos + len) (length data) - min pos (length data) = length (delivered pos len data)"
  by (auto simp: delivered_def min_def)

lemma delivered_slice: "take (length (delivered pos len data)) (drop (min pos (length data)) data) = delivered pos len data"
  by (cases "pos \<le> length data") (simp_all add: delivered_def min_def)

text \<open>The descriptor a call found, and the table after it was written back.\<close>

definition updated :: "(fs_descriptor, 'm) descriptors \<Rightarrow> nat \<Rightarrow> fs_descriptor \<Rightarrow> (fs_descriptor, 'm) descriptors \<Rightarrow> bool" where
  "updated t a d t' \<longleftrightarrow> (\<forall>fd. denotes t' fd =
     (case denotes t fd of Some (a', y) \<Rightarrow> Some (a', if a' = a then d else y) | None \<Rightarrow> None))"

lemma get_entry_mut_found:
  assumes inv: "table_inv h t" and den: "denotes t fd = Some (a, x)"
  shows "\<exists>put. get_entry_mut fd t = Done (Some (x, put)) \<and> (\<forall>d. table_inv h (put d) \<and> updated t a d (put d))"
proof -
  obtain put where put: "get_entry_mut fd t = Done (Some (x, put))"
    "\<forall>d. with_entry_mut fd (\<lambda>_. ((), d)) t = Done (Some (), put d)"
    using get_entry_mut_spec [OF inv den] by blast
  have "table_inv h (put d) \<and> updated t a d (put d)" for d
    using cells.update_bound [OF inv den, of "\<lambda>_. ((), d)"] put(2) by (auto simp: updated_def split: option.split)
  then show ?thesis using put(1) by blast
qed

lemma fs_read_cases:
  assumes inv: "table_inv h (fd_table w)"
  shows "case denotes (fd_table w) fd of
      None \<Rightarrow> fs_read dbg fd len offset w = Done (Inl fs_read_error.ClosedFd, w)
    | Some (a, DirDesc d) \<Rightarrow> fs_read dbg fd len offset w = Done (Inl fs_read_error.NotAFile, w)
    | Some (a, FileDesc x) \<Rightarrow>
        (let pos = (case offset of Some q \<Rightarrow> q | None \<Rightarrow> position x);
             bytes = delivered pos len (cow_bytes (f_data (files (fs w) (fd_file x))))
         in if \<not> read_allowed x then fs_read dbg fd len offset w = Done (Inl NotForReading, w)
            else if usize_max < pos + len then fs_read dbg fd len offset w = Panic
            else \<exists>t'. fs_read dbg fd len offset w = Done (Inr bytes, w\<lparr>fd_table := t'\<rparr>) \<and> table_inv h t' \<and>
              (if offset = None then updated (fd_table w) a (FileDesc (x\<lparr>position := pos + length bytes\<rparr>)) t' else t' = fd_table w))"
proof (cases "denotes (fd_table w) fd")
  case None
  then show ?thesis by (simp add: fs_read_def get_entry_mut_none [OF inv])
next
  case (Some ad)
  obtain a d where ad: "ad = (a, d)" by force
  obtain put where put: "get_entry_mut fd (fd_table w) = Done (Some (d, put))"
    "\<forall>e. table_inv h (put e) \<and> updated (fd_table w) a e (put e)"
    using get_entry_mut_found [OF inv] Some ad by blast
  show ?thesis
  proof (cases d)
    case (FileDesc x)
    have w: "w\<lparr>fd_table := fd_table w\<rparr> = w" by simp
    show ?thesis
      using put FileDesc inv
      by (cases offset) (auto simp: Some ad fs_read_def Let_def unwrap_def assert_that_def delivered_length delivered_slice checked_add_def w)
  qed (simp add: Some ad fs_read_def put(1))
qed

abbreviation demo_fd :: typed_fd where
  "demo_fd \<equiv> \<lparr>raw = 0, closed = False, subsystem = 7\<rparr>"

lemma demo_table: "\<exists>t :: (fs_descriptor, unit) descriptors. table_inv (\<lambda>_. 0) t \<and> denotes t demo_fd = Some (0, d)"
  using insert_fd_spec [OF new_table_inv, of 7 d] by (auto simp: denotes_def)

text \<open>C33: Every outcome of a read: a descriptor that is closed, a directory or not opened for reading is an
  error and nothing changes; otherwise, when the position plus the length asked for fits 64 bits, the bytes
  from the position on are delivered and the position, when it was used, moves behind them in every
  duplicate of the descriptor; when it does not fit, the code panics.\<close>

theorem fs_read_outcomes:
  assumes inv: "table_inv h (fd_table w)"
  shows "case denotes (fd_table w) fd of
      None \<Rightarrow> fs_read dbg fd len offset w = Done (Inl fs_read_error.ClosedFd, w)
    | Some (a, DirDesc d) \<Rightarrow> fs_read dbg fd len offset w = Done (Inl fs_read_error.NotAFile, w)
    | Some (a, FileDesc x) \<Rightarrow>
        (let pos = (case offset of Some q \<Rightarrow> q | None \<Rightarrow> position x);
             bytes = delivered pos len (cow_bytes (f_data (files (fs w) (fd_file x))))
         in if \<not> read_allowed x then fs_read dbg fd len offset w = Done (Inl NotForReading, w)
            else if usize_max < pos + len then fs_read dbg fd len offset w = Panic
            else \<exists>t'. fs_read dbg fd len offset w = Done (Inr bytes, w\<lparr>fd_table := t'\<rparr>) \<and> table_inv h t' \<and>
              (if offset = None then updated (fd_table w) a (FileDesc (x\<lparr>position := pos + length bytes\<rparr>)) t' else t' = fd_table w))"
  by (rule fs_read_cases [OF inv])

theorem fs_read_outcomes_witness:
  "\<exists>t :: (fs_descriptor, unit) descriptors.
     fs_read True demo_fd 4 None \<lparr>fs = demo_fs, fd_table = t\<rparr> = Panic \<and>
     fs_read True demo_fd 4 (Some 0) \<lparr>fs = demo_fs, fd_table = t\<rparr> = Done (Inr [], \<lparr>fs = demo_fs, fd_table = t\<rparr>)"
proof -
  obtain t :: "(fs_descriptor, unit) descriptors" where t: "table_inv (\<lambda>_. 0) t"
    "denotes t demo_fd = Some (0, FileDesc \<lparr>fd_file = 2, read_allowed = True, write_allowed = True, position = usize_max - 1, append_mode = False\<rparr>)"
    using demo_table by blast
  have "cow_bytes (f_data (files demo_fs 2)) = []" unfolding demo_fs_def by code_simp
  then show ?thesis
    using fs_read_outcomes [of "\<lambda>_. 0" "\<lparr>fs = demo_fs, fd_table = t\<rparr>", where fd = demo_fd and dbg = True and len = 4 and offset = None]
      fs_read_outcomes [of "\<lambda>_. 0" "\<lparr>fs = demo_fs, fd_table = t\<rparr>", where fd = demo_fd and dbg = True and len = 4 and offset = "Some 0"] t
    by (intro exI [of _ t]) (auto simp: Let_def delivered_def)
qed

text \<open>A write that finds its descriptor.\<close>

lemma fs_write_file:
  assumes inv: "table_inv h (fd_table w)" and fd: "denotes (fd_table w) fd = Some (a, FileDesc x)" and wa: "write_allowed x"
    and data: "data = cow_bytes (f_data (files (fs w) (fd_file x)))"
    and pos: "p = (if append_mode x \<and> offset = None then length data else case offset of Some q \<Rightarrow> q | None \<Rightarrow> position x)"
    and room: "p + length buf \<le> usize_max" "p + length buf \<le> length data \<or> can_reserve env (length data) (p + length buf - length data)"
  shows "\<exists>t'. fs_write env fd buf offset w = Done (Inr (length buf),
      w\<lparr>fs := touch_file (fd_file x) (clock_now env 0) (set_data (fd_file x) (Owned (written p buf data)) (fs w)), fd_table := t'\<rparr>) \<and>
    table_inv h t' \<and>
    (if offset = None then updated (fd_table w) a (FileDesc (x\<lparr>position := p + length buf\<rparr>)) t' else t' = fd_table w)"
proof -
  obtain put where put: "get_entry_mut fd (fd_table w) = Done (Some (FileDesc x, put))"
    "\<forall>e. table_inv h (put e) \<and> updated (fd_table w) a e (put e)"
    using get_entry_mut_found [OF inv fd] by blast
  have "fs_write env fd buf offset w = Done (Inr (length buf),
      w\<lparr>fs := touch_file (fd_file x) (clock_now env 0) (set_data (fd_file x) (Owned (written p buf data)) (fs w)),
        fd_table := if offset = None then put (FileDesc (x\<lparr>position := p + length buf\<rparr>)) else fd_table w\<rparr>)"
    unfolding fs_write_def put(1) obind.simps option.case prod.case fs_descriptor.case Let_def data [symmetric] pos [symmetric]
    using wa room by (auto simp: checked_add_def)
  then show ?thesis using put(2) inv by auto
qed

text \<open>C34: A write at an offset, through a descriptor opened for writing and with room for it, is seen by every
  later read of the same file through any descriptor opened for reading: a byte in the range written is the
  one written, any other is what the file held there, zero beyond its old end; the file ends at the larger of
  its old end and the end of the write.\<close>

theorem fs_write_read_round_trip:
  assumes "table_inv h (fd_table w)" and "denotes (fd_table w) fd = Some (a, FileDesc x)" and "write_allowed x"
    and "old = cow_bytes (f_data (files (fs w) (fd_file x)))"
    and "off + length buf \<le> usize_max"
    and "off + length buf \<le> length old \<or> can_reserve env (length old) (off + length buf - length old)"
    and "denotes (fd_table w) fd' = Some (a', FileDesc y)" and "fd_file y = fd_file x" and "read_allowed y" and "q + n \<le> usize_max"
  shows "\<exists>w' bytes. fs_write env fd buf (Some off) w = Done (Inr (length buf), w') \<and>
    fs_read dbg fd' n (Some q) w' = Done (Inr bytes, w') \<and>
    length bytes = min n (max (length old) (off + length buf) - q) \<and>
    (\<forall>i < length bytes. bytes ! i =
       (if off \<le> q + i \<and> q + i < off + length buf then buf ! (q + i - off) else byte_at old (q + i)))"
proof -
  define new where "new = written off buf old"
  obtain w' where w': "fs_write env fd buf (Some off) w = Done (Inr (length buf), w')" "fd_table w' = fd_table w"
    "cow_bytes (f_data (files (fs w') (fd_file x))) = new"
    using fs_write_file [OF assms(1-4) refl, of "Some off" buf env] assms(5,6)
    by (auto simp: new_def touch_file_def set_data_def)
  then have r: "fs_read dbg fd' n (Some q) w' = Done (Inr (delivered q n new), w')"
    using fs_read_cases [of h w', where fd = fd' and dbg = dbg and len = n and offset = "Some q"] assms(1,7-10) by (auto simp: Let_def)
  have len: "length (delivered q n new) = min n (max (length old) (off + length buf) - q)"
    by (simp add: delivered_def new_def length_written min.commute)
  have "delivered q n new ! i =
      (if off \<le> q + i \<and> q + i < off + length buf then buf ! (q + i - off) else byte_at old (q + i))"
    if "i < length (delivered q n new)" for i
    using that slice_bytes [of i n new q] byte_at_written [of off buf old "q + i"]
    by (simp add: delivered_def new_def)
  then show ?thesis using w'(1) r len by blast
qed

theorem fs_write_read_round_trip_witness:
  "\<exists>(t :: (fs_descriptor, unit) descriptors) w' bytes.
     fs_write demo_env demo_fd [1, 2, 3] (Some 2) \<lparr>fs = demo_fs, fd_table = t\<rparr> = Done (Inr 3, w') \<and>
     fs_read True demo_fd 9 (Some 1) w' = Done (Inr bytes, w') \<and> length bytes = 4 \<and> bytes ! 0 = 0 \<and> bytes ! 3 = 3"
proof -
  let ?x = "\<lparr>fd_file = 2, read_allowed = True, write_allowed = True, position = 0, append_mode = False\<rparr>"
  obtain t :: "(fs_descriptor, unit) descriptors" where t: "table_inv (\<lambda>_. 0) t" "denotes t demo_fd = Some (0, FileDesc ?x)"
    using demo_table by blast
  have data: "cow_bytes (f_data (files demo_fs 2)) = []" unfolding demo_fs_def by code_simp
  have "\<exists>w' bytes. fs_write demo_env demo_fd [1, 2, 3] (Some 2) \<lparr>fs = demo_fs, fd_table = t\<rparr> = Done (Inr (length [1 :: u8, 2, 3]), w') \<and>
    fs_read True demo_fd 9 (Some 1) w' = Done (Inr bytes, w') \<and>
    length bytes = min 9 (max (length ([] :: u8 list)) (2 + length [1 :: u8, 2, 3]) - 1) \<and>
    (\<forall>i < length bytes. bytes ! i =
       (if 2 \<le> 1 + i \<and> 1 + i < 2 + length [1 :: u8, 2, 3] then [1, 2, 3] ! (1 + i - 2) else byte_at [] (1 + i)))"
    by (rule fs_write_read_round_trip [where x = ?x and y = ?x and a = 0 and a' = 0 and h = "\<lambda>_. 0"])
      (simp_all add: t data demo_env_def)
  then obtain w' bytes where w': "fs_write demo_env demo_fd [1, 2, 3] (Some 2) \<lparr>fs = demo_fs, fd_table = t\<rparr> = Done (Inr 3, w')"
    "fs_read True demo_fd 9 (Some 1) w' = Done (Inr bytes, w')" "length bytes = 4"
    "\<forall>i < length bytes. bytes ! i = (if 2 \<le> 1 + i \<and> 1 + i < 2 + length [1 :: u8, 2, 3] then [1, 2, 3] ! (1 + i - 2) else byte_at [] (1 + i))"
    by (auto simp: numeral_3_eq_3)
  then show ?thesis
    using spec [OF w'(4), of 0] spec [OF w'(4), of 3] by (intro exI [of _ t] exI [of _ w'] exI [of _ bytes]) (simp add: byte_at_def)
qed

text \<open>A write of no bytes beyond the end still pads the file up to the position.\<close>

lemma empty_write_extends: "written 5 [] [7] = [7, 0, 0, 0, 0]"
  by (simp add: written_def eval_nat_numeral)

end
