(* ===== verification/Wire.thy ===== *)
theory Wire
  imports Prelude "HOL-Library.Monad_Syntax"
begin

text \<open>
  Encoders to and decoders from bytes, as wire formats are put together from them. An encoder gives the bytes of
  a value or fails; a decoder takes a value off the front of a buffer and returns the rest, or fails. The
  locale says what a pair of them promises, and the combinators keep the promise.
\<close>

section \<open>Codecs and their contract\<close>

type_synonym 'a decoder = "u8 list \<Rightarrow> ('a \<times> u8 list) option"

record 'a codec =
  encode :: "'a \<Rightarrow> u8 list option"
  decode :: "'a decoder"

text \<open>
  What was encoded is decoded again, whatever follows it; and what was decoded is a proper value that
  encodes to as many bytes as were taken off.
\<close>

locale wire_codec =
  fixes c :: "'a codec" and ok :: "'a \<Rightarrow> bool"
  assumes decode_encode: "ok x \<Longrightarrow> encode c x = Some bs \<Longrightarrow> decode c (bs @ r) = Some (x, r)"
    and encode_decode: "decode c bs = Some (x, r) \<Longrightarrow>
      ok x \<and> (\<exists>b. encode c x = Some b \<and> length b + length r = length bs)"
begin

lemma decode_whole: "ok x \<Longrightarrow> encode c x = Some bs \<Longrightarrow> decode c bs = Some (x, [])"
  using decode_encode [of x bs "[]"] by simp

lemma decode_stable:
  assumes "decode c bs = Some (x, r)"
  shows "\<exists>b. encode c x = Some b \<and> decode c b = Some (x, [])"
  using encode_decode [OF assms] decode_whole by blast

lemma encode_inj: "ok x \<Longrightarrow> ok y \<Longrightarrow> encode c x = Some bs \<Longrightarrow> encode c y = Some bs \<Longrightarrow> x = y"
  using decode_whole by (metis option.inject prod.inject)

end

section \<open>Little-endian numbers\<close>

primrec to_le :: "nat \<Rightarrow> nat \<Rightarrow> u8 list" where
  "to_le 0 v = []"
| "to_le (Suc n) v = word_of_nat v # to_le n (v div 256)"

primrec of_le :: "u8 list \<Rightarrow> nat" where
  "of_le [] = 0"
| "of_le (b # bs) = unat b + 256 * of_le bs"

lemma length_to_le [simp]: "length (to_le n v) = n"
  by (induction n arbitrary: v) simp_all

lemma of_to_le: "of_le (to_le n v) = v mod 256 ^ n"
proof (induction n arbitrary: v)
  case (Suc n)
  have "unat (word_of_nat v :: u8) = v mod 256" by (simp add: unat_of_nat take_bit_eq_mod)
  then show ?case using Suc mod_mult2_eq [of v 256 "256 ^ n"] by simp
qed simp

lemma of_le_bound: "of_le bs < 256 ^ length bs"
proof (induction bs)
  case (Cons b bs)
  have "unat b < 256" using unsigned_less [of b] by simp
  then have "unat b + 256 * of_le bs < 256 * Suc (of_le bs)" by simp
  also have "\<dots> \<le> 256 * 256 ^ length bs" using Cons by (intro mult_le_mono2) simp
  finally show ?case by simp
qed simp

text \<open>A number of a given count of bytes, as \<open>encode_le\<close> and \<open>decode_le\<close> read and write it.\<close>

definition le_codec :: "nat \<Rightarrow> 'w::len word codec" where
  "le_codec n = \<lparr>encode = (\<lambda>v. Some (to_le n (unat v))),
     decode = (\<lambda>buf. if n \<le> length buf then Some (word_of_nat (of_le (take n buf)), drop n buf) else None)\<rparr>"

abbreviation u8_codec :: "u8 codec" where "u8_codec \<equiv> le_codec 1"

abbreviation u16_codec :: "u16 codec" where "u16_codec \<equiv> le_codec 2"

abbreviation u32_codec :: "u32 codec" where "u32_codec \<equiv> le_codec 4"

abbreviation u64_codec :: "u64 codec" where "u64_codec \<equiv> le_codec 8"

lemma le_wire:
  assumes "8 * n = LENGTH('w::len)"
  shows "wire_codec (le_codec n :: 'w word codec) (\<lambda>_. True)"
proof
  have p: "(256 :: nat) ^ n = 2 ^ LENGTH('w)" unfolding assms [symmetric] by (simp add: power_mult)
  fix x :: "'w word" and bs r :: "u8 list"
  show "decode (le_codec n) (bs @ r) = Some (x, r)" if "encode (le_codec n) x = Some bs"
    using that p unsigned_less [of x] by (auto simp: le_codec_def of_to_le)
  show "True \<and> (\<exists>b. encode (le_codec n) x = Some b \<and> length b + length r = length bs)"
    if "decode (le_codec n :: 'w word codec) bs = Some (x, r)"
    using that by (auto simp: le_codec_def split: if_splits)
qed

interpretation u8_wire: wire_codec u8_codec "\<lambda>_. True" by (rule le_wire) simp

interpretation u16_wire: wire_codec u16_codec "\<lambda>_. True" by (rule le_wire) simp

interpretation u32_wire: wire_codec u32_codec "\<lambda>_. True" by (rule le_wire) simp

interpretation u64_wire: wire_codec u64_codec "\<lambda>_. True" by (rule le_wire) simp

section \<open>Combinators\<close>

definition unit_codec :: "unit codec" where
  "unit_codec = \<lparr>encode = (\<lambda>_. Some []), decode = (\<lambda>buf. Some ((), buf))\<rparr>"

definition pair_codec :: "'a codec \<Rightarrow> 'b codec \<Rightarrow> ('a \<times> 'b) codec" where
  "pair_codec c d = \<lparr>encode = (\<lambda>(x, y). do {a \<leftarrow> encode c x; b \<leftarrow> encode d y; Some (a @ b)}),
     decode = (\<lambda>buf. do {(x, buf) \<leftarrow> decode c buf; (y, buf) \<leftarrow> decode d buf; Some ((x, y), buf)})\<rparr>"

abbreviation fields2 where "fields2 a b \<equiv> pair_codec a b"

abbreviation fields3 where "fields3 a b c \<equiv> pair_codec a (fields2 b c)"

abbreviation fields4 where "fields4 a b c d \<equiv> pair_codec a (fields3 b c d)"

abbreviation fields5 where "fields5 a b c d e \<equiv> pair_codec a (fields4 b c d e)"

abbreviation fields6 where "fields6 a b c d e f \<equiv> pair_codec a (fields5 b c d e f)"

text \<open>A structure, taken apart into its fields and built from them.\<close>

definition struct_codec :: "('s \<Rightarrow> 'a) \<Rightarrow> ('a \<Rightarrow> 's) \<Rightarrow> 'a codec \<Rightarrow> 's codec" where
  "struct_codec parts build c = \<lparr>encode = (\<lambda>s. encode c (parts s)),
     decode = (\<lambda>buf. map_option (\<lambda>(x, buf). (build x, buf)) (decode c buf))\<rparr>"

text \<open>Flags: bits that have no name are dropped when they are read.\<close>

definition flags_codec :: "'w::len word \<Rightarrow> 'w word codec \<Rightarrow> 'w word codec" where
  "flags_codec known c = \<lparr>encode = encode c,
     decode = (\<lambda>buf. map_option (\<lambda>(x, buf). (x AND known, buf)) (decode c buf))\<rparr>"

text \<open>Bytes after their count, in a count of the given width.\<close>

definition bytes_codec :: "nat \<Rightarrow> u8 list codec" where
  "bytes_codec n = \<lparr>encode = (\<lambda>v. if length v < 256 ^ n then Some (to_le n (length v) @ v) else None),
     decode = (\<lambda>buf.
       if n \<le> length buf then
         let k = of_le (take n buf); buf = drop n buf
         in if k \<le> length buf then Some (take k buf, drop k buf) else None
       else None)\<rparr>"

text \<open>Values after their count; a count above the limit is refused when it is read.\<close>

primrec encode_all :: "'a codec \<Rightarrow> 'a list \<Rightarrow> u8 list option" where
  "encode_all c [] = Some []"
| "encode_all c (x # xs) = do {a \<leftarrow> encode c x; b \<leftarrow> encode_all c xs; Some (a @ b)}"

primrec decode_times :: "'a codec \<Rightarrow> nat \<Rightarrow> 'a list decoder" where
  "decode_times c 0 buf = Some ([], buf)"
| "decode_times c (Suc n) buf = do {(x, buf) \<leftarrow> decode c buf; (xs, buf) \<leftarrow> decode_times c n buf; Some (x # xs, buf)}"

definition vec_codec :: "nat \<Rightarrow> nat \<Rightarrow> 'a codec \<Rightarrow> 'a list codec" where
  "vec_codec n limit c = \<lparr>encode = (\<lambda>v.
       if length v < 256 ^ n then do {b \<leftarrow> encode_all c v; Some (to_le n (length v) @ b)} else None),
     decode = (\<lambda>buf.
       if n \<le> length buf then
         let k = of_le (take n buf)
         in if limit < k then None else decode_times c k (drop n buf)
       else None)\<rparr>"

section \<open>The combinators keep the contract\<close>

named_theorems wire

lemmas [wire] = u8_wire.wire_codec_axioms u16_wire.wire_codec_axioms u32_wire.wire_codec_axioms u64_wire.wire_codec_axioms

lemma unit_wire [wire]: "wire_codec unit_codec (\<lambda>_. True)"
  by unfold_locales (auto simp: unit_codec_def)

lemma pair_wire [wire]:
  assumes "wire_codec c A" and "wire_codec d B"
  shows "wire_codec (pair_codec c d) (\<lambda>(x, y). A x \<and> B y)"
proof -
  note C = wire_codec.decode_encode [OF assms(1)] wire_codec.encode_decode [OF assms(1)]
  note D = wire_codec.decode_encode [OF assms(2)] wire_codec.encode_decode [OF assms(2)]
  show ?thesis
  proof
    fix p bs r
    show "decode (pair_codec c d) (bs @ r) = Some (p, r)"
      if "(\<lambda>(x, y). A x \<and> B y) p" "encode (pair_codec c d) p = Some bs"
      using that C(1) D(1) by (auto simp: pair_codec_def bind_eq_Some_conv split: prod.splits)
    show "(\<lambda>(x, y). A x \<and> B y) p \<and> (\<exists>b. encode (pair_codec c d) p = Some b \<and> length b + length r = length bs)"
      if "decode (pair_codec c d) bs = Some (p, r)"
      using that by (auto simp: pair_codec_def bind_eq_Some_conv dest!: C(2) D(2))
  qed
qed

lemma struct_wire:
  assumes "wire_codec c A" and "\<And>s. build (parts s) = s" and "\<And>x. A x \<Longrightarrow> parts (build x) = x"
  shows "wire_codec (struct_codec parts build c) (\<lambda>s. A (parts s))"
proof -
  note C = wire_codec.decode_encode [OF assms(1)] wire_codec.encode_decode [OF assms(1)]
  show ?thesis
    by unfold_locales (auto simp: struct_codec_def assms(2,3) C(1) dest!: C(2))
qed

lemma flags_wire:
  assumes "wire_codec c (\<lambda>_. True)" and "\<And>x y. \<exists>b b'. encode c x = Some b \<and> encode c y = Some b' \<and> length b = length b'"
  shows "wire_codec (flags_codec known c) (\<lambda>x. x AND known = x)"
proof -
  note C = wire_codec.decode_encode [OF assms(1)] wire_codec.encode_decode [OF assms(1)]
  show ?thesis
  proof
    fix x bs r
    show "decode (flags_codec known c) (bs @ r) = Some (x, r)" if "x AND known = x" "encode (flags_codec known c) x = Some bs"
      using that C(1) by (auto simp: flags_codec_def)
    show "x AND known = x \<and> (\<exists>b. encode (flags_codec known c) x = Some b \<and> length b + length r = length bs)"
      if d: "decode (flags_codec known c) bs = Some (x, r)"
    proof -
      obtain y where y: "decode c bs = Some (y, r)" "x = y AND known" using d by (auto simp: flags_codec_def)
      with C(2) [OF y(1)] assms(2) [of x y] show ?thesis by (auto simp: flags_codec_def and.assoc)
    qed
  qed
qed

lemma le_flags_wire: "8 * n = LENGTH('w::len) \<Longrightarrow> wire_codec (flags_codec known (le_codec n :: 'w word codec)) (\<lambda>x. x AND known = x)"
  by (rule flags_wire [OF le_wire]) (simp_all add: le_codec_def)

lemma word_flags_wire [wire]:
  "wire_codec (flags_codec k8 u8_codec) (\<lambda>x. x AND k8 = x)"
  "wire_codec (flags_codec k32 u32_codec) (\<lambda>x. x AND k32 = x)"
  "wire_codec (flags_codec k64 u64_codec) (\<lambda>x. x AND k64 = x)"
  by (rule le_flags_wire; simp)+

lemma bytes_wire [wire]: "wire_codec (bytes_codec n) (\<lambda>_. True)"
proof
  fix x bs r :: "u8 list"
  show "decode (bytes_codec n) (bs @ r) = Some (x, r)" if "encode (bytes_codec n) x = Some bs"
    using that by (auto simp: bytes_codec_def of_to_le Let_def split: if_splits)
  show "True \<and> (\<exists>b. encode (bytes_codec n) x = Some b \<and> length b + length r = length bs)"
    if "decode (bytes_codec n) bs = Some (x, r)"
    using that of_le_bound [of "take n bs"] by (auto simp: bytes_codec_def Let_def min_def split: if_splits)
qed

lemma decode_times_encode:
  assumes "wire_codec c A" and "list_all A xs" and "encode_all c xs = Some bs"
  shows "decode_times c (length xs) (bs @ r) = Some (xs, r)"
  using assms(2,3)
  by (induction xs arbitrary: bs) (auto simp: bind_eq_Some_conv wire_codec.decode_encode [OF assms(1)])

lemma encode_decode_times:
  assumes "wire_codec c A" and "decode_times c n bs = Some (xs, r)"
  shows "length xs = n \<and> list_all A xs \<and> (\<exists>b. encode_all c xs = Some b \<and> length b + length r = length bs)"
  using assms(2)
proof (induction n arbitrary: bs xs)
  case (Suc n)
  then obtain x buf ys where "decode c bs = Some (x, buf)" "decode_times c n buf = Some (ys, r)" "xs = x # ys"
    by (auto simp: bind_eq_Some_conv)
  with Suc.IH [of buf ys] wire_codec.encode_decode [OF assms(1)] show ?case by fastforce
qed simp

lemma vec_wire:
  assumes "wire_codec c A" and "limit < 256 ^ n"
  shows "wire_codec (vec_codec n limit c) (\<lambda>xs. list_all A xs \<and> length xs \<le> limit)"
proof
  fix xs bs r
  show "decode (vec_codec n limit c) (bs @ r) = Some (xs, r)"
    if "list_all A xs \<and> length xs \<le> limit" "encode (vec_codec n limit c) xs = Some bs"
    using that decode_times_encode [OF assms(1)] by (auto simp: vec_codec_def of_to_le bind_eq_Some_conv split: if_splits)
  show "(list_all A xs \<and> length xs \<le> limit) \<and> (\<exists>b. encode (vec_codec n limit c) xs = Some b \<and> length b + length r = length bs)"
    if "decode (vec_codec n limit c) bs = Some (xs, r)"
    using that assms(2)
    by (auto simp: vec_codec_def Let_def split: if_splits dest!: encode_decode_times [OF assms(1)])
qed

end
