(* ===== verification/NinePFcall.thy ===== *)
theory NinePFcall
  imports Wire
begin

text \<open>
  The messages of the 9P2000.L file protocol and their encoding, \<^verbatim>\<open>litebox/src/fs/nine_p/fcall.rs\<close>. A message
  is a constructor with its fields in the order of the code; its encoding is that of the fields one after
  the other, as the macro \<^verbatim>\<open>Serializer!\<close> derives it. Strings and buffers are byte lists, flags are
  words whose named bits are given by a mask.
\<close>

section \<open>Flags\<close>

definition LOpenFlags :: u32 where "LOpenFlags = 0x1fffc3"

definition LockType :: u8 where "LockType = 3"

definition LockFlag :: u32 where "LockFlag = 3"

definition LockStatus :: u8 where "LockStatus = 3"

definition QidType :: u8 where "QidType = 0xff"

definition GetattrMask :: u64 where "GetattrMask = 0x3fff"

definition SetattrMask :: u32 where "SetattrMask = 0x1ff"

definition MAXWELEM :: nat where "MAXWELEM = 13"

section \<open>Structures\<close>

record qid =
  q_typ :: u8
  q_version :: u32
  q_path :: u64

record statfs =
  sf_typ :: u32
  sf_bsize :: u32
  sf_blocks :: u64
  sf_bfree :: u64
  sf_bavail :: u64
  sf_files :: u64
  sf_ffree :: u64
  sf_fsid :: u64
  sf_namelen :: u32

record time_9p =
  t_sec :: u64
  t_nsec :: u64

record stat =
  st9_mode :: u32
  st9_uid :: u32
  st9_gid :: u32
  st9_nlink :: u64
  st9_rdev :: u64
  st9_size :: u64
  st9_blksize :: u64
  st9_blocks :: u64
  st9_atime :: time_9p
  st9_mtime :: time_9p
  st9_ctime :: time_9p
  st9_btime :: time_9p
  st9_generation :: u64
  st9_data_version :: u64

record set_attr =
  sa_mode :: u32
  sa_uid :: u32
  sa_gid :: u32
  sa_size :: u64
  sa_atime :: time_9p
  sa_mtime :: time_9p

record dir_entry_9p =
  e_qid :: qid
  e_offset :: u64
  e_typ :: u8
  e_name :: "u8 list"

record flock =
  fl_typ :: u8
  fl_flags :: u32
  fl_start :: u64
  fl_length :: u64
  fl_proc_id :: u32
  fl_client_id :: "u8 list"

record getlock =
  gl_typ :: u8
  gl_start :: u64
  gl_length :: u64
  gl_proc_id :: u32
  gl_client_id :: "u8 list"

abbreviation str_codec :: "u8 list codec" where "str_codec \<equiv> bytes_codec 2"

abbreviation data_buf_codec :: "u8 list codec" where "data_buf_codec \<equiv> bytes_codec 4"

definition qid_codec :: "qid codec" where
  "qid_codec = struct_codec (\<lambda>q. (q_typ q, q_version q, q_path q)) (\<lambda>(a, b, c). \<lparr>q_typ = a, q_version = b, q_path = c\<rparr>)
     (fields3 (flags_codec QidType u8_codec) u32_codec u64_codec)"

definition statfs_codec :: "statfs codec" where
  "statfs_codec = struct_codec
     (\<lambda>s. (sf_typ s, sf_bsize s, sf_blocks s, sf_bfree s, sf_bavail s, sf_files s, sf_ffree s, sf_fsid s, sf_namelen s))
     (\<lambda>(a, b, c, d, e, f, g, h, i). \<lparr>sf_typ = a, sf_bsize = b, sf_blocks = c, sf_bfree = d, sf_bavail = e, sf_files = f,
        sf_ffree = g, sf_fsid = h, sf_namelen = i\<rparr>)
     (pair_codec u32_codec (pair_codec u32_codec (pair_codec u64_codec
       (fields6 u64_codec u64_codec u64_codec u64_codec u64_codec u32_codec))))"

definition time_codec :: "time_9p codec" where
  "time_codec = struct_codec (\<lambda>t. (t_sec t, t_nsec t)) (\<lambda>(a, b). \<lparr>t_sec = a, t_nsec = b\<rparr>) (fields2 u64_codec u64_codec)"

definition stat_codec :: "stat codec" where
  "stat_codec = struct_codec
     (\<lambda>s. (st9_mode s, st9_uid s, st9_gid s, st9_nlink s, st9_rdev s, st9_size s, st9_blksize s, st9_blocks s,
           st9_atime s, st9_mtime s, st9_ctime s, st9_btime s, st9_generation s, st9_data_version s))
     (\<lambda>(a, b, c, d, e, f, g, h, i, j, k, l, m, n).
        \<lparr>st9_mode = a, st9_uid = b, st9_gid = c, st9_nlink = d, st9_rdev = e, st9_size = f, st9_blksize = g, st9_blocks = h,
         st9_atime = i, st9_mtime = j, st9_ctime = k, st9_btime = l, st9_generation = m, st9_data_version = n\<rparr>)
     (pair_codec u32_codec (pair_codec u32_codec (pair_codec u32_codec (pair_codec u64_codec (pair_codec u64_codec
       (pair_codec u64_codec (pair_codec u64_codec (pair_codec u64_codec
         (fields6 time_codec time_codec time_codec time_codec u64_codec u64_codec)))))))))"

definition set_attr_codec :: "set_attr codec" where
  "set_attr_codec = struct_codec
     (\<lambda>s. (sa_mode s, sa_uid s, sa_gid s, sa_size s, sa_atime s, sa_mtime s))
     (\<lambda>(a, b, c, d, e, f). \<lparr>sa_mode = a, sa_uid = b, sa_gid = c, sa_size = d, sa_atime = e, sa_mtime = f\<rparr>)
     (fields6 u32_codec u32_codec u32_codec u64_codec time_codec time_codec)"

definition dir_entry_codec :: "dir_entry_9p codec" where
  "dir_entry_codec = struct_codec
     (\<lambda>e. (e_qid e, e_offset e, e_typ e, e_name e)) (\<lambda>(a, b, c, d). \<lparr>e_qid = a, e_offset = b, e_typ = c, e_name = d\<rparr>)
     (fields4 qid_codec u64_codec u8_codec str_codec)"

definition dir_entry_size :: "dir_entry_9p \<Rightarrow> nat" where
  "dir_entry_size e = 13 + 8 + 1 + 2 + length (e_name e)"

definition flock_codec :: "flock codec" where
  "flock_codec = struct_codec
     (\<lambda>l. (fl_typ l, fl_flags l, fl_start l, fl_length l, fl_proc_id l, fl_client_id l))
     (\<lambda>(a, b, c, d, e, f). \<lparr>fl_typ = a, fl_flags = b, fl_start = c, fl_length = d, fl_proc_id = e, fl_client_id = f\<rparr>)
     (fields6 (flags_codec LockType u8_codec) (flags_codec LockFlag u32_codec) u64_codec u64_codec u32_codec str_codec)"

definition getlock_codec :: "getlock codec" where
  "getlock_codec = struct_codec
     (\<lambda>l. (gl_typ l, gl_start l, gl_length l, gl_proc_id l, gl_client_id l))
     (\<lambda>(a, b, c, d, e). \<lparr>gl_typ = a, gl_start = b, gl_length = c, gl_proc_id = d, gl_client_id = e\<rparr>)
     (fields5 (flags_codec LockType u8_codec) u64_codec u64_codec u32_codec str_codec)"

abbreviation vec_str_codec :: "u8 list list codec" where "vec_str_codec \<equiv> vec_codec 2 MAXWELEM str_codec"

abbreviation vec_qid_codec :: "qid list codec" where "vec_qid_codec \<equiv> vec_codec 2 MAXWELEM qid_codec"

section \<open>The structures keep the contract\<close>

definition flock_ok :: "flock \<Rightarrow> bool" where
  "flock_ok l \<longleftrightarrow> fl_typ l AND LockType = fl_typ l \<and> fl_flags l AND LockFlag = fl_flags l"

definition getlock_ok :: "getlock \<Rightarrow> bool" where
  "getlock_ok l \<longleftrightarrow> gl_typ l AND LockType = gl_typ l"

lemma wire_weaken: "wire_codec c A \<Longrightarrow> (\<And>x. A x \<longleftrightarrow> B x) \<Longrightarrow> wire_codec c B"
  using ext [of A B] by simp

lemma qid_all [simp]: "t AND QidType = t"
proof -
  have e: "QidType = - 1" by (simp add: QidType_def)
  show ?thesis unfolding e by simp
qed

lemma qid_wire [wire]: "wire_codec qid_codec (\<lambda>_. True)"
  unfolding qid_codec_def by (rule wire_weaken [OF struct_wire]) (rule wire | simp | force)+

lemma statfs_wire [wire]: "wire_codec statfs_codec (\<lambda>_. True)"
  unfolding statfs_codec_def by (rule wire_weaken [OF struct_wire]) (rule wire | simp | force)+

lemma time_wire [wire]: "wire_codec time_codec (\<lambda>_. True)"
  unfolding time_codec_def by (rule wire_weaken [OF struct_wire]) (rule wire | simp | force)+

lemma stat_wire [wire]: "wire_codec stat_codec (\<lambda>_. True)"
  unfolding stat_codec_def by (rule wire_weaken [OF struct_wire]) (rule wire | simp | force)+

lemma set_attr_wire [wire]: "wire_codec set_attr_codec (\<lambda>_. True)"
  unfolding set_attr_codec_def by (rule wire_weaken [OF struct_wire]) (rule wire | simp | force)+

lemma dir_entry_wire [wire]: "wire_codec dir_entry_codec (\<lambda>_. True)"
  unfolding dir_entry_codec_def by (rule wire_weaken [OF struct_wire]) (rule wire | simp | force)+

lemma flock_wire [wire]: "wire_codec flock_codec flock_ok"
  unfolding flock_codec_def by (rule wire_weaken [OF struct_wire]) (rule wire | simp add: flock_ok_def | force)+

lemma getlock_wire [wire]: "wire_codec getlock_codec getlock_ok"
  unfolding getlock_codec_def by (rule wire_weaken [OF struct_wire]) (rule wire | simp add: getlock_ok_def | force)+

lemma vec_str_wire [wire]: "wire_codec vec_str_codec (\<lambda>v. length v \<le> MAXWELEM)"
  by (rule wire_weaken [OF vec_wire [OF bytes_wire]]) (simp_all add: MAXWELEM_def list_all_iff)

lemma vec_qid_wire [wire]: "wire_codec vec_qid_codec (\<lambda>v. length v \<le> MAXWELEM)"
  by (rule wire_weaken [OF vec_wire [OF qid_wire]]) (simp_all add: MAXWELEM_def list_all_iff)

section \<open>Directory entries\<close>

lemma dir_entry_length: "encode dir_entry_codec e = Some b \<Longrightarrow> length b = dir_entry_size e"
  by (auto simp: dir_entry_codec_def qid_codec_def struct_codec_def pair_codec_def flags_codec_def le_codec_def bytes_codec_def
      dir_entry_size_def bind_eq_Some_conv split: if_splits)

lemma dir_entry_shorter: "decode dir_entry_codec buf = Some (e, buf') \<Longrightarrow> length buf' < length buf"
  using wire_codec.encode_decode [OF dir_entry_wire, of buf e buf'] by (auto dest!: dir_entry_length simp: dir_entry_size_def)

text \<open>The loop of \<open>decode_from\<close>: entries are taken until no more than the given number of bytes is left.\<close>

function decode_entries :: "nat \<Rightarrow> dir_entry_9p list decoder" where
  "decode_entries end_len buf =
     (if end_len < length buf then
        (case decode dir_entry_codec buf of
           None \<Rightarrow> None
         | Some (e, buf') \<Rightarrow> map_option (\<lambda>(es, r). (e # es, r)) (decode_entries end_len buf'))
      else Some ([], buf))"
  by pat_completeness auto

termination
  by (relation "measure (\<lambda>(_, buf). length buf)") (auto dest: dir_entry_shorter)

declare decode_entries.simps [simp del]

definition dir_entry_data_codec :: "dir_entry_9p list codec" where
  "dir_entry_data_codec = \<lparr>encode = (\<lambda>es.
       let size = sum_list (map dir_entry_size es)
       in if size < 2 ^ 32 then do {b \<leftarrow> encode_all dir_entry_codec es; Some (to_le 4 size @ b)} else None),
     decode = (\<lambda>buf. do {
       (n, buf) \<leftarrow> decode u32_codec buf;
       let len = unat n;
       if length buf < len then None
       else do {
         let end_len = length buf - len;
         (es, buf) \<leftarrow> decode_entries end_len buf;
         if length buf = end_len then Some (es, buf) else None}})\<rparr>"

lemma encode_all_length: "encode_all dir_entry_codec es = Some b \<Longrightarrow> length b = sum_list (map dir_entry_size es)"
  by (induction es arbitrary: b) (auto simp: bind_eq_Some_conv dir_entry_length)

lemma decode_entries_encode:
  "encode_all dir_entry_codec es = Some b \<Longrightarrow> decode_entries (length r) (b @ r) = Some (es, r)"
proof (induction es arbitrary: b)
  case Nil
  then show ?case by (simp add: decode_entries.simps)
next
  case (Cons e es)
  then obtain b1 b2 where b: "encode dir_entry_codec e = Some b1" "encode_all dir_entry_codec es = Some b2" "b = b1 @ b2"
    by (auto simp: bind_eq_Some_conv)
  have "0 < length b1" using dir_entry_length [OF b(1)] by (simp add: dir_entry_size_def)
  moreover have "decode dir_entry_codec (b1 @ b2 @ r) = Some (e, b2 @ r)"
    by (rule wire_codec.decode_encode [OF dir_entry_wire TrueI b(1)])
  ultimately show ?case
    by (subst decode_entries.simps) (simp add: b(3) Cons.IH [OF b(2)])
qed

lemma encode_decode_entries:
  "decode_entries k bs = Some (es, r) \<Longrightarrow> \<exists>b. encode_all dir_entry_codec es = Some b \<and> length b + length r = length bs"
proof (induction k bs arbitrary: es rule: decode_entries.induct)
  case (1 k bs)
  show ?case
  proof (cases "k < length bs")
    case True
    obtain e buf es' where e: "decode dir_entry_codec bs = Some (e, buf)" "decode_entries k buf = Some (es', r)" "es = e # es'"
      using 1(2) True by (subst (asm) decode_entries.simps) (auto split: option.splits)
    obtain b where "encode_all dir_entry_codec es' = Some b" "length b + length r = length buf"
      using 1(1) [OF True e(1) refl e(2)] by blast
    moreover obtain b1 where "encode dir_entry_codec e = Some b1" "length b1 + length buf = length bs"
      using wire_codec.encode_decode [OF dir_entry_wire e(1)] by blast
    ultimately show ?thesis by (simp add: e(3))
  next
    case False
    then show ?thesis using 1(2) by (subst (asm) decode_entries.simps) simp
  qed
qed

lemma dir_entry_data_wire [wire]: "wire_codec dir_entry_data_codec (\<lambda>_. True)"
proof
  fix es bs r
  show "decode dir_entry_data_codec (bs @ r) = Some (es, r)" if enc: "encode dir_entry_data_codec es = Some bs"
  proof -
    obtain b where b: "encode_all dir_entry_codec es = Some b" "bs = to_le 4 (length b) @ b" "length b < 2 ^ 32"
      using enc by (auto simp: dir_entry_data_codec_def Let_def bind_eq_Some_conv encode_all_length split: if_splits)
    have d: "decode u32_codec (bs @ r) = Some (word_of_nat (length b), b @ r)"
      using b(3) by (simp add: b(2) le_codec_def of_to_le)
    show ?thesis
      using b(3) decode_entries_encode [OF b(1), of r] by (simp add: dir_entry_data_codec_def d unat_of_nat take_bit_eq_mod)
  qed
  show "True \<and> (\<exists>b. encode dir_entry_data_codec es = Some b \<and> length b + length r = length bs)"
    if dec: "decode dir_entry_data_codec bs = Some (es, r)"
  proof -
    obtain n buf where n: "decode u32_codec bs = Some (n, buf)" "unat n \<le> length buf"
      "decode_entries (length buf - unat n) buf = Some (es, r)" "length r = length buf - unat n"
      using dec by (auto simp: dir_entry_data_codec_def Let_def bind_eq_Some_conv split: if_splits)
    obtain b where b: "encode_all dir_entry_codec es = Some b" "length b + length r = length buf"
      using encode_decode_entries [OF n(3)] by blast
    have "length bs = 4 + length buf" using u32_wire.encode_decode [OF n(1)] by (auto simp: le_codec_def)
    moreover have "length b = unat n" using b(2) n(2,4) by simp
    moreover have "unat n < 2 ^ 32" using unsigned_less [of n] by simp
    ultimately show ?thesis using b encode_all_length [OF b(1)] by (simp add: dir_entry_data_codec_def Let_def)
  qed
qed

section \<open>Messages\<close>

datatype fcall =
    Rlerror u32
  | Tattach u32 u32 "u8 list" "u8 list" u32
  | Rattach qid
  | Tstatfs u32
  | Rstatfs statfs
  | Tlopen u32 u32
  | Rlopen qid u32
  | Tlcreate u32 "u8 list" u32 u32 u32
  | Rlcreate qid u32
  | Tsymlink u32 "u8 list" "u8 list" u32
  | Rsymlink qid
  | Tmknod u32 "u8 list" u32 u32 u32 u32
  | Rmknod qid
  | Trename u32 u32 "u8 list"
  | Rrename
  | Treadlink u32
  | Rreadlink "u8 list"
  | Tgetattr u32 u64
  | Rgetattr u64 qid stat
  | Tsetattr u32 u32 set_attr
  | Rsetattr
  | Txattrwalk u32 u32 "u8 list"
  | Rxattrwalk u64
  | Txattrcreate u32 "u8 list" u64 u32
  | Rxattrcreate
  | Treaddir u32 u64 u32
  | Rreaddir "dir_entry_9p list"
  | Tfsync u32 u32
  | Rfsync
  | Tlock u32 flock
  | Rlock u8
  | Tgetlock u32 getlock
  | Rgetlock getlock
  | Tlink u32 u32 "u8 list"
  | Rlink
  | Tmkdir u32 "u8 list" u32 u32
  | Rmkdir qid
  | Trenameat u32 "u8 list" u32 "u8 list"
  | Rrenameat
  | Tunlinkat u32 "u8 list" u32
  | Runlinkat
  | Tauth u32 "u8 list" "u8 list" u32
  | Rauth qid
  | Tversion u32 "u8 list"
  | Rversion u32 "u8 list"
  | Tflush u16
  | Rflush
  | Twalk u32 u32 "u8 list list"
  | Rwalk "qid list"
  | Tread u32 u64 u32
  | Rread "u8 list"
  | Twrite u32 u64 "u8 list"
  | Rwrite u32
  | Tclunk u32
  | Rclunk
  | Tremove u32
  | Rremove

text \<open>A message read as the fields of one type.\<close>

definition decode_as :: "('a \<Rightarrow> fcall) \<Rightarrow> 'a codec \<Rightarrow> fcall decoder" where
  "decode_as C c buf = map_option (\<lambda>(x, buf). (C x, buf)) (decode c buf)"

primrec fcall_type :: "fcall \<Rightarrow> nat" where
  "fcall_type (Rlerror a) = 7"
| "fcall_type (Tattach a b c d e) = 104"
| "fcall_type (Rattach a) = 105"
| "fcall_type (Tstatfs a) = 8"
| "fcall_type (Rstatfs a) = 9"
| "fcall_type (Tlopen a b) = 12"
| "fcall_type (Rlopen a b) = 13"
| "fcall_type (Tlcreate a b c d e) = 14"
| "fcall_type (Rlcreate a b) = 15"
| "fcall_type (Tsymlink a b c d) = 16"
| "fcall_type (Rsymlink a) = 17"
| "fcall_type (Tmknod a b c d e f) = 18"
| "fcall_type (Rmknod a) = 19"
| "fcall_type (Trename a b c) = 20"
| "fcall_type (Rrename) = 21"
| "fcall_type (Treadlink a) = 22"
| "fcall_type (Rreadlink a) = 23"
| "fcall_type (Tgetattr a b) = 24"
| "fcall_type (Rgetattr a b c) = 25"
| "fcall_type (Tsetattr a b c) = 26"
| "fcall_type (Rsetattr) = 27"
| "fcall_type (Txattrwalk a b c) = 30"
| "fcall_type (Rxattrwalk a) = 31"
| "fcall_type (Txattrcreate a b c d) = 32"
| "fcall_type (Rxattrcreate) = 33"
| "fcall_type (Treaddir a b c) = 40"
| "fcall_type (Rreaddir a) = 41"
| "fcall_type (Tfsync a b) = 50"
| "fcall_type (Rfsync) = 51"
| "fcall_type (Tlock a b) = 52"
| "fcall_type (Rlock a) = 53"
| "fcall_type (Tgetlock a b) = 54"
| "fcall_type (Rgetlock a) = 55"
| "fcall_type (Tlink a b c) = 70"
| "fcall_type (Rlink) = 71"
| "fcall_type (Tmkdir a b c d) = 72"
| "fcall_type (Rmkdir a) = 73"
| "fcall_type (Trenameat a b c d) = 74"
| "fcall_type (Rrenameat) = 75"
| "fcall_type (Tunlinkat a b c) = 76"
| "fcall_type (Runlinkat) = 77"
| "fcall_type (Tauth a b c d) = 102"
| "fcall_type (Rauth a) = 103"
| "fcall_type (Tversion a b) = 100"
| "fcall_type (Rversion a b) = 101"
| "fcall_type (Tflush a) = 108"
| "fcall_type (Rflush) = 109"
| "fcall_type (Twalk a b c) = 110"
| "fcall_type (Rwalk a) = 111"
| "fcall_type (Tread a b c) = 116"
| "fcall_type (Rread a) = 117"
| "fcall_type (Twrite a b c) = 118"
| "fcall_type (Rwrite a) = 119"
| "fcall_type (Tclunk a) = 120"
| "fcall_type (Rclunk) = 121"
| "fcall_type (Tremove a) = 122"
| "fcall_type (Rremove) = 123"

primrec encode_body :: "fcall \<Rightarrow> u8 list option" where
  "encode_body (Rlerror a) = encode u32_codec a"
| "encode_body (Tattach a b c d e) = encode (fields5 u32_codec u32_codec str_codec str_codec u32_codec) (a, b, c, d, e)"
| "encode_body (Rattach a) = encode qid_codec a"
| "encode_body (Tstatfs a) = encode u32_codec a"
| "encode_body (Rstatfs a) = encode statfs_codec a"
| "encode_body (Tlopen a b) = encode (fields2 u32_codec (flags_codec LOpenFlags u32_codec)) (a, b)"
| "encode_body (Rlopen a b) = encode (fields2 qid_codec u32_codec) (a, b)"
| "encode_body (Tlcreate a b c d e) = encode (fields5 u32_codec str_codec (flags_codec LOpenFlags u32_codec) u32_codec u32_codec) (a, b, c, d, e)"
| "encode_body (Rlcreate a b) = encode (fields2 qid_codec u32_codec) (a, b)"
| "encode_body (Tsymlink a b c d) = encode (fields4 u32_codec str_codec str_codec u32_codec) (a, b, c, d)"
| "encode_body (Rsymlink a) = encode qid_codec a"
| "encode_body (Tmknod a b c d e f) = encode (fields6 u32_codec str_codec u32_codec u32_codec u32_codec u32_codec) (a, b, c, d, e, f)"
| "encode_body (Rmknod a) = encode qid_codec a"
| "encode_body (Trename a b c) = encode (fields3 u32_codec u32_codec str_codec) (a, b, c)"
| "encode_body (Rrename) = encode unit_codec ()"
| "encode_body (Treadlink a) = encode u32_codec a"
| "encode_body (Rreadlink a) = encode str_codec a"
| "encode_body (Tgetattr a b) = encode (fields2 u32_codec (flags_codec GetattrMask u64_codec)) (a, b)"
| "encode_body (Rgetattr a b c) = encode (fields3 (flags_codec GetattrMask u64_codec) qid_codec stat_codec) (a, b, c)"
| "encode_body (Tsetattr a b c) = encode (fields3 u32_codec (flags_codec SetattrMask u32_codec) set_attr_codec) (a, b, c)"
| "encode_body (Rsetattr) = encode unit_codec ()"
| "encode_body (Txattrwalk a b c) = encode (fields3 u32_codec u32_codec str_codec) (a, b, c)"
| "encode_body (Rxattrwalk a) = encode u64_codec a"
| "encode_body (Txattrcreate a b c d) = encode (fields4 u32_codec str_codec u64_codec u32_codec) (a, b, c, d)"
| "encode_body (Rxattrcreate) = encode unit_codec ()"
| "encode_body (Treaddir a b c) = encode (fields3 u32_codec u64_codec u32_codec) (a, b, c)"
| "encode_body (Rreaddir a) = encode dir_entry_data_codec a"
| "encode_body (Tfsync a b) = encode (fields2 u32_codec u32_codec) (a, b)"
| "encode_body (Rfsync) = encode unit_codec ()"
| "encode_body (Tlock a b) = encode (fields2 u32_codec flock_codec) (a, b)"
| "encode_body (Rlock a) = encode (flags_codec LockStatus u8_codec) a"
| "encode_body (Tgetlock a b) = encode (fields2 u32_codec getlock_codec) (a, b)"
| "encode_body (Rgetlock a) = encode getlock_codec a"
| "encode_body (Tlink a b c) = encode (fields3 u32_codec u32_codec str_codec) (a, b, c)"
| "encode_body (Rlink) = encode unit_codec ()"
| "encode_body (Tmkdir a b c d) = encode (fields4 u32_codec str_codec u32_codec u32_codec) (a, b, c, d)"
| "encode_body (Rmkdir a) = encode qid_codec a"
| "encode_body (Trenameat a b c d) = encode (fields4 u32_codec str_codec u32_codec str_codec) (a, b, c, d)"
| "encode_body (Rrenameat) = encode unit_codec ()"
| "encode_body (Tunlinkat a b c) = encode (fields3 u32_codec str_codec u32_codec) (a, b, c)"
| "encode_body (Runlinkat) = encode unit_codec ()"
| "encode_body (Tauth a b c d) = encode (fields4 u32_codec str_codec str_codec u32_codec) (a, b, c, d)"
| "encode_body (Rauth a) = encode qid_codec a"
| "encode_body (Tversion a b) = encode (fields2 u32_codec str_codec) (a, b)"
| "encode_body (Rversion a b) = encode (fields2 u32_codec str_codec) (a, b)"
| "encode_body (Tflush a) = encode u16_codec a"
| "encode_body (Rflush) = encode unit_codec ()"
| "encode_body (Twalk a b c) = encode (fields3 u32_codec u32_codec vec_str_codec) (a, b, c)"
| "encode_body (Rwalk a) = encode vec_qid_codec a"
| "encode_body (Tread a b c) = encode (fields3 u32_codec u64_codec u32_codec) (a, b, c)"
| "encode_body (Rread a) = encode data_buf_codec a"
| "encode_body (Twrite a b c) = encode (fields3 u32_codec u64_codec data_buf_codec) (a, b, c)"
| "encode_body (Rwrite a) = encode u32_codec a"
| "encode_body (Tclunk a) = encode u32_codec a"
| "encode_body (Rclunk) = encode unit_codec ()"
| "encode_body (Tremove a) = encode u32_codec a"
| "encode_body (Rremove) = encode unit_codec ()"

definition decode_body :: "nat \<Rightarrow> fcall decoder" where
  "decode_body t =
     (if t = 7 then decode_as Rlerror u32_codec
     else if t = 104 then decode_as (\<lambda>(a, b, c, d, e). Tattach a b c d e) (fields5 u32_codec u32_codec str_codec str_codec u32_codec)
     else if t = 105 then decode_as Rattach qid_codec
     else if t = 8 then decode_as Tstatfs u32_codec
     else if t = 9 then decode_as Rstatfs statfs_codec
     else if t = 12 then decode_as (\<lambda>(a, b). Tlopen a b) (fields2 u32_codec (flags_codec LOpenFlags u32_codec))
     else if t = 13 then decode_as (\<lambda>(a, b). Rlopen a b) (fields2 qid_codec u32_codec)
     else if t = 14 then decode_as (\<lambda>(a, b, c, d, e). Tlcreate a b c d e) (fields5 u32_codec str_codec (flags_codec LOpenFlags u32_codec) u32_codec u32_codec)
     else if t = 15 then decode_as (\<lambda>(a, b). Rlcreate a b) (fields2 qid_codec u32_codec)
     else if t = 16 then decode_as (\<lambda>(a, b, c, d). Tsymlink a b c d) (fields4 u32_codec str_codec str_codec u32_codec)
     else if t = 17 then decode_as Rsymlink qid_codec
     else if t = 18 then decode_as (\<lambda>(a, b, c, d, e, f). Tmknod a b c d e f) (fields6 u32_codec str_codec u32_codec u32_codec u32_codec u32_codec)
     else if t = 19 then decode_as Rmknod qid_codec
     else if t = 20 then decode_as (\<lambda>(a, b, c). Trename a b c) (fields3 u32_codec u32_codec str_codec)
     else if t = 21 then decode_as (\<lambda>_. Rrename) unit_codec
     else if t = 22 then decode_as Treadlink u32_codec
     else if t = 23 then decode_as Rreadlink str_codec
     else if t = 24 then decode_as (\<lambda>(a, b). Tgetattr a b) (fields2 u32_codec (flags_codec GetattrMask u64_codec))
     else if t = 25 then decode_as (\<lambda>(a, b, c). Rgetattr a b c) (fields3 (flags_codec GetattrMask u64_codec) qid_codec stat_codec)
     else if t = 26 then decode_as (\<lambda>(a, b, c). Tsetattr a b c) (fields3 u32_codec (flags_codec SetattrMask u32_codec) set_attr_codec)
     else if t = 27 then decode_as (\<lambda>_. Rsetattr) unit_codec
     else if t = 30 then decode_as (\<lambda>(a, b, c). Txattrwalk a b c) (fields3 u32_codec u32_codec str_codec)
     else if t = 31 then decode_as Rxattrwalk u64_codec
     else if t = 32 then decode_as (\<lambda>(a, b, c, d). Txattrcreate a b c d) (fields4 u32_codec str_codec u64_codec u32_codec)
     else if t = 33 then decode_as (\<lambda>_. Rxattrcreate) unit_codec
     else if t = 40 then decode_as (\<lambda>(a, b, c). Treaddir a b c) (fields3 u32_codec u64_codec u32_codec)
     else if t = 41 then decode_as Rreaddir dir_entry_data_codec
     else if t = 50 then decode_as (\<lambda>(a, b). Tfsync a b) (fields2 u32_codec u32_codec)
     else if t = 51 then decode_as (\<lambda>_. Rfsync) unit_codec
     else if t = 52 then decode_as (\<lambda>(a, b). Tlock a b) (fields2 u32_codec flock_codec)
     else if t = 53 then decode_as Rlock (flags_codec LockStatus u8_codec)
     else if t = 54 then decode_as (\<lambda>(a, b). Tgetlock a b) (fields2 u32_codec getlock_codec)
     else if t = 55 then decode_as Rgetlock getlock_codec
     else if t = 70 then decode_as (\<lambda>(a, b, c). Tlink a b c) (fields3 u32_codec u32_codec str_codec)
     else if t = 71 then decode_as (\<lambda>_. Rlink) unit_codec
     else if t = 72 then decode_as (\<lambda>(a, b, c, d). Tmkdir a b c d) (fields4 u32_codec str_codec u32_codec u32_codec)
     else if t = 73 then decode_as Rmkdir qid_codec
     else if t = 74 then decode_as (\<lambda>(a, b, c, d). Trenameat a b c d) (fields4 u32_codec str_codec u32_codec str_codec)
     else if t = 75 then decode_as (\<lambda>_. Rrenameat) unit_codec
     else if t = 76 then decode_as (\<lambda>(a, b, c). Tunlinkat a b c) (fields3 u32_codec str_codec u32_codec)
     else if t = 77 then decode_as (\<lambda>_. Runlinkat) unit_codec
     else if t = 102 then decode_as (\<lambda>(a, b, c, d). Tauth a b c d) (fields4 u32_codec str_codec str_codec u32_codec)
     else if t = 103 then decode_as Rauth qid_codec
     else if t = 100 then decode_as (\<lambda>(a, b). Tversion a b) (fields2 u32_codec str_codec)
     else if t = 101 then decode_as (\<lambda>(a, b). Rversion a b) (fields2 u32_codec str_codec)
     else if t = 108 then decode_as Tflush u16_codec
     else if t = 109 then decode_as (\<lambda>_. Rflush) unit_codec
     else if t = 110 then decode_as (\<lambda>(a, b, c). Twalk a b c) (fields3 u32_codec u32_codec vec_str_codec)
     else if t = 111 then decode_as Rwalk vec_qid_codec
     else if t = 116 then decode_as (\<lambda>(a, b, c). Tread a b c) (fields3 u32_codec u64_codec u32_codec)
     else if t = 117 then decode_as Rread data_buf_codec
     else if t = 118 then decode_as (\<lambda>(a, b, c). Twrite a b c) (fields3 u32_codec u64_codec data_buf_codec)
     else if t = 119 then decode_as Rwrite u32_codec
     else if t = 120 then decode_as Tclunk u32_codec
     else if t = 121 then decode_as (\<lambda>_. Rclunk) unit_codec
     else if t = 122 then decode_as Tremove u32_codec
     else if t = 123 then decode_as (\<lambda>_. Rremove) unit_codec
      else (\<lambda>_. None))"

definition well_formed :: "fcall \<Rightarrow> bool" where
  "well_formed f =
     (case f of
        Tlopen _ b \<Rightarrow> b AND LOpenFlags = b
      | Tlcreate _ _ c _ _ \<Rightarrow> c AND LOpenFlags = c
      | Tgetattr _ b \<Rightarrow> b AND GetattrMask = b
      | Rgetattr a _ _ \<Rightarrow> a AND GetattrMask = a
      | Tsetattr _ b _ \<Rightarrow> b AND SetattrMask = b
      | Tlock _ b \<Rightarrow> flock_ok b
      | Rlock a \<Rightarrow> a AND LockStatus = a
      | Tgetlock _ b \<Rightarrow> getlock_ok b
      | Rgetlock a \<Rightarrow> getlock_ok a
      | Twalk _ _ c \<Rightarrow> length c \<le> MAXWELEM
      | Rwalk a \<Rightarrow> length a \<le> MAXWELEM
      | _ \<Rightarrow> True)"

section \<open>Framing\<close>

text \<open>A message behind its type and tag, and behind the size of the whole.\<close>

record tagged_fcall =
  tag :: u16
  fcall :: fcall

definition encode_fcall :: "u16 \<Rightarrow> fcall \<Rightarrow> u8 list option" where
  "encode_fcall t f = do {b \<leftarrow> encode_body f; Some (to_le 1 (fcall_type f) @ to_le 2 (unat t) @ b)}"

definition decode_message :: "tagged_fcall decoder" where
  "decode_message buf = do {
     (ty, buf) \<leftarrow> decode u8_codec buf;
     (t, buf) \<leftarrow> decode u16_codec buf;
     (f, buf) \<leftarrow> decode_body (unat ty) buf;
     Some (\<lparr>tag = t, fcall = f\<rparr>, buf)}"

definition encode_to_buf :: "tagged_fcall \<Rightarrow> u8 list option" where
  "encode_to_buf m = do {
     b \<leftarrow> encode_fcall (tag m) (fcall m);
     let size = 4 + length b;
     if size < 2 ^ 32 then Some (to_le 4 size @ b) else None}"

definition decode_buf :: "u8 list \<Rightarrow> tagged_fcall option" where
  "decode_buf buf =
     (if length buf < 7 then None
      else
        let sz = of_le (take 4 buf)
        in if sz \<noteq> length buf then None else map_option fst (decode_message (drop 4 buf)))"

section \<open>Messages keep the contract\<close>

lemma decode_encoded: "wire_codec c A \<Longrightarrow> encode c x = Some bs \<Longrightarrow> A x \<Longrightarrow> decode c (bs @ r) = Some (x, r)"
  by (rule wire_codec.decode_encode)

lemma decode_body_encode:
  assumes "well_formed f" and "encode_body f = Some bs"
  shows "decode_body (fcall_type f) (bs @ r) = Some (f, r)"
  using assms
  apply (cases f; simp add: decode_body_def decode_as_def well_formed_def del: One_nat_def)
  apply (subst decode_encoded, (rule wire)+, assumption, simp, simp)+
  done

text \<open>A decoder gives proper messages of one type, and they encode to as many bytes as it took.\<close>

definition reads :: "nat \<Rightarrow> fcall decoder \<Rightarrow> bool" where
  "reads t D = (\<forall>bs f r. D bs = Some (f, r) \<longrightarrow>
     fcall_type f = t \<and> well_formed f \<and> (\<exists>b. encode_body f = Some b \<and> length b + length r = length bs))"

lemma reads_as:
  assumes "wire_codec c A"
    and "\<And>x. A x \<Longrightarrow> fcall_type (C x) = t \<and> well_formed (C x) \<and> encode_body (C x) = encode c x"
  shows "reads t (decode_as C c)"
  unfolding reads_def
proof (intro allI impI)
  fix bs f r
  assume "decode_as C c bs = Some (f, r)"
  then obtain x where x: "decode c bs = Some (x, r)" "f = C x" unfolding decode_as_def by auto
  from wire_codec.encode_decode [OF assms(1) x(1)] assms(2) [of x] x(2)
  show "fcall_type f = t \<and> well_formed f \<and> (\<exists>b. encode_body f = Some b \<and> length b + length r = length bs)"
    by auto
qed

lemma reads_if: "(t = n \<Longrightarrow> reads t D) \<Longrightarrow> reads t E \<Longrightarrow> reads t (if t = n then D else E)"
  by simp

lemma reads_nothing: "reads t (\<lambda>_. None)"
  unfolding reads_def by simp

lemma reads_decode_body: "reads t (decode_body t)"
  unfolding decode_body_def
  apply (rule reads_if, rule reads_as, (rule wire)+, clarsimp simp: well_formed_def simp del: One_nat_def)+
  apply (rule reads_nothing)
  done

lemmas encode_decode_body = reads_decode_body [unfolded reads_def, rule_format]

lemma fcall_type_byte: "fcall_type f < 256"
  by (cases f) simp_all

lemma to_le_word: "8 * n = LENGTH('w) \<Longrightarrow> decode (le_codec n) (to_le n (unat (x :: 'w::len word)) @ r) = Some (x, r)"
  by (rule decode_encoded [OF le_wire]) (simp_all add: le_codec_def)

lemma decode_message_encode:
  assumes "well_formed (fcall m)" and "encode_fcall (tag m) (fcall m) = Some bs"
  shows "decode_message (bs @ r) = Some (m, r)"
proof -
  from assms(2) obtain b where b: "encode_body (fcall m) = Some b"
    "bs = to_le 1 (fcall_type (fcall m)) @ to_le 2 (unat (tag m)) @ b"
    unfolding encode_fcall_def by (auto split: Option.bind_splits)
  have ty: "unat (word_of_nat (fcall_type (fcall m)) :: u8) = fcall_type (fcall m)"
    using fcall_type_byte [of "fcall m"] by (simp add: unat_of_nat take_bit_eq_mod)
  have "decode u8_codec (to_le 1 (fcall_type (fcall m)) @ q) = Some (word_of_nat (fcall_type (fcall m)), q)" for q
    using to_le_word [of 1 "word_of_nat (fcall_type (fcall m)) :: u8" q] by (simp only: ty) simp
  moreover have "decode u16_codec (to_le 2 (unat (tag m)) @ q) = Some (tag m, q)" for q
    by (rule to_le_word) simp
  ultimately show ?thesis
    unfolding b(2) decode_message_def by (simp add: ty decode_body_encode [OF assms(1) b(1)] del: One_nat_def)
qed

lemma encode_decode_message:
  assumes "decode_message bs = Some (m, r)"
  shows "well_formed (fcall m) \<and> (\<exists>b. encode_fcall (tag m) (fcall m) = Some b \<and> length b + length r = length bs)"
proof -
  from assms obtain ty b1 t b2 f where
    ty: "decode u8_codec bs = Some (ty, b1)" and t: "decode u16_codec b1 = Some (t, b2)"
    and f: "decode_body (unat ty) b2 = Some (f, r)" and m: "m = \<lparr>tag = t, fcall = f\<rparr>"
    unfolding decode_message_def by (auto split: Option.bind_splits simp del: One_nat_def)
  from u8_wire.encode_decode [OF ty] have l1: "1 + length b1 = length bs" by (simp add: le_codec_def)
  from u16_wire.encode_decode [OF t] have l2: "2 + length b2 = length b1" by (simp add: le_codec_def)
  from encode_decode_body [OF f] l1 l2 show ?thesis unfolding m encode_fcall_def by auto
qed

lemma encode_to_buf_frame:
  assumes "well_formed (fcall m)" and "encode_to_buf m = Some buf"
  shows "decode_buf buf = Some m \<and> of_le (take 4 buf) = length buf \<and> 7 \<le> length buf"
proof -
  from assms(2) obtain b where b: "encode_fcall (tag m) (fcall m) = Some b"
    and lt: "4 + length b < 2 ^ 32" and buf: "buf = to_le 4 (4 + length b) @ b"
    unfolding encode_to_buf_def by (auto split: Option.bind_splits if_splits simp: Let_def)
  have sz: "of_le (take 4 buf) = length buf" using lt unfolding buf by (simp add: of_to_le)
  have "3 \<le> length b" using b unfolding encode_fcall_def by (auto split: Option.bind_splits)
  with sz decode_message_encode [OF assms(1) b, of "[]"] show ?thesis
    unfolding decode_buf_def buf by simp
qed

section \<open>Properties\<close>

text \<open>C4: A 9P message that \<open>encode_to_buf\<close> accepts is read back by \<open>decode\<close> as the same message with the same tag,
  and its first four bytes hold the length of the whole, for every one of the 57 message types; flags must be
  named ones and a walk at most 13 names.
\<close>

theorem ninep_round_trip:
  assumes "well_formed (fcall m)" and "encode_to_buf m = Some buf"
  shows "decode_buf buf = Some m \<and> of_le (take 4 buf) = length buf"
  using encode_to_buf_frame [OF assms] by blast

theorem ninep_round_trip_witness:
  "decode_buf [20, 0, 0, 0, 110, 1, 0, 1, 0, 0, 0, 2, 0, 0, 0, 1, 0, 1, 0, 97] = Some \<lparr>tag = 1, fcall = Twalk 1 2 [[97]]\<rparr>"
proof -
  have "encode_to_buf \<lparr>tag = 1, fcall = Twalk 1 2 [[97]]\<rparr> =
      Some [20, 0, 0, 0, 110, 1, 0, 1, 0, 0, 0, 2, 0, 0, 0, 1, 0, 1, 0, 97]"
    by code_simp
  moreover have "well_formed (fcall \<lparr>tag = 1, fcall = Twalk 1 2 [[97]]\<rparr>)" by code_simp
  ultimately show ?thesis using ninep_round_trip by blast
qed

text \<open>C35: Whatever bytes a server sends, what \<open>decode\<close> accepts is a proper message: its flags are named ones, it can be
  encoded again in no more bytes than were received, and that encoding is read as the same message.
\<close>

theorem ninep_decode_sound:
  assumes "decode_buf buf = Some m"
  shows "well_formed (fcall m) \<and> (\<exists>b. encode_to_buf m = Some b \<and> length b \<le> length buf \<and> decode_buf b = Some m)"
proof -
  from assms obtain r where len: "7 \<le> length buf" and sz: "of_le (take 4 buf) = length buf"
    and dec: "decode_message (drop 4 buf) = Some (m, r)"
    unfolding decode_buf_def by (auto split: if_splits simp: Let_def)
  have "of_le (take 4 buf) < 256 ^ length (take 4 buf)" by (rule of_le_bound)
  with len sz have lt: "length buf < 2 ^ 32" by (simp add: min_def split: if_splits)
  from encode_decode_message [OF dec] obtain b where wf: "well_formed (fcall m)"
    and b: "encode_fcall (tag m) (fcall m) = Some b" and le: "length b + length r = length buf - 4" by auto
  have "encode_to_buf m = Some (to_le 4 (4 + length b) @ b)"
    unfolding encode_to_buf_def using b lt le len by simp
  moreover have "3 \<le> length b" using b unfolding encode_fcall_def by (auto split: Option.bind_splits)
  moreover have "decode_message (b @ []) = Some (m, [])" by (rule decode_message_encode [OF wf b])
  moreover have "4 + length b < 256 ^ 4" using le lt len by simp
  ultimately show ?thesis using wf le len unfolding decode_buf_def by (simp add: of_to_le)
qed

theorem ninep_decode_sound_witness:
  "\<exists>b. encode_to_buf \<lparr>tag = 1, fcall = Rlerror 2\<rparr> = Some b \<and> length b \<le> 13 \<and> decode_buf b = Some \<lparr>tag = 1, fcall = Rlerror 2\<rparr>"
proof -
  have "decode_buf [13, 0, 0, 0, 7, 1, 0, 2, 0, 0, 0, 9, 9] = Some \<lparr>tag = 1, fcall = Rlerror 2\<rparr>" by code_simp
  from ninep_decode_sound [OF this] show ?thesis by (simp add: eval_nat_numeral)
qed

end
