(* ===== verification/NinePTransport.thy ===== *)
theory NinePTransport
  imports NinePFcall "HOL-Library.Sublist"
begin

text \<open>
  Messages over a connection, \<^verbatim>\<open>litebox/src/fs/nine_p/transport.rs\<close>. The connection is a parameter: a read fills
  a part of a buffer and says how much, a write takes a part of a buffer and says how much, and either may fail.
  The locale says what a writer promises that loses nothing; byte vectors and byte slices keep it.
\<close>

section \<open>Reading and writing\<close>

datatype nine_p_error = Io | InvalidResponse | InvalidPathname | Remote u32

text \<open>
  What a read leaves in the buffer starts with the given bytes, as far as the buffer reaches, and continues with what
  was there. \<open>None\<close> is an error of the transport.
\<close>

type_synonym 't reader = "'t \<Rightarrow> u8 list \<Rightarrow> (nat \<times> u8 list) option \<times> 't"

type_synonym 't writer = "'t \<Rightarrow> u8 list \<Rightarrow> nat option \<times> 't"

definition overwrite :: "u8 list \<Rightarrow> u8 list \<Rightarrow> u8 list" where
  "overwrite buf bs = take (length buf) bs @ drop (length bs) buf"

lemma length_overwrite [simp]: "length (overwrite buf bs) = length buf"
  by (simp add: overwrite_def)

text \<open>The buffer comes back whether the read succeeds or not.\<close>

function read_exact_loop :: "'t reader \<Rightarrow> nat \<Rightarrow> u8 list \<Rightarrow> 't \<Rightarrow> bool \<times> u8 list \<times> 't" where
  "read_exact_loop rd total_read buf t =
     (if total_read < length buf then
        case rd t (drop total_read buf) of
          (None, t) \<Rightarrow> (False, buf, t)
        | (Some (n, bs), t) \<Rightarrow>
            let buf = take total_read buf @ overwrite (drop total_read buf) bs in
            if n = 0 then (False, buf, t) else read_exact_loop rd (total_read + n) buf t
      else (True, buf, t))"
  by auto
termination
  by (relation "measure (\<lambda>(rd, total_read, buf, t). length buf - total_read)") auto

declare read_exact_loop.simps [simp del]

definition read_exact :: "'t reader \<Rightarrow> u8 list \<Rightarrow> 't \<Rightarrow> bool \<times> u8 list \<times> 't" where
  "read_exact rd buf t = read_exact_loop rd 0 buf t"

function write_all_loop :: "'t writer \<Rightarrow> nat \<Rightarrow> u8 list \<Rightarrow> 't \<Rightarrow> bool \<times> 't" where
  "write_all_loop wr total_written buf t =
     (if total_written < length buf then
        case wr t (drop total_written buf) of
          (None, t) \<Rightarrow> (False, t)
        | (Some n, t) \<Rightarrow> if n = 0 then (False, t) else write_all_loop wr (total_written + n) buf t
      else (True, t))"
  by auto
termination
  by (relation "measure (\<lambda>(wr, total_written, buf, t). length buf - total_written)") auto

declare write_all_loop.simps [simp del]

definition write_all :: "'t writer \<Rightarrow> u8 list \<Rightarrow> 't \<Rightarrow> bool \<times> 't" where
  "write_all wr buf t = write_all_loop wr 0 buf t"

definition write_message :: "'t writer \<Rightarrow> tagged_fcall \<Rightarrow> 't \<Rightarrow> bool \<times> 't" where
  "write_message wr m t = (case encode_to_buf m of None \<Rightarrow> (False, t) | Some buf \<Rightarrow> write_all wr buf t)"

text \<open>\<^verbatim>\<open>Vec::resize\<close> with zeros.\<close>

definition resize :: "nat \<Rightarrow> u8 list \<Rightarrow> u8 list" where
  "resize n buf = take n buf @ replicate (n - length buf) 0"

lemma length_resize [simp]: "length (resize n buf) = n"
  by (simp add: resize_def)

definition read_to_buf :: "'t reader \<Rightarrow> nat \<Rightarrow> u8 list \<Rightarrow> 't \<Rightarrow> (nine_p_error + unit) \<times> u8 list \<times> 't" where
  "read_to_buf rd max_size buf t =
     (case read_exact rd (resize 4 buf) t of
        (False, buf, t) \<Rightarrow> (Inl Io, buf, t)
      | (True, buf, t) \<Rightarrow>
          let sz = of_le (take 4 buf) in
          if sz < 7 then (Inl InvalidResponse, buf, t)
          else if sz > max_size then (Inl InvalidResponse, buf, t)
          else
            let buf = resize sz buf;
                (ok, rest, t) = read_exact rd (drop 4 buf) t
            in (if ok then Inr () else Inl Io, take 4 buf @ rest, t))"

definition read_message :: "'t reader \<Rightarrow> nat \<Rightarrow> u8 list \<Rightarrow> 't \<Rightarrow> (nine_p_error + tagged_fcall) \<times> u8 list \<times> 't" where
  "read_message rd max_size buf t =
     (case read_to_buf rd max_size buf t of
        (Inl e, buf, t) \<Rightarrow> (Inl e, buf, t)
      | (Inr _, buf, t) \<Rightarrow> (case decode_buf buf of None \<Rightarrow> Inl InvalidResponse | Some m \<Rightarrow> Inr m, buf, t))"

text \<open>
  The writers of the repository: a slice that shrinks as it is filled, here with what was put in front of it, and
  a vector that grows.
\<close>

definition slice_write :: "(u8 list \<times> u8 list) writer" where
  "slice_write = (\<lambda>(front, slice) buf.
     let amt = min (length slice) (length buf) in (Some amt, (front @ take amt buf, drop amt slice)))"

definition vec_write :: "u8 list writer" where
  "vec_write v buf = (Some (length buf), v @ buf)"

section \<open>Writers that lose nothing\<close>

locale lossless_writer =
  fixes wr :: "'t writer" and sent :: "'t \<Rightarrow> u8 list"
  assumes written: "wr t buf = (Some n, t') \<Longrightarrow> n \<le> length buf \<and> sent t' = sent t @ take n buf"
    and not_written: "wr t buf = (None, t') \<Longrightarrow> prefix (sent t) (sent t') \<and> prefix (sent t') (sent t @ buf)"
begin

lemma write_all_loop_sent:
  assumes "write_all_loop wr k buf t = (ok, t')" and "k \<le> length buf"
  shows "prefix (sent t') (sent t @ drop k buf) \<and> (ok \<longrightarrow> sent t' = sent t @ drop k buf)"
  using assms
proof (induction "length buf - k" arbitrary: k t rule: less_induct)
  case less
  show ?case
  proof (cases "k < length buf")
    case True
    obtain r u where w: "wr t (drop k buf) = (r, u)" by force
    show ?thesis
    proof (cases r)
      case None
      then show ?thesis using less.prems True w not_written [of t "drop k buf" u]
        by (simp add: write_all_loop.simps [of wr k])
    next
      case (Some n)
      with w written [of t "drop k buf" n u] have n: "k + n \<le> length buf" "sent u = sent t @ take n (drop k buf)"
        using True by auto
      have split: "sent t @ drop k buf = sent u @ drop (k + n) buf"
        using n(2) append_take_drop_id [of n "drop k buf"] by (simp add: add.commute)
      show ?thesis
      proof (cases "n = 0")
        case True
        then show ?thesis using less.prems w Some \<open>k < length buf\<close> n(2) by (simp add: write_all_loop.simps [of wr k])
      next
        case False
        with less.prems w Some \<open>k < length buf\<close> have "write_all_loop wr (k + n) buf u = (ok, t')"
          by (simp add: write_all_loop.simps [of wr k])
        from less.hyps [OF _ this n(1)] False True show ?thesis unfolding split by linarith
      qed
    qed
  next
    case False
    then show ?thesis using less.prems by (simp add: write_all_loop.simps [of wr "length buf"])
  qed
qed

lemma write_all_sent: "write_all wr buf t = (True, t') \<Longrightarrow> sent t' = sent t @ buf"
  using write_all_loop_sent [of 0 buf t True t'] by (simp add: write_all_def)

lemma write_message_sent:
  "write_message wr m t = (True, t') \<Longrightarrow> \<exists>b. encode_to_buf m = Some b \<and> sent t' = sent t @ b"
  using write_all_sent by (auto simp: write_message_def split: option.splits)

end

interpretation vec: lossless_writer vec_write "\<lambda>v. v"
  by unfold_locales (auto simp: vec_write_def)

interpretation slice: lossless_writer slice_write fst
  by unfold_locales (auto simp: slice_write_def Let_def)

text \<open>A vector takes everything, so encoding into one appends the bytes.\<close>

lemma vec_write_all: "write_all vec_write buf v = (True, v @ buf)"
proof (cases "buf = []")
  case False
  then show ?thesis
    by (simp add: write_all_def vec_write_def write_all_loop.simps [of vec_write 0] write_all_loop.simps [of vec_write "length buf"])
qed (simp add: write_all_def write_all_loop.simps)

section \<open>Readers of a stream\<close>

text \<open>
  A connection that delivers pending bytes in order, in pieces of any size as long as they are not empty, and fails only
  when nothing is pending.
\<close>

definition stream_reader :: "'t reader \<Rightarrow> ('t \<Rightarrow> u8 list) \<Rightarrow> bool" where
  "stream_reader rd pending \<longleftrightarrow>
     (\<forall>t buf. buf \<noteq> [] \<longrightarrow>
        (case rd t buf of
           (None, t') \<Rightarrow> pending t = [] \<and> pending t' = []
         | (Some (n, bs), t') \<Rightarrow>
             n = length bs \<and> n \<le> length buf \<and> pending t = bs @ pending t' \<and> (pending t \<noteq> [] \<longrightarrow> bs \<noteq> [])))"

lemma read_exact_loop_stream:
  assumes sr: "stream_reader rd pending" and "k \<le> length buf"
  shows "\<exists>bs ok t'. read_exact_loop rd k buf t = (ok, take k buf @ overwrite (drop k buf) bs, t') \<and>
    pending t = bs @ pending t' \<and> length bs \<le> length buf - k \<and>
    (if ok then length bs = length buf - k else pending t' = [] \<and> length bs < length buf - k)"
  using assms(2)
proof (induction "length buf - k" arbitrary: k buf t rule: less_induct)
  case less
  show ?case
  proof (cases "k < length buf")
    case True
    obtain r u where r: "rd t (drop k buf) = (r, u)" by force
    have "case r of None \<Rightarrow> pending t = [] \<and> pending u = []
        | Some (n, bs) \<Rightarrow> n = length bs \<and> n \<le> length buf - k \<and> pending t = bs @ pending u \<and> (pending t \<noteq> [] \<longrightarrow> bs \<noteq> [])"
      using sr [unfolded stream_reader_def, rule_format, of "drop k buf" t] r True by (auto split: option.splits)
    note spec = this
    show ?thesis
    proof (cases r)
      case None
      with spec r True show ?thesis
        by (intro exI [of _ "[]"] exI [of _ False]) (simp add: read_exact_loop.simps [of rd k] overwrite_def)
    next
      case (Some nb)
      obtain n bs where nb: "nb = (n, bs)" by force
      from spec Some nb have n: "n = length bs" "length bs \<le> length buf - k" "pending t = bs @ pending u" "pending t \<noteq> [] \<Longrightarrow> bs \<noteq> []"
        by auto
      let ?b = "take k buf @ overwrite (drop k buf) bs"
      show ?thesis
      proof (cases "bs = []")
        case True
        with n \<open>k < length buf\<close> r Some nb show ?thesis
          by (intro exI [of _ "[]"]) (auto simp: read_exact_loop.simps [of rd k] overwrite_def)
      next
        case False
        have step: "read_exact_loop rd k buf t = read_exact_loop rd (k + n) ?b u"
          using r Some nb n False \<open>k < length buf\<close> by (simp add: read_exact_loop.simps [of rd k])
        have l: "length ?b = length buf" using \<open>k < length buf\<close> by simp
        have "0 < n" using n(1) False by simp
        then have "length ?b - (k + n) < length buf - k" and le: "k + n \<le> length ?b"
          using l n(1,2) \<open>k < length buf\<close> by linarith+
        from less.hyps [OF this, of u] obtain cs ok t' where ih:
          "read_exact_loop rd (k + n) ?b u = (ok, take (k + n) ?b @ overwrite (drop (k + n) ?b) cs, t')"
          "pending u = cs @ pending t'" "length cs \<le> length ?b - (k + n)"
          "if ok then length cs = length ?b - (k + n) else pending t' = [] \<and> length cs < length ?b - (k + n)"
          by blast
        have "take (k + n) ?b @ overwrite (drop (k + n) ?b) cs = take k buf @ overwrite (drop k buf) (bs @ cs)"
          using n(1,2) \<open>k < length buf\<close> ih(3) l by (simp add: overwrite_def ac_simps min_def)
        with step ih(1) have "read_exact_loop rd k buf t = (ok, take k buf @ overwrite (drop k buf) (bs @ cs), t')" by (simp only:)
        moreover have "pending t = (bs @ cs) @ pending t'" using n(3) ih(2) by simp
        moreover have "length (bs @ cs) \<le> length buf - k" using ih(3) [unfolded l] n(1) le [unfolded l] by simp
        moreover have "if ok then length (bs @ cs) = length buf - k else pending t' = [] \<and> length (bs @ cs) < length buf - k"
          using ih(4) [unfolded l] n(1) le [unfolded l] by (cases ok) auto
        ultimately show ?thesis by blast
      qed
    qed
  next
    case False
    with less.prems show ?thesis
      by (intro exI [of _ "[]"] exI [of _ True] exI [of _ t]) (simp add: read_exact_loop.simps [of rd "length buf"] overwrite_def)
  qed
qed

lemma read_exact_stream:
  assumes "stream_reader rd pending"
  obtains bs ok buf' t' where "read_exact rd buf t = (ok, buf', t')" "pending t = bs @ pending t'" "length buf' = length buf"
    "if ok then length bs = length buf \<and> buf' = bs else pending t' = [] \<and> length bs < length buf"
proof -
  obtain bs ok t' where *: "read_exact_loop rd 0 buf t = (ok, overwrite buf bs, t')"
    "pending t = bs @ pending t'" "if ok then length bs = length buf else pending t' = [] \<and> length bs < length buf"
    using read_exact_loop_stream [OF assms le0, of buf t] unfolding take_0 drop_0 append_Nil diff_zero by blast
  have "overwrite buf bs = bs" if "length bs = length buf" using that by (simp add: overwrite_def)
  with * that show thesis unfolding read_exact_def by (metis length_overwrite)
qed

text \<open>A message at the front of what is pending is read, and what follows it stays.\<close>

lemma read_message_stream:
  assumes sr: "stream_reader rd pending" and wf: "well_formed (fcall m)" and enc: "encode_to_buf m = Some b"
    and max: "length b \<le> max_size" and pend: "pending t = b @ rest"
  shows "\<exists>buf' t'. read_message rd max_size buf t = (Inr m, buf', t') \<and> pending t' = rest"
proof -
  from encode_to_buf_frame [OF wf enc] have dec: "decode_buf b = Some m" and sz: "of_le (take 4 b) = length b" and len: "7 \<le> length b"
    by auto
  obtain b1 ok1 buf1 t1 where r1: "read_exact rd (resize 4 buf) t = (ok1, buf1, t1)" "pending t = b1 @ pending t1"
    "if ok1 then length b1 = length (resize 4 buf) \<and> buf1 = b1 else pending t1 = [] \<and> length b1 < length (resize 4 buf)"
    by (rule read_exact_stream [OF sr])
  then have "ok1" using len pend by (cases ok1) auto
  with r1 have b1: "length b1 = 4" "buf1 = b1" by auto
  then have h: "b1 = take 4 b" "pending t1 = drop 4 b @ rest"
    using r1(2) pend len by (auto simp: append_eq_append_conv_if)
  have rs: "resize (length b) b1 = b1 @ replicate (length b - 4) 0" using b1 len by (simp add: resize_def)
  obtain b2 ok2 buf2 t2 where r2: "read_exact rd (replicate (length b - 4) 0) t1 = (ok2, buf2, t2)" "pending t1 = b2 @ pending t2"
    "if ok2 then length b2 = length b - 4 \<and> buf2 = b2 else pending t2 = [] \<and> length b2 < length b - 4"
    by (rule read_exact_stream [OF sr, of "replicate (length b - 4) 0" t1, unfolded length_replicate])
  then have "ok2" using h by (cases ok2) auto
  with r2 h have "buf2 = drop 4 b" "pending t2 = rest" by (auto simp: append_eq_append_conv_if split: if_splits)
  moreover have "b1 @ drop 4 b = b" unfolding h(1) by simp
  ultimately show ?thesis using r1(1) r2(1) \<open>ok1\<close> \<open>ok2\<close> b1 sz h(1) len max rs dec
    by (simp add: read_message_def read_to_buf_def)
qed

section \<open>Properties\<close>

text \<open>A sequence of messages written, and as many read.\<close>

fun write_messages :: "'t writer \<Rightarrow> tagged_fcall list \<Rightarrow> 't \<Rightarrow> bool \<times> 't" where
  "write_messages wr [] t = (True, t)"
| "write_messages wr (m # ms) t =
     (case write_message wr m t of (False, t) \<Rightarrow> (False, t) | (True, t) \<Rightarrow> write_messages wr ms t)"

primrec read_messages :: "'t reader \<Rightarrow> nat \<Rightarrow> nat \<Rightarrow> u8 list \<Rightarrow> 't \<Rightarrow> (nine_p_error + tagged_fcall) list \<times> 't" where
  "read_messages rd max_size 0 buf t = ([], t)"
| "read_messages rd max_size (Suc n) buf t =
     (let (r, buf, t) = read_message rd max_size buf t; (rs, t) = read_messages rd max_size n buf t in (r # rs, t))"

lemma write_messages_sent:
  assumes lw: "lossless_writer wr sent" and "write_messages wr ms t = (True, t')"
  shows "\<exists>bs. sent t' = sent t @ concat bs \<and> list_all2 (\<lambda>m b. encode_to_buf m = Some b) ms bs"
  using assms(2)
proof (induction ms arbitrary: t)
  case (Cons m ms)
  then obtain u where u: "write_message wr m t = (True, u)" "write_messages wr ms u = (True, t')"
    by (auto split: prod.splits bool.splits)
  from lossless_writer.write_message_sent [OF lw u(1)] Cons.IH [OF u(2)]
  obtain b bs where "encode_to_buf m = Some b" "sent u = sent t @ b" "sent t' = sent u @ concat bs"
    "list_all2 (\<lambda>m b. encode_to_buf m = Some b) ms bs" by blast
  then show ?case by (intro exI [of _ "b # bs"]) simp
qed auto

lemma read_messages_stream:
  assumes sr: "stream_reader rd pending" and "list_all2 (\<lambda>m b. encode_to_buf m = Some b) ms bs"
    and "\<forall>m \<in> set ms. well_formed (fcall m)" and "\<forall>b \<in> set bs. length b \<le> max_size" and "pending t = concat bs @ rest"
  shows "\<exists>t'. read_messages rd max_size (length ms) buf t = (map Inr ms, t') \<and> pending t' = rest"
  using assms(2-)
proof (induction ms bs arbitrary: t buf rule: list_all2_induct)
  case (Cons m ms b bs)
  from Cons obtain buf' u where u: "read_message rd max_size buf t = (Inr m, buf', u)" "pending u = concat bs @ rest"
    using read_message_stream [OF sr, of m b max_size t "concat bs @ rest" buf] by auto
  with Cons.IH [of u buf'] Cons.prems show ?case by auto
qed simp

text \<open>C37: Messages written to a connection that loses nothing are read from one that delivers its bytes in order as the same
  messages in the same order, in whatever pieces the two sides take and deliver them, and no byte is left over or missing.\<close>

theorem ninep_stream_round_trip:
  assumes "lossless_writer wr sent" and "stream_reader rd pending"
    and "\<forall>m \<in> set ms. well_formed (fcall m)" and "\<forall>m \<in> set ms. \<forall>b. encode_to_buf m = Some b \<longrightarrow> length b \<le> max_size"
    and "write_messages wr ms t = (True, t')" and "sent t' = sent t @ pending u"
  shows "\<exists>u'. read_messages rd max_size (length ms) buf u = (map Inr ms, u') \<and> pending u' = []"
proof -
  from write_messages_sent [OF assms(1,5)] assms(6) obtain bs where
    bs: "pending u = concat bs @ []" "list_all2 (\<lambda>m b. encode_to_buf m = Some b) ms bs" by auto
  from bs(2) assms(4) have "\<forall>b \<in> set bs. length b \<le> max_size"
    by (induction rule: list_all2_induct) auto
  from read_messages_stream [OF assms(2) bs(2) assms(3) this bs(1)] show ?thesis .
qed

text \<open>One byte at a time.\<close>

definition byte_reader :: "u8 list reader" where
  "byte_reader t buf = (case t of [] \<Rightarrow> (None, t) | b # bs \<Rightarrow> (Some (1, [b]), bs))"

lemma byte_reader_stream: "stream_reader byte_reader (\<lambda>t. t)"
  by (auto simp: stream_reader_def byte_reader_def Suc_le_eq split: list.splits)

theorem ninep_stream_round_trip_witness:
  "\<exists>u'. read_messages byte_reader 64 2 [] [11, 0, 0, 0, 120, 1, 0, 5, 0, 0, 0, 7, 0, 0, 0, 121, 1, 0] =
    (map Inr [\<lparr>tag = 1, fcall = Tclunk 5\<rparr>, \<lparr>tag = 1, fcall = Rclunk\<rparr>], u') \<and> u' = []"
proof -
  let ?ms = "[\<lparr>tag = 1, fcall = Tclunk 5\<rparr>, \<lparr>tag = 1, fcall = Rclunk\<rparr>]"
  have e: "encode_to_buf \<lparr>tag = 1, fcall = Tclunk 5\<rparr> = Some [11, 0, 0, 0, 120, 1, 0, 5, 0, 0, 0]"
    "encode_to_buf \<lparr>tag = 1, fcall = Rclunk\<rparr> = Some [7, 0, 0, 0, 121, 1, 0]"
    by code_simp+
  have "write_messages vec_write ?ms [] = (True, [11, 0, 0, 0, 120, 1, 0, 5, 0, 0, 0, 7, 0, 0, 0, 121, 1, 0])"
    by (simp add: write_message_def e vec_write_all)
  moreover have "\<forall>m \<in> set ?ms. well_formed (fcall m)" by (simp add: well_formed_def)
  moreover have "\<forall>m \<in> set ?ms. \<forall>b. encode_to_buf m = Some b \<longrightarrow> length b \<le> 64" by (simp add: e)
  ultimately have "\<exists>u'. read_messages byte_reader 64 (length ?ms) [] [11, 0, 0, 0, 120, 1, 0, 5, 0, 0, 0, 7, 0, 0, 0, 121, 1, 0] =
      (map Inr ?ms, u') \<and> u' = []"
    by (intro ninep_stream_round_trip [OF vec.lossless_writer_axioms byte_reader_stream]) (assumption, assumption, assumption, simp)
  moreover have "length ?ms = 2" by simp
  ultimately show ?thesis by (simp only:)
qed

end
