(* ===== verification/Calls.thy ===== *)
theory Calls
  imports Prelude
begin

text \<open>
  Calls that change a state and may fail, panic or never return, put together the way Rust does it: \<open>andthen\<close> is the
  operator \<^verbatim>\<open>?\<close>, \<open>attempt\<close> looks at the result of a call, error or not, before it goes on. \<open>triple\<close> says
  what a call does that returns and that it does not panic; \<open>total\<close> says that it returns.
\<close>

section \<open>Calls\<close>

text \<open>\<open>None\<close> is a call that never returns.\<close>

type_synonym ('s, 'e, 'a) call = "'s \<Rightarrow> (('e + 'a) \<times> 's) outcome option"

definition ret :: "'a \<Rightarrow> ('s, 'e, 'a) call" where
  "ret x s = Some (Done (Inr x, s))"

definition fail :: "'e \<Rightarrow> ('s, 'e, 'a) call" where
  "fail e s = Some (Done (Inl e, s))"

definition panics :: "('s, 'e, 'a) call" where
  "panics s = Some Panic"

definition attempt :: "('s, 'e, 'a) call \<Rightarrow> ('e + 'a \<Rightarrow> ('s, 'f, 'b) call) \<Rightarrow> ('s, 'f, 'b) call" where
  "attempt m f s = (case m s of None \<Rightarrow> None | Some Panic \<Rightarrow> Some Panic | Some (Done (r, s')) \<Rightarrow> f r s')"

definition andthen :: "('s, 'e, 'a) call \<Rightarrow> ('a \<Rightarrow> ('s, 'e, 'b) call) \<Rightarrow> ('s, 'e, 'b) call" where
  "andthen m f = attempt m (\<lambda>r. case r of Inl e \<Rightarrow> fail e | Inr x \<Rightarrow> f x)"

text \<open>\<^verbatim>\<open>map_err\<close>, and the conversion of an error by \<^verbatim>\<open>?\<close>.\<close>

definition map_err :: "('e \<Rightarrow> 'f) \<Rightarrow> ('s, 'e, 'a) call \<Rightarrow> ('s, 'f, 'a) call" where
  "map_err g m = attempt m (\<lambda>r. case r of Inl e \<Rightarrow> fail (g e) | Inr x \<Rightarrow> ret x)"

definition of_result :: "'e + 'a \<Rightarrow> ('s, 'e, 'a) call" where
  "of_result r s = Some (Done (r, s))"

text \<open>A look at the state, and a change of it.\<close>

definition look :: "('s \<Rightarrow> ('s, 'e, 'a) call) \<Rightarrow> ('s, 'e, 'a) call" where
  "look f s = f s s"

definition modify :: "('s \<Rightarrow> 's) \<Rightarrow> ('s, 'e, unit) call" where
  "modify f s = Some (Done (Inr (), f s))"

text \<open>A step that may panic and cannot fail otherwise.\<close>

definition step :: "('s \<Rightarrow> ('a \<times> 's) outcome) \<Rightarrow> ('s, 'e, 'a) call" where
  "step f s = (case f s of Panic \<Rightarrow> Some Panic | Done (x, s') \<Rightarrow> Some (Done (Inr x, s')))"

lemma attempt_cong [fundef_cong]:
  assumes "m s = m' s'" and "\<And>r u. m' s' = Some (Done (r, u)) \<Longrightarrow> f r u = f' r u" and "s = s'"
  shows "attempt m f s = attempt m' f' s'"
  using assms by (auto simp: attempt_def split: option.split outcome.split)

lemma call_simps [simp]:
  "attempt (ret x) f = f (Inr x)" "attempt (fail e) f = f (Inl e)"
  "andthen (ret x) g = g x" "andthen (fail e) g = fail e"
  by (auto simp: attempt_def andthen_def ret_def fail_def)

section \<open>What calls do\<close>

definition triple :: "('s \<Rightarrow> bool) \<Rightarrow> ('s, 'e, 'a) call \<Rightarrow> ('e + 'a \<Rightarrow> 's \<Rightarrow> bool) \<Rightarrow> bool" where
  "triple P m Q \<longleftrightarrow> (\<forall>s. P s \<longrightarrow> (case m s of None \<Rightarrow> True | Some Panic \<Rightarrow> False | Some (Done (r, s')) \<Rightarrow> Q r s'))"

lemma tripleI:
  assumes "\<And>s. P s \<Longrightarrow> m s \<noteq> Some Panic" and "\<And>s r s'. P s \<Longrightarrow> m s = Some (Done (r, s')) \<Longrightarrow> Q r s'"
  shows "triple P m Q"
  using assms by (auto simp: triple_def split: option.split outcome.split)

lemma tripleD:
  assumes "triple P m Q" and "P s"
  shows "m s \<noteq> Some Panic" and "m s = Some (Done (r, s')) \<Longrightarrow> Q r s'"
  using assms by (auto simp: triple_def split: option.splits outcome.splits)

lemma triple_weaken: "triple P' m Q' \<Longrightarrow> (\<And>s. P s \<Longrightarrow> P' s) \<Longrightarrow> (\<And>r s. Q' r s \<Longrightarrow> Q r s) \<Longrightarrow> triple P m Q"
  by (fastforce simp: triple_def split: option.splits outcome.splits)

lemma triple_ret: "(\<And>s. P s \<Longrightarrow> Q (Inr x) s) \<Longrightarrow> triple P (ret x) Q"
  by (simp add: triple_def ret_def)

lemma triple_fail: "(\<And>s. P s \<Longrightarrow> Q (Inl e) s) \<Longrightarrow> triple P (fail e) Q"
  by (simp add: triple_def fail_def)

lemma triple_attempt:
  assumes "triple P m R" and "\<And>r. triple (R r) (f r) Q"
  shows "triple P (attempt m f) Q"
  using assms by (fastforce simp: triple_def attempt_def split: option.splits outcome.splits)

lemma triple_andthen:
  assumes "triple P m R" and "\<And>x. triple (R (Inr x)) (f x) Q" and "\<And>e s. R (Inl e) s \<Longrightarrow> Q (Inl e) s"
  shows "triple P (andthen m f) Q"
  unfolding andthen_def
  by (rule triple_attempt [OF assms(1)]) (auto split: sum.split intro: triple_fail assms)

lemma triple_map_err:
  assumes "triple P m R" and "\<And>e s. R (Inl e) s \<Longrightarrow> Q (Inl (g e)) s" and "\<And>x s. R (Inr x) s \<Longrightarrow> Q (Inr x) s"
  shows "triple P (map_err g m) Q"
  unfolding map_err_def
  by (rule triple_attempt [OF assms(1)]) (auto split: sum.split intro: triple_fail triple_ret assms)

lemma triple_look: "(\<And>s. P s \<Longrightarrow> triple (\<lambda>s'. s' = s) (f s) Q) \<Longrightarrow> triple P (look f) Q"
  by (auto simp: triple_def look_def)

lemma triple_look_keep: "(\<And>s. P s \<Longrightarrow> triple P (f s) Q) \<Longrightarrow> triple P (look f) Q"
  by (auto simp: triple_def look_def)

lemma triple_modify: "(\<And>s. P s \<Longrightarrow> Q (Inr ()) (f s)) \<Longrightarrow> triple P (modify f) Q"
  by (simp add: triple_def modify_def)

lemma triple_of_result: "(\<And>s. P s \<Longrightarrow> Q r s) \<Longrightarrow> triple P (of_result r) Q"
  by (simp add: triple_def of_result_def)

lemma triple_step: "(\<And>s. P s \<Longrightarrow> \<exists>x s'. f s = Done (x, s') \<and> Q (Inr x) s') \<Longrightarrow> triple P (step f) Q"
  by (fastforce simp: triple_def step_def split: outcome.split)

text \<open>The value of anything in the state before the call may be named.\<close>

lemma triple_fix: "(\<And>x. triple (\<lambda>s. P s \<and> g s = x) m Q) \<Longrightarrow> triple P m Q"
  by (fastforce simp: triple_def)

lemma triple_false: "triple (\<lambda>_. False) m Q"
  by (simp add: triple_def)

lemma triple_pure: "(A \<Longrightarrow> triple P m Q) \<Longrightarrow> triple (\<lambda>s. A \<and> P s) m Q"
  by (auto simp: triple_def)

text \<open>What is known of the result, whatever the state.\<close>

definition results :: "('s, 'e, 'a) call \<Rightarrow> ('e + 'a \<Rightarrow> bool) \<Rightarrow> bool" where
  "results m P \<longleftrightarrow> (\<forall>s r s'. m s = Some (Done (r, s')) \<longrightarrow> P r)"

lemma resultsD: "results m P \<Longrightarrow> m s = Some (Done (r, s')) \<Longrightarrow> P r"
  by (auto simp: results_def)

lemma results_simple:
  "P (Inr x) \<Longrightarrow> results (ret x) P" "P (Inl e) \<Longrightarrow> results (fail e) P" "results panics P" "P r \<Longrightarrow> results (of_result r) P"
  by (simp_all add: results_def ret_def fail_def panics_def of_result_def)

lemma results_True: "results m (\<lambda>_. True)"
  by (simp add: results_def)

lemma results_attempt: "results m P \<Longrightarrow> (\<And>r. P r \<Longrightarrow> results (f r) Q) \<Longrightarrow> results (attempt m f) Q"
  by (fastforce simp: results_def attempt_def split: option.splits outcome.splits)

lemma results_andthen:
  assumes "results m P" and "\<And>x. P (Inr x) \<Longrightarrow> results (f x) Q" and "\<And>e. P (Inl e) \<Longrightarrow> Q (Inl e)"
  shows "results (andthen m f) Q"
  unfolding andthen_def
  by (rule results_attempt [OF assms(1)]) (auto split: sum.split intro: results_simple assms)

section \<open>Calls that return\<close>

definition total :: "('s, 'e, 'a) call \<Rightarrow> bool" where
  "total m \<longleftrightarrow> (\<forall>s. m s \<noteq> None)"

named_theorems returning

lemma total_calls [returning, intro]:
  "total (ret x)" "total (fail e)" "total panics" "total (of_result r)" "total (modify h)" "total (step k)"
  by (simp_all add: total_def ret_def fail_def panics_def of_result_def modify_def step_def split: outcome.split)

lemma total_attempt [returning, intro]: "total m \<Longrightarrow> (\<And>r. total (f r)) \<Longrightarrow> total (attempt m f)"
  by (auto simp: total_def attempt_def split: option.split outcome.split)

lemma total_andthen [returning, intro]: "total m \<Longrightarrow> (\<And>x. total (f x)) \<Longrightarrow> total (andthen m f)"
  unfolding andthen_def by (rule total_attempt) (auto split: sum.split)

lemma total_map_err [returning, intro]: "total m \<Longrightarrow> total (map_err g m)"
  unfolding map_err_def by (rule total_attempt) (auto split: sum.split)

lemma total_look [returning, intro]: "(\<And>s. total (f s)) \<Longrightarrow> total (look f)"
  by (auto simp: total_def look_def)

end
