(* ===== verification/NinePClient.thy ===== *)
theory NinePClient
  imports NinePTransport Calls IdPool
begin

text \<open>
  The 9P client of \<^verbatim>\<open>litebox/src/fs/nine_p/client.rs\<close>: version negotiation, requests matched with responses by
  their tag, fids taken from the bitmap allocator and given back when their last handle goes, and one
  operation per request. The connection is a parameter. A fid handle (an \<open>Arc\<close>) is the number of the fid with a count
  of its handles in the client; \<open>exchanges\<close> records what was sent and what came back, for the lemmas on what
  the server may still hold.
\<close>

section \<open>The client\<close>

definition NOTAG :: u16 where "NOTAG = 0xffff"

definition NOFID :: u32 where "NOFID = 0xffffffff"

definition NONUNAME :: u32 where "NONUNAME = 0xffffffff"

definition IOHDRSZ :: nat where "IOHDRSZ = 24"

definition READDIRHDRSZ :: nat where "READDIRHDRSZ = 24"

definition MAX_READDIR_ENTRIES :: nat where "MAX_READDIR_ENTRIES = 1000000"

definition ENOENT_9P :: u32 where "ENOENT_9P = 2"

text \<open>The bytes of the string \<^verbatim>\<open>9P2000.L\<close>.\<close>

definition version_9p :: "u8 list" where "version_9p = [57, 80, 50, 48, 48, 48, 46, 76]"

record 't connection =
  rd :: "'t reader"
  wr :: "'t writer"
  debug :: bool

record 't client =
  msize :: u32
  transport :: 't
  rbuf :: "u8 list"
  fids :: id_pool
  handles :: "nat \<Rightarrow> nat"
  tag_counter :: u16
  transport_failed :: bool
  exchanges :: "(fcall \<times> fcall option) list"

type_synonym ('t, 'a) client_call = "('t client, nine_p_error, 'a) call"

definition client_new :: "'t connection \<Rightarrow> u32 \<Rightarrow> 't \<Rightarrow> (nine_p_error + 't client) outcome" where
  "client_new k max_msize t =
     (let bufsize = max max_msize (4096 + word_of_nat READDIRHDRSZ) in
      case write_message (wr k) \<lparr>tag = NOTAG, fcall = Tversion bufsize version_9p\<rparr> t of
        (False, _) \<Rightarrow> Done (Inl Io)
      | (True, t) \<Rightarrow>
          (case read_message (rd k) (unat bufsize) [] t of
             (Inl e, _, _) \<Rightarrow> Done (Inl e)
           | (Inr response, buf, t) \<Rightarrow>
               (case fcall response of
                  Rlerror e \<Rightarrow> Done (Inl (Remote e))
                | Rversion sz version \<Rightarrow>
                    if tag response \<noteq> NOTAG then Done (Inl InvalidResponse)
                    else if version \<noteq> version_9p then Done (Inl InvalidResponse)
                    else
                      obind new_pool (\<lambda>p.
                        Done (Inr \<lparr>msize = min sz bufsize, transport = t, rbuf = take (unat (min sz bufsize)) buf, fids = p,
                          handles = (\<lambda>_. 0), tag_counter = 1, transport_failed = False, exchanges = []\<rparr>))
                | _ \<Rightarrow> Done (Inl InvalidResponse))))"

section \<open>Fids\<close>

definition allocate_fid :: "'t connection \<Rightarrow> ('t, nat) client_call" where
  "allocate_fid k c =
     (case allocate (debug k) (fids c) of
        Panic \<Rightarrow> Some Panic
      | Done (None, p) \<Rightarrow> Some (Done (Inl Io, c\<lparr>fids := p\<rparr>))
      | Done (Some i, p) \<Rightarrow> Some (Done (Inr i, c\<lparr>fids := p, handles := (handles c)(i := 1)\<rparr>)))"

text \<open>Another handle of the same fid, and the end of one; the last one gives the number back.\<close>

definition clone_handle :: "nat \<Rightarrow> 't client \<Rightarrow> 't client" where
  "clone_handle i c = c\<lparr>handles := (handles c)(i := handles c i + 1)\<rparr>"

definition drop_fid :: "'t connection \<Rightarrow> nat \<Rightarrow> ('t, unit) client_call" where
  "drop_fid k i = step (\<lambda>c.
     let c = c\<lparr>handles := (handles c)(i := handles c i - 1)\<rparr> in
     if handles c i = 0 then obind (recycle (debug k) i (fids c)) (\<lambda>p. Done ((), c\<lparr>fids := p\<rparr>))
     else Done ((), c))"

section \<open>Requests and responses\<close>

definition next_tag :: "bool \<Rightarrow> 't client \<Rightarrow> (u16 \<times> 't client) outcome" where
  "next_tag dbg c =
     (let current = tag_counter c in
      assert_that (dbg \<longrightarrow> current \<noteq> NOTAG)
        (Done (current, c\<lparr>tag_counter := (if current = NOTAG - 1 then 1 else current + 1)\<rparr>)))"

text \<open>The loop that waits for the response with the right tag; a server may keep it busy for ever.\<close>

partial_function (option) await :: "'t reader \<Rightarrow> u16 \<Rightarrow> 't client \<Rightarrow> ((nine_p_error + fcall) \<times> 't client) option" where
  "await r tg c =
     (case read_message r (unat (msize c)) (rbuf c) (transport c) of
        (Inl e, buf, t) \<Rightarrow>
          Some (Inl e, c\<lparr>rbuf := buf, transport := t, transport_failed := transport_failed c \<or> e = Io\<rparr>)
      | (Inr m, buf, t) \<Rightarrow>
          if tag m = tg then Some (Inr (fcall m), c\<lparr>rbuf := buf, transport := t\<rparr>)
          else await r tg (c\<lparr>rbuf := buf, transport := t\<rparr>))"

definition logged :: "fcall \<Rightarrow> fcall option \<Rightarrow> 't client \<Rightarrow> 't client" where
  "logged q a c = c\<lparr>exchanges := exchanges c @ [(q, a)]\<rparr>"

definition client_fcall :: "'t connection \<Rightarrow> fcall \<Rightarrow> (fcall \<Rightarrow> nine_p_error + 'r) \<Rightarrow> ('t, 'r) client_call" where
  "client_fcall k q f c =
     (if transport_failed c then Some (Done (Inl Io, c))
      else
        case next_tag (debug k) c of
          Panic \<Rightarrow> Some Panic
        | Done (tg, c) \<Rightarrow>
            (case write_message (wr k) \<lparr>tag = tg, fcall = q\<rparr> (transport c) of
               (False, t) \<Rightarrow> Some (Done (Inl Io, logged q None (c\<lparr>transport := t, transport_failed := True\<rparr>)))
             | (True, t) \<Rightarrow>
                 (case await (rd k) tg (c\<lparr>transport := t\<rparr>) of
                    None \<Rightarrow> None
                  | Some (Inl e, c) \<Rightarrow> Some (Done (Inl e, logged q None c))
                  | Some (Inr a, c) \<Rightarrow> Some (Done (f a, logged q (Some a) c)))))"

text \<open>What the callers do with a response: the one they expect, an error of the server, or something else.\<close>

definition answer :: "(fcall \<Rightarrow> 'r option) \<Rightarrow> fcall \<Rightarrow> nine_p_error + 'r" where
  "answer g a =
     (case g a of
        Some r \<Rightarrow> Inr r
      | None \<Rightarrow> (case a of Rlerror e \<Rightarrow> Inl (Remote e) | _ \<Rightarrow> Inl InvalidResponse))"

abbreviation wire_fid :: "nat \<Rightarrow> u32" where "wire_fid i \<equiv> word_of_nat i"

section \<open>Operations\<close>

definition clunk :: "'t connection \<Rightarrow> nat \<Rightarrow> ('t, unit) client_call" where
  "clunk k fid =
     attempt (client_fcall k (Tclunk (wire_fid fid)) (answer (\<lambda>a. case a of Rclunk \<Rightarrow> Some () | _ \<Rightarrow> None))) (\<lambda>_.
       drop_fid k fid)"

text \<open>What a call that would have made a fid does when it fails: the server may have made it unless it says it has not.\<close>

definition give_up :: "'t connection \<Rightarrow> nat \<Rightarrow> nine_p_error \<Rightarrow> ('t, 'a) client_call" where
  "give_up k fid e =
     attempt (case e of Remote _ \<Rightarrow> drop_fid k fid | _ \<Rightarrow> clunk k fid) (\<lambda>_. fail e)"

definition attach :: "'t connection \<Rightarrow> u8 list \<Rightarrow> u8 list \<Rightarrow> ('t, qid \<times> nat) client_call" where
  "attach k uname aname =
     andthen (allocate_fid k) (\<lambda>fid.
       attempt (client_fcall k (Tattach (wire_fid fid) NOFID uname aname NONUNAME)
           (answer (\<lambda>a. case a of Rattach q \<Rightarrow> Some q | _ \<Rightarrow> None))) (\<lambda>r.
         case r of Inr q \<Rightarrow> ret (q, fid) | Inl e \<Rightarrow> give_up k fid e))"

definition walk_once :: "'t connection \<Rightarrow> nat \<Rightarrow> u8 list list \<Rightarrow> ('t, qid list \<times> nat) client_call" where
  "walk_once k fid wnames =
     (if length wnames > MAXWELEM then fail InvalidPathname
      else
        andthen (allocate_fid k) (\<lambda>new_fid.
          attempt (client_fcall k (Twalk (wire_fid fid) (wire_fid new_fid) wnames)
              (\<lambda>a. case a of
                 Rwalk wqids \<Rightarrow> if length wqids > length wnames then Inl InvalidResponse else Inr wqids
               | Rlerror e \<Rightarrow> Inl (Remote e)
               | _ \<Rightarrow> Inl InvalidResponse)) (\<lambda>r.
            case r of Inr wqids \<Rightarrow> ret (wqids, new_fid) | Inl e \<Rightarrow> give_up k new_fid e)))"

text \<open>\<^verbatim>\<open>slice.chunks(MAXWELEM)\<close>.\<close>

function chunks :: "'a list \<Rightarrow> 'a list list" where
  "chunks xs = (if xs = [] then [] else take MAXWELEM xs # chunks (drop MAXWELEM xs))"
  by auto
termination
  by (relation "measure length") (auto simp: MAXWELEM_def)

declare chunks.simps [simp del]

text \<open>The fid of the chunk before, clunked once the next one is reached or the walk is given up.\<close>

definition drop_previous :: "'t connection \<Rightarrow> nat option \<Rightarrow> ('t, unit) client_call" where
  "drop_previous k prev = (case prev of None \<Rightarrow> ret () | Some p \<Rightarrow> clunk k p)"

primrec walk_chunks :: "'t connection \<Rightarrow> nat \<Rightarrow> nat option \<Rightarrow> qid list \<Rightarrow> u8 list list list \<Rightarrow> ('t, qid list \<times> nat) client_call" where
  "walk_chunks k fid prev wqids [] = (case prev of None \<Rightarrow> panics | Some p \<Rightarrow> ret (wqids, p))"
| "walk_chunks k fid prev wqids (chunk # rest) =
     attempt (walk_once k (case prev of None \<Rightarrow> fid | Some p \<Rightarrow> p) chunk) (\<lambda>r.
       case r of
         Inl e \<Rightarrow> attempt (drop_previous k prev) (\<lambda>_. fail e)
       | Inr (new_wqids, new_f) \<Rightarrow>
           attempt (drop_previous k prev) (\<lambda>_.
             if length new_wqids < length chunk
             then attempt (clunk k new_f) (\<lambda>_. fail (Remote ENOENT_9P))
             else walk_chunks k fid (Some new_f) (wqids @ new_wqids) rest))"

definition walk_chunked :: "'t connection \<Rightarrow> nat \<Rightarrow> u8 list list \<Rightarrow> ('t, qid list \<times> nat) client_call" where
  "walk_chunked k fid wnames =
     (if wnames = [] then walk_once k fid wnames else walk_chunks k fid None [] (chunks wnames))"

definition client_walk :: "'t connection \<Rightarrow> nat \<Rightarrow> u8 list list \<Rightarrow> ('t, qid list \<times> nat) client_call" where
  "client_walk k fid wnames = walk_chunked k fid wnames"

definition client_open :: "'t connection \<Rightarrow> nat \<Rightarrow> u32 \<Rightarrow> ('t, qid) client_call" where
  "client_open k fid flags =
     client_fcall k (Tlopen (wire_fid fid) flags) (answer (\<lambda>a. case a of Rlopen q _ \<Rightarrow> Some q | _ \<Rightarrow> None))"

definition client_create :: "'t connection \<Rightarrow> nat \<Rightarrow> u8 list \<Rightarrow> u32 \<Rightarrow> u32 \<Rightarrow> u32 \<Rightarrow> ('t, qid \<times> nat) client_call" where
  "client_create k dfid name flags mode gid =
     attempt (client_fcall k (Tlcreate (wire_fid dfid) name flags mode gid)
         (answer (\<lambda>a. case a of Rlcreate q _ \<Rightarrow> Some q | _ \<Rightarrow> None))) (\<lambda>r.
       case r of
         Inr q \<Rightarrow> ret (q, dfid)
       | Inl e \<Rightarrow> attempt (clunk k dfid) (\<lambda>_. fail e))"

text \<open>The room for data in a message; a message size that leaves none is an error.\<close>

definition max_count :: "nat \<Rightarrow> (nat \<Rightarrow> ('t, 'a) client_call) \<Rightarrow> ('t, 'a) client_call" where
  "max_count hdr f = look (\<lambda>c. if unat (msize c) < hdr then fail InvalidResponse else f (unat (msize c) - hdr))"

definition client_read :: "'t connection \<Rightarrow> nat \<Rightarrow> u64 \<Rightarrow> nat \<Rightarrow> ('t, u8 list) client_call" where
  "client_read k fid off len =
     max_count IOHDRSZ (\<lambda>limit.
       let count = min len limit in
       if count > u32_max then fail InvalidResponse
       else
         client_fcall k (Tread (wire_fid fid) off (word_of_nat count))
           (\<lambda>a. case a of
              Rread data \<Rightarrow> if length data > count then Inl InvalidResponse else Inr data
            | Rlerror e \<Rightarrow> Inl (Remote e)
            | _ \<Rightarrow> Inl InvalidResponse))"

definition client_write :: "'t connection \<Rightarrow> nat \<Rightarrow> u64 \<Rightarrow> u8 list \<Rightarrow> ('t, nat) client_call" where
  "client_write k fid off data =
     max_count IOHDRSZ (\<lambda>limit.
       let count = min (length data) limit in
       client_fcall k (Twrite (wire_fid fid) off (take count data))
         (\<lambda>a. case a of
            Rwrite written \<Rightarrow> if unat written > count then Inl InvalidResponse else Inr (unat written)
          | Rlerror e \<Rightarrow> Inl (Remote e)
          | _ \<Rightarrow> Inl InvalidResponse))"

definition client_getattr :: "'t connection \<Rightarrow> nat \<Rightarrow> u64 \<Rightarrow> ('t, u64 \<times> qid \<times> stat) client_call" where
  "client_getattr k fid req_mask =
     client_fcall k (Tgetattr (wire_fid fid) req_mask)
       (answer (\<lambda>a. case a of Rgetattr valid q st \<Rightarrow> Some (valid, q, st) | _ \<Rightarrow> None))"

definition client_setattr :: "'t connection \<Rightarrow> nat \<Rightarrow> u32 \<Rightarrow> set_attr \<Rightarrow> ('t, unit) client_call" where
  "client_setattr k fid valid st =
     client_fcall k (Tsetattr (wire_fid fid) valid st) (answer (\<lambda>a. case a of Rsetattr \<Rightarrow> Some () | _ \<Rightarrow> None))"

definition client_readdir :: "'t connection \<Rightarrow> nat \<Rightarrow> u64 \<Rightarrow> ('t, dir_entry_9p list) client_call" where
  "client_readdir k fid off =
     max_count READDIRHDRSZ (\<lambda>count.
       client_fcall k (Treaddir (wire_fid fid) off (word_of_nat count))
         (answer (\<lambda>a. case a of Rreaddir data \<Rightarrow> Some data | _ \<Rightarrow> None)))"

function readdir_all_loop ::
    "'t connection \<Rightarrow> nat \<Rightarrow> u64 \<Rightarrow> dir_entry_9p list \<Rightarrow> ('t, dir_entry_9p list) client_call" where
  "readdir_all_loop k fid off all_entries c =
     (case client_readdir k fid off c of
        None \<Rightarrow> None
      | Some Panic \<Rightarrow> Some Panic
      | Some (Done (Inl e, c)) \<Rightarrow> fail e c
      | Some (Done (Inr entries, c)) \<Rightarrow>
          if entries = [] then ret all_entries c
          else if length all_entries + length entries > MAX_READDIR_ENTRIES then fail InvalidResponse c
          else readdir_all_loop k fid (e_offset (last entries)) (all_entries @ entries) c)"
  by pat_completeness auto
termination
  by (relation "measure (\<lambda>(k, fid, off, all_entries, c). MAX_READDIR_ENTRIES - length all_entries)")
    (auto simp: neq_Nil_conv)

declare readdir_all_loop.simps [simp del]


definition readdir_all :: "'t connection \<Rightarrow> nat \<Rightarrow> ('t, dir_entry_9p list) client_call" where
  "readdir_all k fid = readdir_all_loop k fid 0 []"

definition client_mkdir :: "'t connection \<Rightarrow> nat \<Rightarrow> u8 list \<Rightarrow> u32 \<Rightarrow> u32 \<Rightarrow> ('t, qid) client_call" where
  "client_mkdir k dfid name mode gid =
     client_fcall k (Tmkdir (wire_fid dfid) name mode gid) (answer (\<lambda>a. case a of Rmkdir q \<Rightarrow> Some q | _ \<Rightarrow> None))"

text \<open>The handle goes whether the removal succeeds or not.\<close>

definition client_remove :: "'t connection \<Rightarrow> nat \<Rightarrow> ('t, unit) client_call" where
  "client_remove k fid =
     attempt (client_fcall k (Tremove (wire_fid fid)) (answer (\<lambda>a. case a of Rremove \<Rightarrow> Some () | _ \<Rightarrow> None))) (\<lambda>r.
       attempt (drop_fid k fid) (\<lambda>_. of_result r))"

definition client_unlinkat :: "'t connection \<Rightarrow> nat \<Rightarrow> u8 list \<Rightarrow> u32 \<Rightarrow> ('t, unit) client_call" where
  "client_unlinkat k dfid name flags =
     client_fcall k (Tunlinkat (wire_fid dfid) name flags) (answer (\<lambda>a. case a of Runlinkat \<Rightarrow> Some () | _ \<Rightarrow> None))"

definition client_rename :: "'t connection \<Rightarrow> nat \<Rightarrow> nat \<Rightarrow> u8 list \<Rightarrow> ('t, unit) client_call" where
  "client_rename k fid dfid name =
     client_fcall k (Trename (wire_fid fid) (wire_fid dfid) name) (answer (\<lambda>a. case a of Rrename \<Rightarrow> Some () | _ \<Rightarrow> None))"

definition client_fsync :: "'t connection \<Rightarrow> nat \<Rightarrow> bool \<Rightarrow> ('t, unit) client_call" where
  "client_fsync k fid datasync =
     client_fcall k (Tfsync (wire_fid fid) (if datasync then 1 else 0)) (answer (\<lambda>a. case a of Rfsync \<Rightarrow> Some () | _ \<Rightarrow> None))"

definition clone_fid :: "'t connection \<Rightarrow> nat \<Rightarrow> ('t, nat) client_call" where
  "clone_fid k fid = andthen (client_walk k fid []) (\<lambda>(_, new_fid). ret new_fid)"

section \<open>What the server may hold\<close>

text \<open>
  The fids a server may hold after an exchange: a request that makes one may have succeeded unless it was answered by
  an error, and the two that end one end it whatever the answer.
\<close>

fun after_exchange :: "nat set \<Rightarrow> fcall \<times> fcall option \<Rightarrow> nat set" where
  "after_exchange S (Tattach fid _ _ _ _, a) = (case a of Some (Rlerror _) \<Rightarrow> S | _ \<Rightarrow> insert (unat fid) S)"
| "after_exchange S (Twalk _ new_fid _, a) = (case a of Some (Rlerror _) \<Rightarrow> S | _ \<Rightarrow> insert (unat new_fid) S)"
| "after_exchange S (Tclunk fid, a) = S - {unat fid}"
| "after_exchange S (Tremove fid, a) = S - {unat fid}"
| "after_exchange S (_, a) = S"

definition may_hold :: "(fcall \<times> fcall option) list \<Rightarrow> nat set" where
  "may_hold xs = foldl after_exchange {} xs"

lemma may_hold_simps [simp]: "may_hold [] = {}" "may_hold (xs @ [x]) = after_exchange (may_hold xs) x"
  by (simp_all add: may_hold_def)

text \<open>
  The numbers in use are those with a handle, the tag is never the reserved one, and unless the connection has failed the
  server holds no fid whose number is free.
\<close>

definition live :: "'t client \<Rightarrow> nat set" where
  "live c = {i. 0 < handles c i}"

definition client_inv :: "'t client \<Rightarrow> bool" where
  "client_inv c \<longleftrightarrow> pool_inv (fids c) \<and> used_ids (fids c) = live c \<and> tag_counter c \<noteq> NOTAG \<and> tag_counter c \<noteq> 0 \<and>
     (transport_failed c \<or> may_hold (exchanges c) \<subseteq> live c)"

lemma live_bound: "client_inv c \<Longrightarrow> i \<in> live c \<Longrightarrow> i \<le> u32_max"
proof -
  assume "client_inv c" and "i \<in> live c"
  then have "i < max_ids (fids c)" "max_ids (fids c) \<le> max_cap (fids c)" "max_cap (fids c) \<le> u32_max"
    by (auto simp: client_inv_def pool_inv_def)
  then show ?thesis by simp
qed

lemma wire_fid: "client_inv c \<Longrightarrow> i \<in> live c \<Longrightarrow> unat (wire_fid i) = i"
  using live_bound [of c i] by (simp add: unat_of_nat take_bit_eq_mod)

fun makes :: "fcall \<Rightarrow> nat set" where
  "makes (Tattach fid _ _ _ _) = {unat fid}"
| "makes (Twalk _ new_fid _) = {unat new_fid}"
| "makes _ = {}"

lemma after_exchange_makes: "after_exchange S (q, a) \<subseteq> S \<union> makes q"
  by (cases q) (auto split: option.splits fcall.splits)

section \<open>One exchange\<close>

text \<open>Waiting changes nothing but the connection, the buffer and the mark of failure.\<close>

definition same_session :: "'t client \<Rightarrow> 't client \<Rightarrow> bool" where
  "same_session c c' \<longleftrightarrow> msize c' = msize c \<and> fids c' = fids c \<and> handles c' = handles c \<and>
     tag_counter c' = tag_counter c \<and> exchanges c' = exchanges c \<and> (transport_failed c \<longrightarrow> transport_failed c')"

lemma read_message_errors: "read_message r n buf t = (Inl e, buf', t') \<Longrightarrow> e = Io \<or> e = InvalidResponse"
  by (auto simp: read_message_def read_to_buf_def Let_def split: prod.splits sum.splits bool.splits if_splits option.splits)

lemma await_same:
  assumes "await r tg c = Some (res, c')"
  shows "same_session c c' \<and> (\<forall>e. res = Inl e \<longrightarrow> (e = Io \<and> transport_failed c' \<or> e = InvalidResponse))"
proof -
  let ?P = "\<lambda>c y. same_session c (snd y) \<and> (\<forall>e. fst y = Inl e \<longrightarrow> (e = Io \<and> transport_failed (snd y) \<or> e = InvalidResponse))"
  have "?P c (res, c')"
  proof (rule await.raw_induct [where P = "\<lambda>r tg. ?P", OF _ assms])
    fix aw :: "'a reader \<Rightarrow> u16 \<Rightarrow> 'a client \<Rightarrow> ((nine_p_error + fcall) \<times> 'a client) option" and r tg c y
    assume ih: "\<And>r tg c y. aw r tg c = Some y \<Longrightarrow> ?P c y"
      and body: "(case read_message r (unat (msize c)) (rbuf c) (transport c) of
          (Inl e, buf, t) \<Rightarrow>
            Some (Inl e, c\<lparr>rbuf := buf, transport := t, transport_failed := transport_failed c \<or> e = Io\<rparr>)
        | (Inr m, buf, t) \<Rightarrow>
            if tag m = tg then Some (Inr (fcall m), c\<lparr>rbuf := buf, transport := t\<rparr>)
            else aw r tg (c\<lparr>rbuf := buf, transport := t\<rparr>)) = Some y"
    obtain m buf t where m: "read_message r (unat (msize c)) (rbuf c) (transport c) = (m, buf, t)" by (metis prod_cases3)
    show "?P c y"
    proof (cases m)
      case (Inl e)
      with body m read_message_errors [of r _ _ _ e buf t] show ?thesis by (auto simp: same_session_def)
    next
      case (Inr f)
      show ?thesis
      proof (cases "tag f = tg")
        case True
        with Inr body m show ?thesis by (auto simp: same_session_def)
      next
        case False
        with Inr body m have "aw r tg (c\<lparr>rbuf := buf, transport := t\<rparr>) = Some y" by simp
        from ih [OF this] show ?thesis by (auto simp: same_session_def)
      qed
    qed
  qed
  then show ?thesis by simp
qed

text \<open>
  What one request does to the client: the handles stay, and unless the connection fails the request is recorded with
  its answer, and the result is what the caller makes of the answer.
\<close>

lemma next_tag_inv:
  assumes "client_inv c"
  shows "\<exists>c'. next_tag dbg c = Done (tag_counter c, c') \<and> client_inv c' \<and> handles c' = handles c \<and>
    exchanges c' = exchanges c \<and> transport_failed c' = transport_failed c"
proof -
  have n: "NOTAG = - 1" by (simp add: NOTAG_def)
  have t: "tag_counter c \<noteq> NOTAG" "tag_counter c \<noteq> 0" using assms by (simp_all add: client_inv_def)
  define t' where "t' = (if tag_counter c = NOTAG - 1 then 1 else tag_counter c + 1)"
  have "tag_counter c + 1 \<noteq> 0" using t(1) by (simp add: n eq_neg_iff_add_eq_0)
  moreover have "tag_counter c + 1 \<noteq> NOTAG" if "tag_counter c \<noteq> NOTAG - 1" using that by (metis add_diff_cancel_right')
  ultimately have "t' \<noteq> 0" "t' \<noteq> NOTAG" by (auto simp: t'_def n)
  then have "client_inv (c\<lparr>tag_counter := t'\<rparr>)" using assms by (simp add: client_inv_def live_def)
  moreover have "next_tag dbg c = Done (tag_counter c, c\<lparr>tag_counter := t'\<rparr>)"
    using t by (simp add: next_tag_def t'_def Let_def)
  ultimately show ?thesis by simp
qed

lemma client_inv_same: "client_inv c \<Longrightarrow> same_session c c' \<Longrightarrow> client_inv c'"
  by (auto simp: client_inv_def same_session_def live_def)

lemma client_inv_logged: "client_inv c \<Longrightarrow> makes q \<subseteq> live c \<Longrightarrow> client_inv (logged q a c)"
  using after_exchange_makes [of "may_hold (exchanges c)" q a] by (auto simp: client_inv_def logged_def live_def)

lemma logged_simps [simp]:
  "handles (logged q a c) = handles c" "exchanges (logged q a c) = exchanges c @ [(q, a)]"
  "transport_failed (logged q a c) = transport_failed c" "live (logged q a c) = live c"
  by (simp_all add: logged_def live_def)

lemma client_fcall_spec:
  fixes k :: "'t connection"
  shows "triple (\<lambda>c. client_inv c \<and> handles c = h \<and> exchanges c = xs \<and> makes q \<subseteq> live c) (client_fcall k q f)
     (\<lambda>r c. client_inv c \<and> handles c = h \<and>
        (transport_failed c \<or> (\<exists>a. exchanges c = xs @ [(q, a)] \<and> r = (case a of None \<Rightarrow> Inl InvalidResponse | Some a \<Rightarrow> f a))))"
proof (rule tripleI)
  fix c c' :: "'t client" and r
  assume "client_inv c \<and> handles c = h \<and> exchanges c = xs \<and> makes q \<subseteq> live c"
  then have c: "client_inv c" "handles c = h" "exchanges c = xs" "makes q \<subseteq> live c" by auto
  obtain c1 where c1: "next_tag (debug k) c = Done (tag_counter c, c1)" "client_inv c1" "handles c1 = handles c"
    "exchanges c1 = exchanges c" "transport_failed c1 = transport_failed c"
    using next_tag_inv [OF c(1)] by blast
  show "client_fcall k q f c \<noteq> Some Panic"
    by (simp add: client_fcall_def c1(1) split: prod.split bool.split option.split sum.split)
  assume run: "client_fcall k q f c = Some (Done (r, c'))"
  have l1: "live c1 = live c" using c1(3) by (simp add: live_def)
  obtain ok t where w: "write_message (wr k) \<lparr>tag = tag_counter c, fcall = q\<rparr> (transport c1) = (ok, t)" by force
  consider "transport_failed c" | "\<not> transport_failed c" "\<not> ok" | "\<not> transport_failed c" ok by blast
  then show "client_inv c' \<and> handles c' = h \<and>
    (transport_failed c' \<or> (\<exists>a. exchanges c' = xs @ [(q, a)] \<and> r = (case a of None \<Rightarrow> Inl InvalidResponse | Some a \<Rightarrow> f a)))"
  proof cases
    case 1
    with run c show ?thesis by (simp add: client_fcall_def)
  next
    case 2
    let ?c = "c1\<lparr>transport := t, transport_failed := True\<rparr>"
    have "client_inv ?c" using c1(2) by (simp add: client_inv_def live_def)
    then have "client_inv (logged q None ?c)" using c(4) l1 by (intro client_inv_logged) (simp_all add: live_def)
    moreover from 2 run c1(1) w have "c' = logged q None ?c" by (simp add: client_fcall_def)
    ultimately show ?thesis using c1(3) c(2) by simp
  next
    case 3
    with run c1(1) w obtain res c2 where aw: "await (rd k) (tag_counter c) (c1\<lparr>transport := t\<rparr>) = Some (res, c2)"
      and c': "c' = logged q (case res of Inl _ \<Rightarrow> None | Inr a \<Rightarrow> Some a) c2"
      and r: "r = (case res of Inl e \<Rightarrow> Inl e | Inr a \<Rightarrow> f a)"
      by (auto simp: client_fcall_def split: option.splits sum.splits)
    note same = await_same [OF aw]
    have "client_inv (c1\<lparr>transport := t\<rparr>)" using c1(2) by (simp add: client_inv_def live_def)
    with same have "client_inv c2" using client_inv_same by blast
    moreover have "live c2 = live c" "handles c2 = h" "exchanges c2 = xs"
      using same c c1 by (simp_all add: same_session_def live_def)
    ultimately have "client_inv c'" "handles c' = h" "exchanges c' = xs @ [(q, case res of Inl _ \<Rightarrow> None | Inr a \<Rightarrow> Some a)]"
      using c(4) client_inv_logged [of c2 q] unfolding c' by simp_all
    moreover have "transport_failed c' \<or> r = (case (case res of Inl _ \<Rightarrow> None | Inr a \<Rightarrow> Some a) of None \<Rightarrow> Inl InvalidResponse | Some a \<Rightarrow> f a)"
      using same unfolding r c' by (cases res) auto
    ultimately show ?thesis by blast
  qed
qed


section \<open>What the operations do to the handles\<close>

abbreviation holding :: "(nat \<Rightarrow> nat) \<Rightarrow> 't client \<Rightarrow> bool" where
  "holding h \<equiv> \<lambda>c. client_inv c \<and> handles c = h"

text \<open>The server does not hold the fid, or the connection has failed.\<close>

abbreviation not_held :: "nat \<Rightarrow> 't client \<Rightarrow> bool" where
  "not_held i \<equiv> \<lambda>c. transport_failed c \<or> i \<notin> may_hold (exchanges c)"

lemma plain_fcall:
  assumes "makes q = {}"
  shows "triple (holding h) (client_fcall k q f) (\<lambda>r. holding h)"
  by (rule triple_fix [where g = exchanges], rule triple_weaken [OF client_fcall_spec]) (auto simp: assms)

lemma allocate_fid_spec:
  fixes k :: "'t connection"
  shows "triple (holding h) (allocate_fid k)
     (\<lambda>r c. case r of Inl e \<Rightarrow> e = Io \<and> holding h c | Inr i \<Rightarrow> h i = 0 \<and> holding (h(i := 1)) c \<and> not_held i c)"
proof (rule tripleI)
  fix c c' :: "'t client" and r
  assume "client_inv c \<and> handles c = h"
  then have c: "pool_inv (fids c)" "used_ids (fids c) = live c" "client_inv c" "handles c = h" by (auto simp: client_inv_def)
  obtain r' p where a: "allocate (debug k) (fids c) = Done (r', p)" using allocate_eq [OF c(1)] by (metis (no_types) surj_pair)
  have p: "pool_inv p \<and> (case r' of None \<Rightarrow> p = fids c | Some i \<Rightarrow> i \<notin> used_ids (fids c) \<and> used_ids p = insert i (used_ids (fids c)))"
  proof (cases r')
    case None
    with a c(1) show ?thesis using allocate_eq [OF c(1), of "debug k"] by (auto split: option.splits if_splits)
  next
    case (Some i)
    then have "pool_alloc (debug k) (fids c) = Some (i, p)" using a by (simp add: pool_alloc_def)
    from pool_alloc_cases [OF c(1) this] Some show ?thesis by simp
  qed
  show "allocate_fid k c \<noteq> Some Panic" using a by (simp add: allocate_fid_def split: option.split)
  assume run: "allocate_fid k c = Some (Done (r, c'))"
  show "case r of Inl e \<Rightarrow> e = Io \<and> holding h c' | Inr i \<Rightarrow> h i = 0 \<and> holding (h(i := 1)) c' \<and> not_held i c'"
  proof (cases r')
    case None
    with run a p c show ?thesis by (auto simp: allocate_fid_def client_inv_def live_def)
  next
    case (Some i)
    with run a have c': "c' = c\<lparr>fids := p, handles := (handles c)(i := 1)\<rparr>" "r = Inr i" by (auto simp: allocate_fid_def)
    have i: "i \<notin> live c" "pool_inv p" "used_ids p = insert i (live c)" using p Some c(2) by auto
    have l: "live c' = insert i (live c)" by (auto simp: c' live_def)
    have "client_inv c'" using c(3) i l by (auto simp: client_inv_def c'(1))
    moreover have "not_held i c'" using c(3) i(1) by (auto simp: client_inv_def c'(1))
    ultimately show ?thesis using c' c(4) i(1) by (simp add: live_def)
  qed
qed

lemma drop_fid_spec:
  assumes "0 < h i"
  shows "triple (\<lambda>c. holding h c \<and> (1 < h i \<or> not_held i c)) (drop_fid k i) (\<lambda>r. holding (h(i := h i - 1)))"
  unfolding drop_fid_def
proof (rule triple_step)
  fix c
  assume "holding h c \<and> (1 < h i \<or> not_held i c)"
  then have c: "client_inv c" "handles c = h" "1 < h i \<or> not_held i c" by auto
  define c1 where "c1 = c\<lparr>handles := h(i := h i - 1)\<rparr>"
  show "\<exists>x s'. (let c = c\<lparr>handles := (handles c)(i := handles c i - 1)\<rparr>
      in if handles c i = 0 then obind (recycle (debug k) i (fids c)) (\<lambda>p. Done ((), c\<lparr>fids := p\<rparr>)) else Done ((), c)) =
      Done (x, s') \<and> holding (h(i := h i - 1)) s'"
  proof (cases "h i = 1")
    case True
    then have l: "live c1 = live c - {i}" "i \<in> live c" using c(2) by (auto simp: live_def c1_def)
    then obtain p where p: "recycle (debug k) i (fids c) = Done p" "used_ids p = live c - {i}" "pool_inv p"
      using recycle_eq [of "fids c" i "debug k"] c(1) by (auto simp: client_inv_def)
    have "client_inv (c1\<lparr>fids := p\<rparr>)" using c p l True by (auto simp: client_inv_def c1_def live_def)
    then show ?thesis using p(1) True c(2) by (simp add: c1_def)
  next
    case False
    then have "live c1 = live c" using assms c(2) by (auto simp: live_def c1_def)
    then have "client_inv c1" using c(1) by (auto simp: client_inv_def c1_def)
    then show ?thesis using False assms c(2) by (simp add: c1_def)
  qed
qed


lemma wire_fid_held: "client_inv c \<Longrightarrow> 0 < handles c i \<Longrightarrow> unat (wire_fid i) = i"
  by (rule wire_fid) (simp_all add: live_def)

text \<open>A request that ends a fid, and one that makes one.\<close>

lemma ending_fcall:
  fixes k :: "'t connection"
  assumes "0 < h i" and "makes q = {}" and "\<And>S a. after_exchange S (q, a) = S - {unat (wire_fid i)}"
  shows "triple (holding h) (client_fcall k q f) (\<lambda>r c. holding h c \<and> not_held i c)"
proof (rule triple_fix [where g = exchanges], rule triple_weaken [OF client_fcall_spec])
  fix xs r and c :: "'t client"
  assume "client_inv c \<and> handles c = h \<and> (transport_failed c \<or>
    (\<exists>a. exchanges c = xs @ [(q, a)] \<and> r = (case a of None \<Rightarrow> Inl InvalidResponse | Some a \<Rightarrow> f a)))"
  then show "holding h c \<and> not_held i c" using wire_fid_held [of c i] assms by auto
qed (auto simp: assms)

lemma making_fcall:
  fixes k :: "'t connection"
  assumes "0 < h i" and "makes q = {unat (wire_fid i)}" and "\<And>S e. after_exchange S (q, Some (Rlerror e)) = S"
    and f: "\<And>a e. f a = Inl (Remote e) \<Longrightarrow> a = Rlerror e"
  shows "triple (\<lambda>c. holding h c \<and> not_held i c) (client_fcall k q f)
    (\<lambda>r c. holding h c \<and> (\<forall>e. r = Inl (Remote e) \<longrightarrow> not_held i c))"
proof (rule tripleI)
  fix c c' :: "'t client" and r
  assume c: "holding h c \<and> not_held i c"
  then have pre: "client_inv c \<and> handles c = h \<and> exchanges c = exchanges c \<and> makes q \<subseteq> live c"
    using assms(1,2) wire_fid_held [of c i] by (simp add: live_def)
  note spec = tripleD [OF client_fcall_spec pre]
  show "client_fcall k q f c \<noteq> Some Panic" by (rule spec(1))
  assume run: "client_fcall k q f c = Some (Done (r, c'))"
  show "holding h c' \<and> (\<forall>e. r = Inl (Remote e) \<longrightarrow> not_held i c')"
  proof (cases "transport_failed c")
    case True
    with run c show ?thesis by (simp add: client_fcall_def)
  next
    case False
    with c have "i \<notin> may_hold (exchanges c)" by simp
    then show ?thesis using spec(2) [OF run] assms(3) by (auto split: option.splits dest!: f [OF sym])
  qed
qed

lemma clunk_spec:
  assumes "0 < h i"
  shows "triple (holding h) (clunk k i) (\<lambda>r. holding (h(i := h i - 1)))"
  unfolding clunk_def
  by (rule triple_attempt, rule ending_fcall [where i = i], rule assms, simp, simp,
      rule triple_weaken [OF drop_fid_spec [where h = h and i = i, OF assms]]) auto

lemma give_up_spec:
  assumes "0 < h i"
  shows "triple (\<lambda>c. holding h c \<and> (\<forall>n. e = Remote n \<longrightarrow> not_held i c)) (give_up k i e)
    (\<lambda>r c. r = Inl e \<and> holding (h(i := h i - 1)) c)"
  unfolding give_up_def
proof (rule triple_attempt)
  show "triple (\<lambda>c. holding h c \<and> (\<forall>n. e = Remote n \<longrightarrow> not_held i c))
      (case e of Remote _ \<Rightarrow> drop_fid k i | _ \<Rightarrow> clunk k i) (\<lambda>r. holding (h(i := h i - 1)))"
  proof (cases e)
    case (Remote n)
    then show ?thesis by simp (rule triple_weaken [OF drop_fid_spec [where h = h and i = i, OF assms]], auto)
  qed (use clunk_spec [where h = h and i = i, OF assms] in simp_all)
qed (auto intro: triple_fail)

text \<open>A fid made by a call that succeeds, and no fid left behind by one that fails.\<close>

abbreviation made :: "(nat \<Rightarrow> nat) \<Rightarrow> nine_p_error + 'a \<times> nat \<Rightarrow> 't client \<Rightarrow> bool" where
  "made h r c \<equiv> (case r of Inl e \<Rightarrow> holding h c | Inr (_, i) \<Rightarrow> h i = 0 \<and> holding (h(i := 1)) c)"

lemma making_spec:
  assumes "\<And>i. makes (q i) = {unat (wire_fid i)}" and "\<And>S e i. after_exchange S (q i, Some (Rlerror e)) = S"
    and "\<And>a e. f a = Inl (Remote e) \<Longrightarrow> a = Rlerror e"
  shows "triple (holding h)
    (andthen (allocate_fid k) (\<lambda>i. attempt (client_fcall k (q i) f) (\<lambda>r. case r of Inr x \<Rightarrow> ret (x, i) | Inl e \<Rightarrow> give_up k i e)))
    (made h)"
proof (rule triple_andthen [OF allocate_fid_spec])
  fix i
  show "triple (\<lambda>c. case Inr i of Inl e \<Rightarrow> e = Io \<and> holding h c | Inr i \<Rightarrow> h i = 0 \<and> holding (h(i := 1)) c \<and> not_held i c)
    (attempt (client_fcall k (q i) f) (\<lambda>r. case r of Inr x \<Rightarrow> ret (x, i) | Inl e \<Rightarrow> give_up k i e)) (made h)"
    unfolding sum.case
  proof (rule triple_pure, rule triple_attempt [OF making_fcall [where h = "h(i := 1)" and i = i]])
    assume h: "h i = 0"
    fix r :: "nine_p_error + 'a"
    show "triple (\<lambda>c. holding (h(i := 1)) c \<and> (\<forall>e. r = Inl (Remote e) \<longrightarrow> not_held i c))
      (case r of Inr x \<Rightarrow> ret (x, i) | Inl e \<Rightarrow> give_up k i e) (made h)"
    proof (cases r)
      case (Inl e)
      have "(h(i := 1))(i := (h(i := 1)) i - 1) = h" using h by auto
      with give_up_spec [where h = "h(i := 1)" and i = i and e = e and k = k] Inl show ?thesis
        by simp (erule triple_weaken, auto)
    next
      case (Inr x)
      with h show ?thesis by (auto intro: triple_ret)
    qed
  qed (use assms in auto)
qed auto

lemma answer_remote: "(\<And>e. g (Rlerror e) = None) \<Longrightarrow> answer g a = Inl (Remote e) \<Longrightarrow> a = Rlerror e"
  by (auto simp: answer_def split: option.splits fcall.splits)

lemma attach_spec: "triple (holding h) (attach k u a) (made h)"
  unfolding attach_def by (rule making_spec) (auto dest: answer_remote [rotated])

lemma walk_once_spec: "triple (holding h) (walk_once k fid ws) (made h)"
proof (cases "length ws > MAXWELEM")
  case True
  then show ?thesis unfolding walk_once_def by (auto intro: triple_fail)
next
  case False
  then show ?thesis unfolding walk_once_def
    by simp (rule making_spec; auto split: fcall.splits if_splits)
qed

lemma drop_previous_spec:
  assumes "\<And>p. prev = Some p \<Longrightarrow> 0 < h p"
  shows "triple (holding h) (drop_previous k prev) (\<lambda>r. holding (case prev of None \<Rightarrow> h | Some p \<Rightarrow> h(p := h p - 1)))"
  using assms clunk_spec [of h "the prev" k] by (cases prev) (auto simp: drop_previous_def intro: triple_ret)

lemma walk_chunks_spec:
  assumes "cs \<noteq> [] \<or> prev \<noteq> None" and "\<And>p. prev = Some p \<Longrightarrow> h p = 0"
  shows "triple (holding (case prev of None \<Rightarrow> h | Some p \<Rightarrow> h(p := 1))) (walk_chunks k fid prev qs cs) (made h)"
  using assms
proof (induction cs arbitrary: prev qs)
  case Nil
  then obtain p where "prev = Some p" "h p = 0" by auto
  then show ?case by simp (rule triple_ret, auto)
next
  case (Cons chunk rest)
  let ?h = "case prev of None \<Rightarrow> h | Some p \<Rightarrow> h(p := 1)"
  have restored: "(case prev of None \<Rightarrow> ?h | Some p \<Rightarrow> ?h(p := ?h p - 1)) = h"
    using Cons.prems(2) by (auto split: option.split)
  have drop: "triple (holding ?h) (drop_previous k prev) (\<lambda>r. holding h)"
    using drop_previous_spec [of prev ?h k] unfolding restored by simp
  show ?case unfolding walk_chunks.simps
  proof (rule triple_attempt [OF walk_once_spec])
    fix r :: "nine_p_error + qid list \<times> nat"
    show "triple (made ?h r) (case r of
         Inl e \<Rightarrow> attempt (drop_previous k prev) (\<lambda>_. fail e)
       | Inr (new_wqids, new_f) \<Rightarrow>
           attempt (drop_previous k prev) (\<lambda>_.
             if length new_wqids < length chunk then attempt (clunk k new_f) (\<lambda>_. fail (Remote ENOENT_9P))
             else walk_chunks k fid (Some new_f) (qs @ new_wqids) rest)) (made h)"
    proof (cases r)
      case (Inl e)
      then show ?thesis by simp (rule triple_attempt [OF drop], rule triple_fail, simp)
    next
      case (Inr x)
      obtain new_wqids i where x: "x = (new_wqids, i)" by force
      have hi: "h i = 0" if "?h i = 0" using that by (auto split: option.splits if_splits)
      have drop': "triple (\<lambda>c. ?h i = 0 \<and> holding (?h(i := 1)) c) (drop_previous k prev) (\<lambda>r c. h i = 0 \<and> holding (h(i := 1)) c)"
      proof (rule triple_pure)
        assume i: "?h i = 0"
        have pos: "0 < (?h(i := 1)) p" if "prev = Some p" for p using that i by auto
        have "(case prev of None \<Rightarrow> ?h(i := 1) | Some p \<Rightarrow> (?h(i := 1))(p := (?h(i := 1)) p - 1)) = h(i := 1)"
          using i Cons.prems(2) by (auto split: option.splits if_splits)
        with drop_previous_spec [of prev "?h(i := 1)" k, OF pos] hi [OF i]
        show "triple (holding (?h(i := 1))) (drop_previous k prev) (\<lambda>r c. h i = 0 \<and> holding (h(i := 1)) c)"
          by simp
      qed
      show ?thesis unfolding Inr x sum.case prod.case
      proof (rule triple_attempt [OF drop'], rule triple_pure)
        assume i: "h i = 0"
        show "triple (holding (h(i := 1))) (if length new_wqids < length chunk then attempt (clunk k i) (\<lambda>_. fail (Remote ENOENT_9P))
             else walk_chunks k fid (Some i) (qs @ new_wqids) rest) (made h)"
        proof (cases "length new_wqids < length chunk")
          case True
          have "(h(i := 1))(i := (h(i := 1)) i - 1) = h" using i by auto
          with clunk_spec [of "h(i := 1)" i k] have "triple (holding (h(i := 1))) (clunk k i) (\<lambda>r. holding h)" by simp
          then show ?thesis using True by simp (erule triple_attempt, rule triple_fail, simp)
        next
          case False
          then show ?thesis using Cons.IH [of "Some i" "qs @ new_wqids"] i by (simp add: fun_upd_def)
        qed
      qed
    qed
  qed
qed

lemma chunks_Nil [simp]: "chunks xs = [] \<longleftrightarrow> xs = []"
  by (simp add: chunks.simps)

lemma walk_spec: "triple (holding h) (client_walk k fid ws) (made h)"
  unfolding client_walk_def walk_chunked_def
  using walk_once_spec walk_chunks_spec [of "chunks ws" None h k fid "[]"] by (cases "ws = []") simp_all

lemma clone_fid_spec:
  "triple (holding h) (clone_fid k fid) (\<lambda>r c. case r of Inl e \<Rightarrow> holding h c | Inr i \<Rightarrow> h i = 0 \<and> holding (h(i := 1)) c)"
  unfolding clone_fid_def by (rule triple_andthen [OF walk_spec]) (auto split: prod.split intro!: triple_ret)

lemma client_create_spec:
  assumes "0 < h i"
  shows "triple (holding h) (client_create k i name fl md g)
    (\<lambda>r c. case r of Inl e \<Rightarrow> holding (h(i := h i - 1)) c | Inr (_, j) \<Rightarrow> j = i \<and> holding h c)"
  unfolding client_create_def
proof (rule triple_attempt [OF plain_fcall])
  fix r :: "nine_p_error + qid"
  show "triple (holding h) (case r of Inr q \<Rightarrow> ret (q, i) | Inl e \<Rightarrow> attempt (clunk k i) (\<lambda>_. fail e))
    (\<lambda>r c. case r of Inl e \<Rightarrow> holding (h(i := h i - 1)) c | Inr (_, j) \<Rightarrow> j = i \<and> holding h c)"
  proof (cases r)
    case (Inl e)
    then show ?thesis
      by simp (rule triple_attempt [OF clunk_spec [where h = h and i = i, OF assms]], rule triple_fail, simp)
  qed (auto intro: triple_ret)
qed simp

lemma client_remove_spec:
  assumes "0 < h i"
  shows "triple (holding h) (client_remove k i) (\<lambda>r. holding (h(i := h i - 1)))"
  unfolding client_remove_def
proof (rule triple_attempt [OF ending_fcall [where i = i]])
  fix r :: "nine_p_error + unit"
  show "triple (\<lambda>c. holding h c \<and> not_held i c) (attempt (drop_fid k i) (\<lambda>_. of_result r)) (\<lambda>r. holding (h(i := h i - 1)))"
    by (rule triple_attempt [where R = "\<lambda>_. holding (h(i := h i - 1))"],
        rule triple_weaken [OF drop_fid_spec [where h = h and i = i, OF assms]]) (auto intro: triple_of_result)
qed (simp_all add: assms)

lemma max_count_spec: "(\<And>n. triple (holding h) (f n) (\<lambda>r. holding h)) \<Longrightarrow> triple (holding h) (max_count hdr f) (\<lambda>r. holding h)"
  unfolding max_count_def by (rule triple_look) (auto intro: triple_fail triple_weaken)

lemmas request_defs = client_open_def client_getattr_def client_setattr_def client_mkdir_def client_unlinkat_def
  client_rename_def client_fsync_def

text \<open>The requests that leave the handles alone.\<close>

lemma request_specs:
  "triple (holding h) (client_open k i fl) (\<lambda>r. holding h)"
  "triple (holding h) (client_getattr k i m) (\<lambda>r. holding h)"
  "triple (holding h) (client_setattr k i valid st) (\<lambda>r. holding h)"
  "triple (holding h) (client_mkdir k i name md g) (\<lambda>r. holding h)"
  "triple (holding h) (client_unlinkat k i name fl) (\<lambda>r. holding h)"
  "triple (holding h) (client_rename k i j name) (\<lambda>r. holding h)"
  "triple (holding h) (client_fsync k i b) (\<lambda>r. holding h)"
  unfolding request_defs by (rule plain_fcall, simp)+

lemma data_specs:
  "triple (holding h) (client_read k i off n) (\<lambda>r. holding h)"
  "triple (holding h) (client_write k i off data) (\<lambda>r. holding h)"
  "triple (holding h) (client_readdir k i off) (\<lambda>r. holding h)"
  unfolding client_read_def client_write_def client_readdir_def
  by (rule max_count_spec, auto simp: Let_def intro: triple_fail plain_fcall)+

lemma readdir_all_spec: "triple (holding h) (readdir_all k i) (\<lambda>r. holding h)"
proof -
  have "holding h c \<Longrightarrow> case readdir_all_loop k i off es c of None \<Rightarrow> True | Some Panic \<Rightarrow> False | Some (Done (r, c')) \<Rightarrow> holding h c'" for off es c
  proof (induction k i off es c rule: readdir_all_loop.induct)
    case (1 k i off es c)
    note d = tripleD [OF data_specs(3) [where h = h] 1(2), of k i off]
    show ?case
    proof (cases "client_readdir k i off c")
      case None
      then show ?thesis by (simp add: readdir_all_loop.simps [of k i off es c])
    next
      case (Some a)
      with d(1) obtain r c' where a: "a = Done (r, c')" by (cases a) auto
      with d(2) Some have "holding h c'" by simp
      with 1(1) Some a show ?thesis
        by (cases r) (auto simp: readdir_all_loop.simps [of k i off es c] ret_def fail_def)
    qed
  qed
  then show ?thesis by (simp add: triple_def readdir_all_def)
qed


section \<open>Calls return\<close>

text \<open>Over a connection that has only so many bytes to deliver, every response read uses some up.\<close>

lemma read_message_consumes:
  assumes sr: "stream_reader r pending" and "read_message r n buf t = (Inr m, buf', t')"
  shows "length (pending t') < length (pending t)"
proof -
  obtain b1 ok1 buf1 t1 where r1: "read_exact r (resize 4 buf) t = (ok1, buf1, t1)" "pending t = b1 @ pending t1"
    "if ok1 then length b1 = length (resize 4 buf) \<and> buf1 = b1 else pending t1 = [] \<and> length b1 < length (resize 4 buf)"
    by (rule read_exact_stream [OF sr])
  let ?b = "drop 4 (resize (of_le (take 4 buf1)) buf1)"
  obtain b2 ok2 buf2 t2 where r2: "read_exact r ?b t1 = (ok2, buf2, t2)" "pending t1 = b2 @ pending t2"
    by (rule read_exact_stream [OF sr, of ?b t1])
  from assms(2) r1(1) r2(1) have "ok1" "t' = t2"
    by (auto simp: read_message_def read_to_buf_def Let_def split: bool.splits if_splits sum.splits prod.splits)
  with r1 r2 show ?thesis by auto
qed

lemma await_returns:
  assumes sr: "stream_reader r pending"
  shows "await r tg c \<noteq> None"
proof (induction "length (pending (transport c))" arbitrary: c rule: less_induct)
  case less
  obtain m buf t where m: "read_message r (unat (msize c)) (rbuf c) (transport c) = (m, buf, t)" by (metis prod_cases3)
  show ?case
  proof (cases m)
    case (Inl e)
    with m show ?thesis by (subst await.simps) simp
  next
    case (Inr f)
    have "await r tg (c\<lparr>rbuf := buf, transport := t\<rparr>) \<noteq> None"
      using read_message_consumes [OF sr m [unfolded Inr]] by (intro less) simp
    with m Inr show ?thesis by (subst await.simps) simp
  qed
qed

lemma total_fcall:
  assumes "stream_reader (rd k) pending"
  shows "total (client_fcall k q f)"
proof -
  have "client_fcall k q f c \<noteq> None" for c
  proof (cases "next_tag (debug k) c")
    case (Done tc)
    obtain tg c1 where tc: "tc = (tg, c1)" by force
    obtain ok t where "write_message (wr k) \<lparr>tag = tg, fcall = q\<rparr> (transport c1) = (ok, t)" by force
    with Done tc await_returns [OF assms, of tg "c1\<lparr>transport := t\<rparr>"] show ?thesis
      by (cases ok) (auto simp: client_fcall_def split: sum.split)
  qed (simp add: client_fcall_def)
  then show ?thesis by (simp add: total_def)
qed

lemma total_fids: "total (allocate_fid k)" "total (drop_fid k i)"
  by (auto simp: total_def allocate_fid_def drop_fid_def step_def split: outcome.split option.split)

lemma total_clunk: "stream_reader (rd k) pending \<Longrightarrow> total (clunk k i)"
  unfolding clunk_def by (intro total_attempt total_fcall total_fids)

lemma total_give_up: "stream_reader (rd k) pending \<Longrightarrow> total (give_up k i e)"
  unfolding give_up_def by (intro total_attempt) (auto simp: total_clunk total_fids split: nine_p_error.split)

lemma total_walk:
  assumes sr: "stream_reader (rd k) pending"
  shows "total (client_walk k fid ws)"
proof -
  have once: "total (walk_once k fid ws)" for fid ws
    unfolding walk_once_def
    by (auto intro!: total_andthen total_attempt total_fids total_fcall [OF sr] total_give_up [OF sr] split: sum.split)
  have prev: "total (drop_previous k p)" for p
    unfolding drop_previous_def by (auto simp: total_clunk [OF sr] split: option.split)
  have "total (walk_chunks k fid p qs cs)" for p qs cs
    by (induction cs arbitrary: p qs)
      (auto intro!: total_attempt once prev total_clunk [OF sr] split: option.split sum.split prod.split)
  with once show ?thesis by (simp add: client_walk_def walk_chunked_def)
qed

lemma total_max_count: "(\<And>n. total (f n)) \<Longrightarrow> total (max_count hdr f)"
  unfolding max_count_def by (intro total_look) auto

lemma total_readdir_all:
  assumes sr: "stream_reader (rd k) pending"
  shows "total (readdir_all k i)"
proof -
  have r: "total (client_readdir k i off)" for off
    unfolding client_readdir_def by (intro total_max_count total_fcall [OF sr])
  have "stream_reader (rd k) pending \<Longrightarrow> readdir_all_loop k i off es c \<noteq> None" for off es c
  proof (induction k i off es c rule: readdir_all_loop.induct)
    case (1 k i off es c)
    have "total (client_readdir k i off)"
      unfolding client_readdir_def by (intro total_max_count total_fcall [OF 1(2)])
    then obtain a where "client_readdir k i off c = Some a" by (auto simp: total_def)
    with 1 show ?case
      by (auto simp: readdir_all_loop.simps [of k i off es c] ret_def fail_def split: outcome.split sum.split)
  qed
  then show ?thesis using sr by (simp add: total_def readdir_all_def)
qed

section \<open>What a walk returns\<close>

lemma fcall_results:
  assumes "\<And>e. P (Inl e)" and "\<And>a. P (f a)"
  shows "results (client_fcall k q f) P"
  using assms
  by (auto simp: results_def client_fcall_def split: if_splits outcome.splits prod.splits bool.splits option.splits sum.splits)

definition qids_of :: "(nat \<Rightarrow> bool) \<Rightarrow> nine_p_error + qid list \<times> nat \<Rightarrow> bool" where
  "qids_of P r = (case r of Inl e \<Rightarrow> True | Inr (qs, i) \<Rightarrow> P (length qs))"

lemma qids_of_simps [simp]: "qids_of P (Inl e)" "qids_of P (Inr (qs, i)) = P (length qs)"
  by (simp_all add: qids_of_def)

lemma walk_once_qids: "results (walk_once k fid ws) (qids_of (\<lambda>n. n \<le> length ws))"
proof -
  have "results (client_fcall k (Twalk (wire_fid fid) (wire_fid i) ws)
      (\<lambda>a. case a of Rwalk wqids \<Rightarrow> if length wqids > length ws then Inl InvalidResponse else Inr wqids
         | Rlerror e \<Rightarrow> Inl (Remote e) | _ \<Rightarrow> Inl InvalidResponse)) (\<lambda>r. \<forall>qs. r = Inr qs \<longrightarrow> length qs \<le> length ws)" for i
    by (rule fcall_results) (auto split: fcall.splits)
  note req = this
  have gu: "results (give_up k i e) (qids_of P)" for i e P
    unfolding give_up_def by (rule results_attempt [OF results_True]) (auto intro: results_simple)
  show ?thesis unfolding walk_once_def
    by (auto intro!: results_simple results_andthen [OF results_True] results_attempt [OF req] gu split: sum.split)
qed

lemma walk_chunks_qids: "results (walk_chunks k fid p qs0 cs) (qids_of (\<lambda>n. n = length qs0 + length (concat cs)))"
proof (induction cs arbitrary: p qs0)
  case Nil
  show ?case by (auto intro: results_simple split: option.split)
next
  case (Cons chunk rest)
  have ih: "results (walk_chunks k fid (Some j) (qs0 @ qs) rest) (qids_of (\<lambda>n. n = length qs0 + length (concat (chunk # rest))))"
    if "length qs = length chunk" for j qs
    using Cons.IH [of "Some j" "qs0 @ qs"] that by (simp add: add.assoc)
  show ?case unfolding walk_chunks.simps
    by (rule results_attempt [OF walk_once_qids])
      (auto intro!: results_attempt [OF results_True] results_simple ih [simplified] split: sum.split)
qed

lemma concat_chunks: "concat (chunks xs) = xs"
  by (induction xs rule: chunks.induct) (subst chunks.simps, simp)

lemma chunks_short: "c \<in> set (chunks xs) \<Longrightarrow> length c \<le> MAXWELEM \<and> c \<noteq> []"
proof (induction xs rule: chunks.induct)
  case (1 xs)
  then show ?case by (subst (asm) (2) chunks.simps) (auto simp: MAXWELEM_def split: if_splits)
qed

lemma walk_qids: "results (client_walk k fid ws) (qids_of (\<lambda>n. n = length ws))"
  using walk_chunks_qids [of k fid None "[]" "chunks ws"] walk_once_qids [of k fid ws]
  by (auto simp: client_walk_def walk_chunked_def concat_chunks)

end
