(* ===== verification/NinePFs.thy ===== *)
theory NinePFs
  imports NinePClient InMemFs DescriptorTable
begin

text \<open>
  The 9P file system of \<^verbatim>\<open>litebox/src/fs/nine_p/mod.rs\<close>: every operation of the file-system interface as walks
  and requests of the client, with the open files in the descriptor table. Each conversion of an error of the client
  to the error of an operation is a function. Strings are lists of bytes written as characters.
\<close>

section \<open>Errors\<close>

abbreviation E_PERM :: u32 where "E_PERM \<equiv> 1"
abbreviation E_NOENT :: u32 where "E_NOENT \<equiv> 2"
abbreviation E_ACCES :: u32 where "E_ACCES \<equiv> 13"
abbreviation E_EXIST :: u32 where "E_EXIST \<equiv> 17"
abbreviation E_XDEV :: u32 where "E_XDEV \<equiv> 18"
abbreviation E_NOTDIR :: u32 where "E_NOTDIR \<equiv> 20"
abbreviation E_ISDIR :: u32 where "E_ISDIR \<equiv> 21"
abbreviation E_INVAL :: u32 where "E_INVAL \<equiv> 22"
abbreviation E_SPIPE :: u32 where "E_SPIPE \<equiv> 29"
abbreviation E_NAMETOOLONG :: u32 where "E_NAMETOOLONG \<equiv> 36"
abbreviation E_NOSYS :: u32 where "E_NOSYS \<equiv> 38"
abbreviation E_NOTEMPTY :: u32 where "E_NOTEMPTY \<equiv> 39"
abbreviation E_OPNOTSUPP :: u32 where "E_OPNOTSUPP \<equiv> 95"

abbreviation denied :: "u32 \<Rightarrow> bool" where "denied n \<equiv> n = E_PERM \<or> n = E_ACCES"

fun open_error_of :: "nine_p_error \<Rightarrow> open_error" where
  "open_error_of nine_p_error.InvalidPathname = open_error.PathError path_error.InvalidPathname"
| "open_error_of (Remote n) =
     (if n = E_NOENT then open_error.PathError NoSuchFileOrDirectory
      else if n = E_EXIST then open_error.AlreadyExists
      else if denied n then AccessNotAllowed
      else if n = E_NOTDIR then open_error.PathError ComponentNotADirectory
      else if n = E_NAMETOOLONG then open_error.PathError path_error.InvalidPathname
      else open_error.Io)"
| "open_error_of _ = open_error.Io"

fun fs_read_error_of :: "nine_p_error \<Rightarrow> fs_read_error" where
  "fs_read_error_of (Remote n) =
     (if n = E_NOENT \<or> n = E_ISDIR then fs_read_error.NotAFile else if denied n then NotForReading else fs_read_error.Io)"
| "fs_read_error_of _ = fs_read_error.Io"

fun fs_write_error_of :: "nine_p_error \<Rightarrow> fs_write_error" where
  "fs_write_error_of (Remote n) =
     (if n = E_NOENT \<or> n = E_ISDIR then fs_write_error.NotAFile else if denied n then fs_write_error.NotForWriting
      else fs_write_error.Io)"
| "fs_write_error_of _ = fs_write_error.Io"

fun mkdir_error_of :: "nine_p_error \<Rightarrow> mkdir_error" where
  "mkdir_error_of nine_p_error.InvalidPathname = mkdir_error.PathError path_error.InvalidPathname"
| "mkdir_error_of (Remote n) =
     (if n = E_NOENT then mkdir_error.PathError NoSuchFileOrDirectory
      else if n = E_EXIST then mkdir_error.AlreadyExists
      else if denied n then mkdir_error.NoWritePerms
      else if n = E_NOTDIR then mkdir_error.PathError ComponentNotADirectory
      else if n = E_NAMETOOLONG then mkdir_error.PathError path_error.InvalidPathname
      else mkdir_error.Io)"
| "mkdir_error_of _ = mkdir_error.Io"

fun read_dir_error_of :: "nine_p_error \<Rightarrow> read_dir_error" where
  "read_dir_error_of (Remote n) = (if n = E_NOENT \<or> n = E_NOTDIR then read_dir_error.NotADirectory else read_dir_error.Io)"
| "read_dir_error_of _ = read_dir_error.Io"

fun unlink_error_of :: "nine_p_error \<Rightarrow> unlink_error" where
  "unlink_error_of nine_p_error.InvalidPathname = unlink_error.PathError path_error.InvalidPathname"
| "unlink_error_of (Remote n) =
     (if n = E_NOENT then unlink_error.PathError NoSuchFileOrDirectory
      else if n = E_ISDIR then unlink_error.IsADirectory
      else if denied n then unlink_error.NoWritePerms
      else if n = E_NOTDIR then unlink_error.PathError ComponentNotADirectory
      else if n = E_NAMETOOLONG then unlink_error.PathError path_error.InvalidPathname
      else unlink_error.Io)"
| "unlink_error_of _ = unlink_error.Io"

fun rename_error_of :: "nine_p_error \<Rightarrow> rename_error" where
  "rename_error_of nine_p_error.InvalidPathname = rename_error.PathError path_error.InvalidPathname"
| "rename_error_of (Remote n) =
     (if n = E_NOENT then rename_error.PathError NoSuchFileOrDirectory
      else if n = E_ISDIR then rename_error.IsADirectory
      else if denied n then rename_error.NoWritePerms
      else if n = E_NOTDIR then rename_error.PathError ComponentNotADirectory
      else if n = E_NAMETOOLONG then rename_error.PathError path_error.InvalidPathname
      else if n = E_XDEV then rename_error.CrossDevice
      else rename_error.Io)"
| "rename_error_of _ = rename_error.Io"

fun rmdir_error_of :: "nine_p_error \<Rightarrow> rmdir_error" where
  "rmdir_error_of nine_p_error.InvalidPathname = rmdir_error.PathError path_error.InvalidPathname"
| "rmdir_error_of (Remote n) =
     (if n = E_NOENT then rmdir_error.PathError NoSuchFileOrDirectory
      else if n = E_NOTDIR then rmdir_error.NotADirectory
      else if denied n then rmdir_error.NoWritePerms
      else if n = E_NAMETOOLONG then rmdir_error.PathError path_error.InvalidPathname
      else if n = E_NOTEMPTY then NotEmpty
      else rmdir_error.Io)"
| "rmdir_error_of _ = rmdir_error.Io"

fun file_status_error_of :: "nine_p_error \<Rightarrow> file_status_error" where
  "file_status_error_of nine_p_error.InvalidPathname = file_status_error.PathError path_error.InvalidPathname"
| "file_status_error_of (Remote n) =
     (if n = E_NOENT then file_status_error.PathError NoSuchFileOrDirectory
      else if n = E_NAMETOOLONG then file_status_error.PathError path_error.InvalidPathname
      else if n = E_NOTDIR then file_status_error.PathError ComponentNotADirectory
      else if denied n then file_status_error.PathError NoSearchPerms
      else file_status_error.Io)"
| "file_status_error_of _ = file_status_error.Io"

fun seek_error_of :: "nine_p_error \<Rightarrow> seek_error" where
  "seek_error_of (Remote n) =
     (if n = E_NOENT then seek_error.ClosedFd else if n = E_INVAL then InvalidOffset
      else if n = E_SPIPE then NonSeekable else seek_error.Io)"
| "seek_error_of _ = seek_error.Io"

fun truncate_error_of :: "nine_p_error \<Rightarrow> truncate_error" where
  "truncate_error_of (Remote n) =
     (if n = E_NOENT then truncate_error.ClosedFd else if n = E_ISDIR then IsDirectory
      else if denied n then truncate_error.NotForWriting else truncate_error.Io)"
| "truncate_error_of _ = truncate_error.Io"

fun chmod_error_of :: "nine_p_error \<Rightarrow> chmod_error" where
  "chmod_error_of nine_p_error.InvalidPathname = chmod_error.PathError path_error.InvalidPathname"
| "chmod_error_of (Remote n) =
     (if n = E_NOENT then chmod_error.PathError NoSuchFileOrDirectory
      else if n = E_NOTDIR then chmod_error.PathError ComponentNotADirectory
      else if denied n then chmod_error.NotTheOwner else chmod_error.Io)"
| "chmod_error_of _ = chmod_error.Io"

fun chown_error_of :: "nine_p_error \<Rightarrow> chown_error" where
  "chown_error_of nine_p_error.InvalidPathname = chown_error.PathError path_error.InvalidPathname"
| "chown_error_of (Remote n) =
     (if n = E_NOENT then chown_error.PathError NoSuchFileOrDirectory
      else if n = E_NOTDIR then chown_error.PathError ComponentNotADirectory
      else if denied n then chown_error.NotTheOwner else chown_error.Io)"
| "chown_error_of _ = chown_error.Io"

fun set_times_error_of :: "nine_p_error \<Rightarrow> set_times_error" where
  "set_times_error_of nine_p_error.InvalidPathname = set_times_error.PathError path_error.InvalidPathname"
| "set_times_error_of (Remote n) =
     (if n = E_NOENT then set_times_error.PathError NoSuchFileOrDirectory
      else if n = E_NOTDIR then set_times_error.PathError ComponentNotADirectory
      else if denied n then NotPermitted else set_times_error.Io)"
| "set_times_error_of _ = set_times_error.Io"

section \<open>The file system\<close>

record np_descriptor =
  d9_fid :: nat
  d9_offset :: nat
  d9_qid :: qid

record ('t, 'm) nine_fs =
  np_client :: "'t client"
  np_table :: "(np_descriptor, 'm) descriptors"
  root_qid :: qid
  root_fid :: nat
  root_path :: string
  np_cwd :: string
  unlinkat_supported :: bool

type_synonym ('t, 'm, 'e, 'a) fs_call = "(('t, 'm) nine_fs, 'e, 'a) call"

definition bytes_of :: "string \<Rightarrow> u8 list" where
  "bytes_of s = map of_char s"

text \<open>A call of the client.\<close>

definition on_client :: "('t client, 'e, 'a) call \<Rightarrow> ('t, 'm, 'e, 'a) fs_call" where
  "on_client m w =
     (case m (np_client w) of
        None \<Rightarrow> None
      | Some Panic \<Rightarrow> Some Panic
      | Some (Done (r, c)) \<Rightarrow> Some (Done (r, w\<lparr>np_client := c\<rparr>)))"

definition np_new ::
    "'t connection \<Rightarrow> (np_descriptor, 'm) descriptors \<Rightarrow> 't \<Rightarrow> u32 \<Rightarrow> string \<Rightarrow> string \<Rightarrow>
      (nine_p_error + ('t, 'm) nine_fs) outcome option" where
  "np_new k table t sz username path =
     (case client_new k sz t of
        Panic \<Rightarrow> Some Panic
      | Done (Inl e) \<Rightarrow> Some (Done (Inl e))
      | Done (Inr c) \<Rightarrow>
          (case attach k (bytes_of username) (bytes_of path) c of
             None \<Rightarrow> None
           | Some Panic \<Rightarrow> Some Panic
           | Some (Done (Inl e, _)) \<Rightarrow> Some (Done (Inl e))
           | Some (Done (Inr (q, fid), c)) \<Rightarrow>
               Some (Done (Inr \<lparr>np_client = c, np_table = table, root_qid = q, root_fid = fid,
                 root_path = path, np_cwd = ''/'', unlinkat_supported = True\<rparr>))))"

definition np_absolute_path :: "string \<Rightarrow> ('t, 'm, 'e, string) fs_call" where
  "np_absolute_path path =
     look (\<lambda>w.
       if suffix ''/'' (np_cwd w)
       then ret (if starts_with_slash path then normalized path else normalized (np_cwd w @ path))
       else panics)"

definition walk_to :: "'t connection \<Rightarrow> string \<Rightarrow> ('t, 'm, nine_p_error, nat) fs_call" where
  "walk_to k path =
     (let names = normalized_components path in
      look (\<lambda>w.
        if names = [] then on_client (clone_fid k (root_fid w))
        else andthen (on_client (client_walk k (root_fid w) (map bytes_of names))) (\<lambda>(_, fid). ret fid)))"

definition walk_to_parent :: "'t connection \<Rightarrow> string \<Rightarrow> ('t, 'm, nine_p_error, nat \<times> string) fs_call" where
  "walk_to_parent k path =
     (let names = normalized_components path in
      if names = [] then fail nine_p_error.InvalidPathname
      else
        look (\<lambda>w.
          if butlast names = [] then andthen (on_client (clone_fid k (root_fid w))) (\<lambda>fid. ret (fid, last names))
          else andthen (on_client (client_walk k (root_fid w) (map bytes_of (butlast names)))) (\<lambda>(_, fid). ret (fid, last names))))"


section \<open>Conversions\<close>

text \<open>The bits of \<open>LOpenFlags\<close>, in the order the source tests for them.\<close>

definition oflags_to_lopen :: "u32 \<Rightarrow> u32" where
  "oflags_to_lopen flags =
     (let add = (\<lambda>f l acc. if contains flags f then acc OR l else acc) in
      add O_NOATIME 0x40000 (add O_DIRECT 0x4000 (add O_DSYNC 0x1000 (add O_SYNC 0x100000 (add O_NONBLOCK 0x800
        (add O_NOFOLLOW 0x20000 (add O_DIRECTORY 0x10000 (add O_APPEND 0x400 (add O_TRUNC 0x200 (add O_EXCL 0x80
          (add O_CREAT 0x40 (if contains flags RDWR then 2 else if contains flags WRONLY then 1 else 0))))))))))))"

definition time_to_timestamp :: "time_9p \<Rightarrow> timestamp" where
  "time_to_timestamp t =
     \<lparr>ts_sec = (if unat (t_sec t) < 2 ^ 63 then int (unat (t_sec t)) else 2 ^ 63 - 1),
      ts_nsec = (if unat (t_nsec t) \<le> u32_max then unat (t_nsec t) else u32_max)\<rparr>"

definition timestamp_to_time :: "timestamp \<Rightarrow> time_9p" where
  "timestamp_to_time ts = \<lparr>t_sec = (if ts_sec ts < 0 then 0 else word_of_int (ts_sec ts)), t_nsec = word_of_nat (ts_nsec ts)\<rparr>"

definition QID_DIR :: u8 where "QID_DIR = 0x80"

definition qid_type_to_file_type :: "u8 \<Rightarrow> file_type" where
  "qid_type_to_file_type t = (if t AND QID_DIR = QID_DIR then Directory else RegularFile)"

definition NP_DEVICE_ID :: nat where "NP_DEVICE_ID = 0x454e494e"

text \<open>\<^verbatim>\<open>u16::try_from\<close> and \<^verbatim>\<open>NonZeroUsize::new\<close>.\<close>

definition u16_of :: "u32 \<Rightarrow> u16 option" where
  "u16_of x = (if unat x \<le> u16_max then Some (ucast x) else None)"

definition non_zero_usize :: "u64 \<Rightarrow> nat option" where
  "non_zero_usize x = (if x = 0 then None else Some (unat x))"

text \<open>
  With all of the basic fields the values are taken as they are; otherwise each is taken when its bit is set. The 64-bit
  values always fit a \<^verbatim>\<open>usize\<close>.
\<close>

definition rgetattr_to_file_status :: "u64 \<times> qid \<times> stat \<Rightarrow> nine_p_error + file_status" where
  "rgetattr_to_file_status a =
     (case a of (valid, q, st) \<Rightarrow>
        let has = (\<lambda>b. valid AND 0x7ff = 0x7ff \<or> valid AND b = b);
            uid = (if has 0x4 then u16_of (st9_uid st) else Some 0);
            gid = (if has 0x8 then u16_of (st9_gid st) else Some 0)
        in case (uid, gid) of
             (Some u, Some g) \<Rightarrow>
               Inr \<lparr>st_file_type = qid_type_to_file_type (q_typ q),
                    st_mode = (if has 0x1 then st9_mode st else 0),
                    st_size = (if has 0x200 then unat (st9_size st) else 0),
                    st_owner = \<lparr>user = u, group = g\<rparr>,
                    st_node_info = \<lparr>dev = NP_DEVICE_ID, ino = unat (q_path q),
                                    rdev = (if has 0x10 then non_zero_usize (st9_rdev st) else None)\<rparr>,
                    st_blksize = (if has 0x400 then unat (st9_blksize st) else 0),
                    st_atime = (if has 0x20 then time_to_timestamp (st9_atime st) else timestamp_default),
                    st_mtime = (if has 0x40 then time_to_timestamp (st9_mtime st) else timestamp_default),
                    st_nlink = 1\<rparr>
           | _ \<Rightarrow> Inl InvalidResponse)"

definition time_default :: time_9p where "time_default = \<lparr>t_sec = 0, t_nsec = 0\<rparr>"

definition set_attr_default :: set_attr where
  "set_attr_default = \<lparr>sa_mode = 0, sa_uid = 0, sa_gid = 0, sa_size = 0, sa_atime = time_default, sa_mtime = time_default\<rparr>"

section \<open>Descriptors\<close>

text \<open>
  A call through a descriptor takes a handle of its fid out of the table for as long as it runs; an early return drops it
  too.
\<close>

definition with_descriptor ::
    "'t connection \<Rightarrow> 'e \<Rightarrow> typed_fd \<Rightarrow> (np_descriptor \<Rightarrow> ('t, 'm, 'e, 'a) fs_call) \<Rightarrow> ('t, 'm, 'e, 'a) fs_call" where
  "with_descriptor k closed_error fd f =
     look (\<lambda>w.
       case with_entry fd (\<lambda>d. d) (np_table w) of
         Panic \<Rightarrow> panics
       | Done None \<Rightarrow> fail closed_error
       | Done (Some d) \<Rightarrow>
           attempt (on_client (modify (clone_handle (d9_fid d))) :: ('t, 'm, 'e, unit) fs_call) (\<lambda>_.
             attempt (f d) (\<lambda>r.
               attempt (on_client (drop_fid k (d9_fid d))) (\<lambda>_. of_result r))))"

definition put_offset :: "typed_fd \<Rightarrow> nat \<Rightarrow> ('t, 'm, 'e, unit) fs_call" where
  "put_offset fd off =
     step (\<lambda>w. obind (with_entry_mut fd (\<lambda>d. ((), d\<lparr>d9_offset := off\<rparr>)) (np_table w)) (\<lambda>(_, t). Done ((), w\<lparr>np_table := t\<rparr>)))"

section \<open>Operations\<close>

definition np_supported_oflags :: u32 where
  "np_supported_oflags =
     RDONLY OR WRONLY OR RDWR OR O_CREAT OR O_NOCTTY OR O_EXCL OR O_DIRECTORY OR O_LARGEFILE OR O_TRUNC OR O_APPEND OR
     O_NOFOLLOW OR O_SYNC OR O_DSYNC OR O_DIRECT OR O_NOATIME"

definition open_created :: "'t connection \<Rightarrow> string list \<Rightarrow> u32 \<Rightarrow> u32 \<Rightarrow> ('t, 'm, nine_p_error, qid \<times> nat) fs_call" where
  "open_created k names lflags m =
     (if names = [] then panics
      else
        look (\<lambda>w.
          andthen (on_client (client_walk k (root_fid w) (map bytes_of (butlast names)))) (\<lambda>(_, dfid).
            on_client (client_create k dfid (bytes_of (last names)) lflags m 0))))"

definition open_walked :: "'t connection \<Rightarrow> string list \<Rightarrow> u32 \<Rightarrow> ('t, 'm, nine_p_error, qid \<times> nat) fs_call" where
  "open_walked k names lflags =
     look (\<lambda>w.
       andthen (on_client (client_walk k (root_fid w) (map bytes_of names))) (\<lambda>(_, new_fid).
         attempt (on_client (client_open k new_fid lflags)) (\<lambda>r.
           case r of
             Inr q \<Rightarrow> ret (q, new_fid)
           | Inl e \<Rightarrow> attempt (on_client (clunk k new_fid)) (\<lambda>_. fail e))))"

definition np_open :: "'t connection \<Rightarrow> type_id \<Rightarrow> string \<Rightarrow> u32 \<Rightarrow> u32 \<Rightarrow> ('t, 'm, open_error, typed_fd) fs_call" where
  "np_open k ty path flags m =
     (let flags = flags AND NOT O_NONBLOCK in
      if flags AND NOT np_supported_oflags \<noteq> 0 then fail (open_error.PathError path_error.InvalidPathname)
      else
        andthen (np_absolute_path path) (\<lambda>path.
          let names = normalized_components path; lflags = oflags_to_lopen flags in
          andthen (map_err open_error_of
              (if contains flags O_CREAT then open_created k names lflags m else open_walked k names lflags)) (\<lambda>(q, fid).
            step (\<lambda>w.
              obind (insert_fd ty \<lparr>d9_fid = fid, d9_offset = 0, d9_qid = q\<rparr> (np_table w)) (\<lambda>(fd, t).
                Done (fd, w\<lparr>np_table := t\<rparr>))))))"

definition np_close :: "'t connection \<Rightarrow> typed_fd \<Rightarrow> ('t, 'm, unit, typed_fd) fs_call" where
  "np_close k fd =
     attempt (step (\<lambda>w. obind (remove_fd fd (np_table w)) (\<lambda>(e, fd', t). Done ((e, fd'), w\<lparr>np_table := t\<rparr>)))
         :: ('t, 'm, unit, np_descriptor option \<times> typed_fd) fs_call) (\<lambda>r.
       case r of
         Inl _ \<Rightarrow> panics
       | Inr (None, fd') \<Rightarrow> ret fd'
       | Inr (Some d, fd') \<Rightarrow> attempt (on_client (clunk k (d9_fid d))) (\<lambda>_. ret fd'))"

definition np_read :: "'t connection \<Rightarrow> typed_fd \<Rightarrow> nat \<Rightarrow> nat option \<Rightarrow> ('t, 'm, fs_read_error, u8 list) fs_call" where
  "np_read k fd len offset =
     with_descriptor k fs_read_error.ClosedFd fd (\<lambda>d.
       case offset of
         Some off \<Rightarrow> map_err fs_read_error_of (on_client (client_read k (d9_fid d) (word_of_nat off) len))
       | None \<Rightarrow>
           andthen (map_err fs_read_error_of (on_client (client_read k (d9_fid d) (word_of_nat (d9_offset d)) len))) (\<lambda>data.
             case checked_add (d9_offset d) (length data) of
               None \<Rightarrow> fail fs_read_error.Io
             | Some off \<Rightarrow> andthen (put_offset fd off) (\<lambda>_. ret data)))"

definition np_write :: "'t connection \<Rightarrow> typed_fd \<Rightarrow> u8 list \<Rightarrow> nat option \<Rightarrow> ('t, 'm, fs_write_error, nat) fs_call" where
  "np_write k fd buf offset =
     with_descriptor k fs_write_error.ClosedFd fd (\<lambda>d.
       case offset of
         Some off \<Rightarrow> map_err fs_write_error_of (on_client (client_write k (d9_fid d) (word_of_nat off) buf))
       | None \<Rightarrow>
           andthen (map_err fs_write_error_of (on_client (client_write k (d9_fid d) (word_of_nat (d9_offset d)) buf))) (\<lambda>n.
             case checked_add (d9_offset d) n of
               None \<Rightarrow> fail fs_write_error.Io
             | Some off \<Rightarrow> andthen (put_offset fd off) (\<lambda>_. ret n)))"

definition np_seek :: "'t connection \<Rightarrow> typed_fd \<Rightarrow> int \<Rightarrow> seek_whence \<Rightarrow> ('t, 'm, seek_error, nat) fs_call" where
  "np_seek k fd offset whence =
     with_descriptor k seek_error.ClosedFd fd (\<lambda>d.
       andthen
         (case whence of
            RelativeToBeginning \<Rightarrow> ret 0
          | RelativeToCurrentOffset \<Rightarrow> ret (d9_offset d)
          | RelativeToEnd \<Rightarrow>
              andthen (map_err seek_error_of (on_client (client_getattr k (d9_fid d) 0x200))) (\<lambda>(_, _, st).
                ret (unat (st9_size st)))) (\<lambda>base.
         case checked_add_signed base offset of
           None \<Rightarrow> fail InvalidOffset
         | Some off \<Rightarrow> andthen (put_offset fd off) (\<lambda>_. ret off)))"

definition np_truncate :: "'t connection \<Rightarrow> typed_fd \<Rightarrow> nat \<Rightarrow> bool \<Rightarrow> ('t, 'm, truncate_error, unit) fs_call" where
  "np_truncate k fd len reset_offset =
     with_descriptor k truncate_error.ClosedFd fd (\<lambda>d.
       if q_typ (d9_qid d) AND QID_DIR = QID_DIR then fail IsDirectory
       else
         andthen (map_err truncate_error_of
             (on_client (client_setattr k (d9_fid d) 0x8 (set_attr_default\<lparr>sa_size := word_of_nat len\<rparr>)))) (\<lambda>_.
           if reset_offset then put_offset fd 0 else ret ()))"

definition np_chmod_fd :: "'t connection \<Rightarrow> typed_fd \<Rightarrow> u32 \<Rightarrow> ('t, 'm, chmod_error, unit) fs_call" where
  "np_chmod_fd k fd m =
     with_descriptor k chmod_error.Io fd (\<lambda>d.
       map_err chmod_error_of (on_client (client_setattr k (d9_fid d) 0x1 (set_attr_default\<lparr>sa_mode := m\<rparr>))))"


text \<open>A request on a fid that is walked to for it and clunked after it.\<close>

definition on_path ::
    "'t connection \<Rightarrow> (nine_p_error \<Rightarrow> 'e) \<Rightarrow> string \<Rightarrow> (nat \<Rightarrow> ('t, 'a) client_call) \<Rightarrow> ('t, 'm, 'e, 'a) fs_call" where
  "on_path k err path f =
     andthen (np_absolute_path path) (\<lambda>path.
       map_err err
         (andthen (walk_to k path) (\<lambda>fid.
            attempt (on_client (f fid)) (\<lambda>r.
              attempt (on_client (clunk k fid)) (\<lambda>_. of_result r)))))"

definition np_chmod :: "'t connection \<Rightarrow> string \<Rightarrow> u32 \<Rightarrow> ('t, 'm, chmod_error, unit) fs_call" where
  "np_chmod k path m = on_path k chmod_error_of path (\<lambda>fid. client_setattr k fid 0x1 (set_attr_default\<lparr>sa_mode := m\<rparr>))"

definition np_chown :: "'t connection \<Rightarrow> string \<Rightarrow> u16 option \<Rightarrow> u16 option \<Rightarrow> ('t, 'm, chown_error, unit) fs_call" where
  "np_chown k path u g =
     on_path k chown_error_of path (\<lambda>fid.
       client_setattr k fid ((if u = None then 0 else 0x2) OR (if g = None then 0 else 0x4))
         (set_attr_default\<lparr>sa_uid := (case u of Some x \<Rightarrow> ucast x | None \<Rightarrow> 0), sa_gid := (case g of Some x \<Rightarrow> ucast x | None \<Rightarrow> 0)\<rparr>))"

definition wire_time :: "timestamp option \<Rightarrow> time_9p" where
  "wire_time ts = (case ts of Some t \<Rightarrow> timestamp_to_time t | None \<Rightarrow> time_default)"

definition np_set_times ::
    "'t connection \<Rightarrow> string \<Rightarrow> timestamp option \<Rightarrow> timestamp option \<Rightarrow> ('t, 'm, set_times_error, unit) fs_call" where
  "np_set_times k path atime mtime =
     on_path k set_times_error_of path (\<lambda>fid.
       client_setattr k fid ((if atime = None then 0 else 0x90) OR (if mtime = None then 0 else 0x120))
         (set_attr_default\<lparr>sa_atime := wire_time atime, sa_mtime := wire_time mtime\<rparr>))"

definition np_file_status :: "'t connection \<Rightarrow> string \<Rightarrow> ('t, 'm, file_status_error, file_status) fs_call" where
  "np_file_status k path =
     andthen (np_absolute_path path) (\<lambda>path.
       map_err file_status_error_of
         (andthen (walk_to k path) (\<lambda>fid.
            attempt (on_client (client_getattr k fid 0x3fff)) (\<lambda>r.
              attempt (on_client (clunk k fid)) (\<lambda>_.
                case r of Inl e \<Rightarrow> fail e | Inr a \<Rightarrow> of_result (rgetattr_to_file_status a))))))"

definition np_fd_file_status :: "'t connection \<Rightarrow> typed_fd \<Rightarrow> ('t, 'm, file_status_error, file_status) fs_call" where
  "np_fd_file_status k fd =
     with_descriptor k file_status_error.ClosedFd fd (\<lambda>d.
       map_err file_status_error_of
         (andthen (on_client (client_getattr k (d9_fid d) 0x3fff)) (\<lambda>a. of_result (rgetattr_to_file_status a))))"

text \<open>
  The first request the server does not know turns the file system to the older one for good; \<open>AT_REMOVEDIR\<close> asks for a
  directory.
\<close>

definition remove_file_or_dir :: "'t connection \<Rightarrow> string \<Rightarrow> bool \<Rightarrow> ('t, 'm, nine_p_error, unit) fs_call" where
  "remove_file_or_dir k path is_file =
     andthen (np_absolute_path path) (\<lambda>path.
       let fall_back = andthen (walk_to k path) (\<lambda>fid. on_client (client_remove k fid)) in
       look (\<lambda>w.
         if unlinkat_supported w then
           andthen (walk_to_parent k path) (\<lambda>(parent_fid, name).
             attempt (on_client (client_unlinkat k parent_fid (bytes_of name) (if is_file then 0 else 0x200))) (\<lambda>r.
               attempt (on_client (clunk k parent_fid)) (\<lambda>_.
                 if r = Inl (Remote E_NOSYS) \<or> r = Inl (Remote E_OPNOTSUPP)
                 then andthen (modify (\<lambda>w. w\<lparr>unlinkat_supported := False\<rparr>)) (\<lambda>_. fall_back)
                 else of_result r)))
         else fall_back))"

definition np_unlink :: "'t connection \<Rightarrow> string \<Rightarrow> ('t, 'm, unlink_error, unit) fs_call" where
  "np_unlink k path = map_err unlink_error_of (remove_file_or_dir k path True)"

definition np_rmdir :: "'t connection \<Rightarrow> string \<Rightarrow> ('t, 'm, rmdir_error, unit) fs_call" where
  "np_rmdir k path = map_err rmdir_error_of (remove_file_or_dir k path False)"

text \<open>When the walk to the target fails, the handle of the source is dropped and the server is not told.\<close>

definition np_rename :: "'t connection \<Rightarrow> string \<Rightarrow> string \<Rightarrow> ('t, 'm, rename_error, unit) fs_call" where
  "np_rename k src dst =
     andthen (np_absolute_path src) (\<lambda>src.
     andthen (np_absolute_path dst) (\<lambda>dst.
       map_err rename_error_of (look (\<lambda>w.
         andthen (on_client (client_walk k (root_fid w) (map bytes_of (normalized_components src)))) (\<lambda>(_, from_fid).
           attempt (walk_to_parent k dst) (\<lambda>r.
             case r of
               Inl e \<Rightarrow> attempt (on_client (drop_fid k from_fid)) (\<lambda>_. fail e)
             | Inr (to_parent_fid, to_name) \<Rightarrow>
                 attempt (on_client (client_rename k from_fid to_parent_fid (bytes_of to_name))) (\<lambda>r.
                 attempt (on_client (clunk k from_fid)) (\<lambda>_.
                 attempt (on_client (clunk k to_parent_fid)) (\<lambda>_. of_result r)))))))))"

text \<open>Not implemented over 9P.\<close>

definition np_link :: "string \<Rightarrow> string \<Rightarrow> ('t, 'm, link_error, unit) fs_call" where
  "np_link oldpath newpath = fail link_error.Io"

definition np_symlink :: "string \<Rightarrow> string \<Rightarrow> ('t, 'm, symlink_error, unit) fs_call" where
  "np_symlink target linkpath = fail symlink_error.Io"

definition np_read_link :: "string \<Rightarrow> ('t, 'm, read_link_error, string) fs_call" where
  "np_read_link path = fail read_link_error.Io"

definition np_mkdir :: "'t connection \<Rightarrow> string \<Rightarrow> u32 \<Rightarrow> ('t, 'm, mkdir_error, unit) fs_call" where
  "np_mkdir k path m =
     andthen (np_absolute_path path) (\<lambda>path.
       map_err mkdir_error_of
         (andthen (walk_to_parent k path) (\<lambda>(parent_fid, name).
            attempt (on_client (client_mkdir k parent_fid (bytes_of name) m 0)) (\<lambda>r.
              attempt (on_client (clunk k parent_fid)) (\<lambda>_.
                case r of Inl e \<Rightarrow> fail e | Inr _ \<Rightarrow> ret ())))))"

section \<open>Directory listings\<close>

text \<open>
  \<^verbatim>\<open>String::from_utf8_lossy\<close>: one character at the front, or the bytes to be replaced by one mark. The length is that of the
  longest prefix that could begin a character; \<open>get\<close> is zero beyond the end.
\<close>

definition utf8_step :: "u8 list \<Rightarrow> bool \<times> nat" where
  "utf8_step bs =
     (let get = (\<lambda>i. if i < length bs then bs ! i else 0);
          b = get 0; b1 = get 1;
          cont = (\<lambda>i. get i AND 0xc0 = 0x80);
          between = (\<lambda>x lo hi. lo \<le> x \<and> x \<le> (hi :: u8))
      in if b < 0x80 then (True, 1)
         else if between b 0xc2 0xdf then if cont 1 then (True, 2) else (False, 1)
         else if between b 0xe0 0xef then
           if b = 0xe0 \<and> between b1 0xa0 0xbf \<or> between b 0xe1 0xec \<and> between b1 0x80 0xbf \<or>
              b = 0xed \<and> between b1 0x80 0x9f \<or> between b 0xee 0xef \<and> between b1 0x80 0xbf
           then if cont 2 then (True, 3) else (False, 2)
           else (False, 1)
         else if between b 0xf0 0xf4 then
           if b = 0xf0 \<and> between b1 0x90 0xbf \<or> between b 0xf1 0xf3 \<and> between b1 0x80 0xbf \<or> b = 0xf4 \<and> between b1 0x80 0x8f
           then if cont 2 then if cont 3 then (True, 4) else (False, 3) else (False, 2)
           else (False, 1)
         else (False, 1))"

lemma utf8_step_pos: "0 < snd (utf8_step bs)"
  by (simp add: utf8_step_def Let_def)

function from_utf8_lossy :: "u8 list \<Rightarrow> u8 list" where
  "from_utf8_lossy bs =
     (if bs = [] then []
      else
        let (ok, n) = utf8_step bs
        in (if ok then take n bs else [0xef, 0xbf, 0xbd]) @ from_utf8_lossy (drop n bs))"
  by auto
termination
proof (relation "measure length")
  fix bs :: "u8 list" and x ok n
  assume "bs \<noteq> []" and "x = utf8_step bs" and "(ok, n) = x"
  then have "0 < n" using utf8_step_pos [of bs] by (metis snd_conv)
  with \<open>bs \<noteq> []\<close> show "(drop n bs, bs) \<in> measure length" by (cases bs) auto
qed simp

declare from_utf8_lossy.simps [simp del]

definition string_of :: "u8 list \<Rightarrow> string" where
  "string_of bs = map (\<lambda>b. char_of (unat b)) bs"

definition np_dir_entry :: "dir_entry_9p \<Rightarrow> dir_entry" where
  "np_dir_entry e =
     \<lparr>de_name = string_of (from_utf8_lossy (e_name e)),
      de_file_type = (if e_typ e = QID_DIR then Directory else RegularFile),
      de_ino_info = Some \<lparr>dev = NP_DEVICE_ID, ino = unat (q_path (e_qid e)), rdev = None\<rparr>\<rparr>"

definition np_read_dir :: "'t connection \<Rightarrow> typed_fd \<Rightarrow> ('t, 'm, read_dir_error, dir_entry list) fs_call" where
  "np_read_dir k fd =
     with_descriptor k read_dir_error.ClosedFd fd (\<lambda>d.
       if q_typ (d9_qid d) AND QID_DIR \<noteq> QID_DIR then fail read_dir_error.NotADirectory
       else
         andthen (map_err read_dir_error_of (on_client (readdir_all k (d9_fid d)))) (\<lambda>entries.
           ret (map np_dir_entry entries)))"

text \<open>The end of the file system: a second handle of the root is clunked, then the first is dropped.\<close>

definition np_drop :: "'t connection \<Rightarrow> ('t, 'm, nine_p_error, unit) fs_call" where
  "np_drop k =
     look (\<lambda>w.
       attempt (on_client (modify (clone_handle (root_fid w))) :: ('t, 'm, nine_p_error, unit) fs_call) (\<lambda>_.
         attempt (on_client (clunk k (root_fid w))) (\<lambda>_. on_client (drop_fid k (root_fid w)))))"

end
