(* ===== verification/NinePRuns.thy ===== *)
theory NinePRuns
  imports NinePFs
begin

text \<open>
  Runs of the 9P file system. The handles of the client are those of the root and of the open files, one each; an operation
  takes what it needs and gives it back on every path, and so the server never holds a fid that the client takes
  for free.
\<close>

section \<open>The fids of the open files\<close>

definition owners :: "(np_descriptor, 'm) descriptors \<Rightarrow> nat \<Rightarrow> nat set" where
  "owners t i = {a. \<exists>b. (a, b) \<in> ran (view t) \<and> d9_fid (any_value b) = i}"

lemma view_same: "(a, b) \<in> ran (view t) \<Longrightarrow> (a, b') \<in> ran (view t) \<Longrightarrow> b = b'"
  by (auto simp: ran_def view_Some)

lemma denotes_owner: "denotes t fd = Some (a, d) \<Longrightarrow> a \<in> owners t (d9_fid d)"
  by (fastforce simp: denotes_def owners_def ran_def split: option.splits if_splits)

lemma finite_owners: "finite (owners t i)"
proof -
  have "dom (view t) \<subseteq> {..<length (entries t)}" by (auto simp: view_Some)
  then have "finite (dom (view t))" by (rule finite_subset) simp
  then have "finite (fst ` ran (view t))" by (simp add: finite_ran)
  then show ?thesis by (rule finite_subset [rotated]) (force simp: owners_def)
qed

lemma owners_insert:
  assumes "table_inv h t" and "view t' = (view t)(first_free (entries t) \<mapsto> (next_arc t, Any ty d))"
  shows "owners t' i = (if i = d9_fid d then insert (next_arc t) (owners t i) else owners t i)"
    and "next_arc t \<notin> owners t i"
proof -
  show "next_arc t \<notin> owners t i" using fresh_arc(4) [OF assms(1)] by (auto simp: owners_def ran_def)
  have "ran (view t') = insert (next_arc t, Any ty d) (ran (view t))"
    unfolding assms(2) using first_free_view(1) [OF assms(1)] by (rule ran_map_upd)
  then show "owners t' i = (if i = d9_fid d then insert (next_arc t) (owners t i) else owners t i)"
    by (auto simp: owners_def)
qed

text \<open>Removing the last descriptor of an entry takes its owner away; removing another one changes nothing.\<close>

lemma owners_remove:
  assumes "view t n = Some (a, b)" and "view t' = (view t)(n := None)"
  shows "owners t' i = (if (\<forall>j b. view t j = Some (a, b) \<longrightarrow> j = n) \<and> i = d9_fid (any_value b) then owners t i - {a} else owners t i)"
proof (cases "\<forall>j b. view t j = Some (a, b) \<longrightarrow> j = n")
  case True
  have r: "ran (view t') = ran (view t) - {(a, b)}"
  proof (rule set_eqI)
    fix x
    show "x \<in> ran (view t') \<longleftrightarrow> x \<in> ran (view t) - {(a, b)}"
      using True assms by (cases x) (auto simp: ran_def fun_upd_def, (metis option.inject prod.inject)+)
  qed
  have "(a, b') \<in> ran (view t) \<Longrightarrow> b' = b" for b' using assms(1) view_same [of a b' t b] by (auto simp: ran_def)
  then show ?thesis using True unfolding owners_def r by auto
next
  case False
  then obtain j b' where j: "view t j = Some (a, b')" "j \<noteq> n" by blast
  then have "b' = b" using assms(1) view_same [of a b' t b] by (auto simp: ran_def)
  have "x \<in> ran (view t')" if "x \<in> ran (view t)" for x
  proof -
    from that obtain l where l: "view t l = Some x" by (auto simp: ran_def)
    show ?thesis
    proof (cases "l = n")
      case True
      with l assms j \<open>b' = b\<close> have "view t' j = Some x" by simp
      then show ?thesis by (auto simp: ran_def)
    next
      case False
      with l assms(2) have "view t' l = Some x" by simp
      then show ?thesis by (auto simp: ran_def)
    qed
  qed
  moreover have "x \<in> ran (view t)" if "x \<in> ran (view t')" for x
    using that assms(2) by (auto simp: ran_def split: if_splits)
  ultimately have "ran (view t') = ran (view t)" by blast
  with False show ?thesis by (auto simp: owners_def)
qed

lemma owners_offset:
  assumes "table_inv h t" and "denotes t fd = Some (a, d)" and "with_entry_mut fd (\<lambda>d. ((), d\<lparr>d9_offset := off\<rparr>)) t = Done (x, t')"
  shows "table_inv h t' \<and> owners t' = owners t \<and> entries t' = entries t"
proof -
  obtain b where b: "view t (raw fd) = Some (a, b)" "d = any_value b"
    using assms(2) by (auto simp: denotes_def split: option.splits if_splits)
  have t': "table_inv h t'" "entries t' = entries t" and v: "view t' = (\<lambda>j. case view t j of
      Some (a', b) \<Rightarrow> Some (a', if a' = a then Any (subsystem fd) (d\<lparr>d9_offset := off\<rparr>) else b) | None \<Rightarrow> None)"
    using with_entry_mut_spec [OF assms(1,2), of "\<lambda>d. ((), d\<lparr>d9_offset := off\<rparr>)"] assms(3) unfolding snd_conv by auto
  have same: "any_value b' = d" if "view t j = Some (a, b')" for j b'
    using that b view_same [of a b' t b] by (auto simp: ran_def)
  have "c \<in> owners t' i \<longleftrightarrow> c \<in> owners t i" for c i
  proof
    assume "c \<in> owners t' i"
    then show "c \<in> owners t i" using same unfolding owners_def v ran_def
      by (fastforce split: option.splits if_splits)
  next
    assume "c \<in> owners t i"
    then obtain j b' where "view t j = Some (c, b')" "d9_fid (any_value b') = i" by (auto simp: owners_def ran_def)
    then have "view t' j = Some (c, if c = a then Any (subsystem fd) (d\<lparr>d9_offset := off\<rparr>) else b')"
      and "d9_fid (any_value (if c = a then Any (subsystem fd) (d\<lparr>d9_offset := off\<rparr>) else b')) = i"
      using same by (auto simp: v)
    then show "c \<in> owners t' i" by (auto simp: owners_def ran_def)
  qed
  with t' show ?thesis by auto
qed

section \<open>States between operations\<close>

text \<open>The handles there must be: one of the root and one of each open file.\<close>

definition owed :: "(nat \<Rightarrow> nat set) \<Rightarrow> nat \<Rightarrow> nat \<Rightarrow> nat" where
  "owed ow rf i = (if i = rf then 1 else 0) + card (ow i)"

definition frame :: "nat \<Rightarrow> (nat \<Rightarrow> nat set) \<Rightarrow> nat \<Rightarrow> ('t, 'm) nine_fs \<Rightarrow> bool" where
  "frame sz ow rf w \<longleftrightarrow> table_inv (\<lambda>_. 0) (np_table w) \<and> owners (np_table w) = ow \<and> length (entries (np_table w)) \<le> sz \<and>
      root_fid w = rf \<and> suffix ''/'' (np_cwd w) \<and> (\<forall>i. owed ow rf i \<le> 1)"

definition at :: "(nat \<Rightarrow> nat) \<Rightarrow> nat \<Rightarrow> (nat \<Rightarrow> nat set) \<Rightarrow> nat \<Rightarrow> ('t, 'm) nine_fs \<Rightarrow> bool" where
  "at h sz ow rf w \<longleftrightarrow> holding h (np_client w) \<and> frame sz ow rf w"

lemma frame_client [simp]: "frame sz ow rf (w\<lparr>np_client := c\<rparr>) = frame sz ow rf w"
  by (simp add: frame_def)

lemma triple_on_client:
  assumes "triple (holding h) m Q"
  shows "triple (at h sz ow rf) (on_client m) (\<lambda>r w. Q r (np_client w) \<and> frame sz ow rf w)"
  using assms by (fastforce simp: triple_def on_client_def at_def split: option.splits outcome.splits)

lemma triple_at: "triple (holding h) m (\<lambda>r. holding h') \<Longrightarrow> triple (at h sz ow rf) (on_client m) (\<lambda>r. at h' sz ow rf)"
  by (rule triple_weaken [OF triple_on_client]) (auto simp: at_def)

lemma absolute_path_spec: "triple (at h sz ow rf) (np_absolute_path p) (\<lambda>r w. (\<exists>q. r = Inr q) \<and> at h sz ow rf w)"
  unfolding np_absolute_path_def by (rule triple_look_keep) (auto simp: at_def frame_def intro!: triple_ret)

section \<open>What the operations do to the handles\<close>

text \<open>The result of a walk: one more handle, or the same ones.\<close>

definition walked ::
    "(nat \<Rightarrow> nat) \<Rightarrow> nat \<Rightarrow> (nat \<Rightarrow> nat set) \<Rightarrow> nat \<Rightarrow> ('a \<Rightarrow> nat) \<Rightarrow> 'e + 'a \<Rightarrow> ('t, 'm) nine_fs \<Rightarrow> bool" where
  "walked h sz ow rf g r w \<longleftrightarrow> (case r of Inl e \<Rightarrow> at h sz ow rf w | Inr x \<Rightarrow> h (g x) = 0 \<and> at (h(g x := 1)) sz ow rf w)"

lemma walked_simps [simp]:
  "walked h sz ow rf g (Inl e) w = at h sz ow rf w"
  "walked h sz ow rf g (Inr x) w \<longleftrightarrow> h (g x) = 0 \<and> at (h(g x := 1)) sz ow rf w"
  by (simp_all add: walked_def)

lemma walk_at: "triple (at h sz ow rf) (on_client (client_walk k i ws)) (walked h sz ow rf snd)"
  by (rule triple_weaken [OF triple_on_client [OF walk_spec [of h]]]) (auto simp: walked_def at_def split: sum.splits)

lemma clone_at: "triple (at h sz ow rf) (on_client (clone_fid k i)) (walked h sz ow rf (\<lambda>i. i))"
  by (rule triple_weaken [OF triple_on_client [OF clone_fid_spec [of h]]]) (auto simp: walked_def at_def split: sum.splits)

text \<open>The same handle under another name.\<close>

lemma walked_ret:
  assumes "triple (at h sz ow rf) m (walked h sz ow rf g)" and "\<And>x. g' (f x) = g x"
  shows "triple (at h sz ow rf) (andthen m (\<lambda>x. ret (f x))) (walked h sz ow rf g')"
  by (rule triple_andthen [OF assms(1)]) (auto simp: assms(2) intro!: triple_ret)

lemma walk_to_spec: "triple (at h sz ow rf) (walk_to k p) (walked h sz ow rf (\<lambda>i. i))"
  unfolding walk_to_def Let_def case_prod_unfold
  by (rule triple_look_keep) (auto intro!: walked_ret clone_at walk_at)

lemma walk_to_parent_spec: "triple (at h sz ow rf) (walk_to_parent k p) (walked h sz ow rf fst)"
proof (cases "normalized_components p = []")
  case True
  then show ?thesis by (auto simp: walk_to_parent_def intro: triple_fail)
next
  case False
  show ?thesis unfolding walk_to_parent_def Let_def case_prod_unfold if_not_P [OF False]
    by (rule triple_look_keep) (auto intro!: walked_ret clone_at walk_at)
qed

text \<open>The handle of a walk is given back whatever the request on it does.\<close>

lemma clunk_at:
  assumes "h i = 0"
  shows "triple (at (h(i := 1)) sz ow rf) (on_client (clunk k i)) (\<lambda>r. at h sz ow rf)"
proof -
  have "(h(i := 1))(i := (h(i := 1)) i - 1) = h" using assms by auto
  with clunk_spec [of "h(i := 1)" i k] show ?thesis by (intro triple_at) simp
qed

lemma triple_walked:
  assumes "triple (at h sz ow rf) m (walked h sz ow rf g)"
    and "\<And>x. h (g x) = 0 \<Longrightarrow> triple (at (h(g x := 1)) sz ow rf) (f x) (\<lambda>r. at h sz ow rf)"
  shows "triple (at h sz ow rf) (andthen m f) (\<lambda>r. at h sz ow rf)"
proof (rule triple_andthen [OF assms(1)])
  fix x
  show "triple (walked h sz ow rf g (Inr x)) (f x) (\<lambda>r. at h sz ow rf)"
    unfolding walked_simps by (rule triple_pure) (rule assms(2))
qed simp

lemma triple_ex: "(\<And>x. triple (P x) m Q) \<Longrightarrow> triple (\<lambda>s. \<exists>x. P x s) m Q"
  by (fastforce simp: triple_def)

lemma triple_then:
  assumes "triple P m (\<lambda>r. R)" and "\<And>r. triple R (f r) Q"
  shows "triple P (attempt m f) Q"
  by (rule triple_attempt [OF assms])

lemma triple_same: "triple P m (\<lambda>r. P) \<Longrightarrow> (\<And>x. triple P (f x) (\<lambda>r. P)) \<Longrightarrow> triple P (andthen m f) (\<lambda>r. P)"
  by (rule triple_andthen)

lemma triple_same_err: "triple P m (\<lambda>r. P) \<Longrightarrow> triple P (map_err g m) (\<lambda>r. P)"
  by (rule triple_map_err)

lemma absolute_path_same: "triple (at h sz ow rf) (np_absolute_path p) (\<lambda>r. at h sz ow rf)"
  by (rule triple_weaken [OF absolute_path_spec]) auto

lemma fall_back_spec:
  "triple (at h sz ow rf) (andthen (walk_to k p) (\<lambda>fid. on_client (client_remove k fid))) (\<lambda>r. at h sz ow rf)"
proof (rule triple_walked [OF walk_to_spec])
  fix i
  assume "h i = 0"
  then have "(h(i := 1))(i := (h(i := 1)) i - 1) = h" by auto
  with client_remove_spec [of "h(i := 1)" i k]
  show "triple (at (h(i := 1)) sz ow rf) (on_client (client_remove k i)) (\<lambda>r. at h sz ow rf)" by (intro triple_at) simp
qed

lemma on_path_spec:
  assumes "\<And>h i. triple (holding h) (f i) (\<lambda>r. holding h)"
  shows "triple (at h sz ow rf) (on_path k err p f) (\<lambda>r. at h sz ow rf)"
  unfolding on_path_def
  by (intro triple_same absolute_path_same triple_same_err triple_walked [OF walk_to_spec]
      triple_then [OF triple_at [OF assms]] triple_then [OF clunk_at] triple_of_result)

section \<open>Calls through a descriptor\<close>

abbreviation ready :: "nat \<Rightarrow> (nat \<Rightarrow> nat set) \<Rightarrow> nat \<Rightarrow> ('t, 'm) nine_fs \<Rightarrow> bool" where
  "ready sz ow rf \<equiv> at (owed ow rf) sz ow rf"

lemma put_offset_spec: "triple (at h sz ow rf) (put_offset fd off) (\<lambda>r. at h sz ow rf)"
  unfolding put_offset_def
proof (rule triple_step)
  fix w :: "('t, 'm) nine_fs"
  assume w: "at h sz ow rf w"
  then have inv: "table_inv (\<lambda>_. 0) (np_table w)" by (simp add: at_def frame_def)
  have "\<exists>x t. with_entry_mut fd (\<lambda>d. ((), d\<lparr>d9_offset := off\<rparr>)) (np_table w) = Done (x, t) \<and> table_inv (\<lambda>_. 0) t \<and>
      owners t = owners (np_table w) \<and> entries t = entries (np_table w)"
  proof (cases "denotes (np_table w) fd")
    case None
    then show ?thesis using with_entry_mut_none [OF inv] inv by blast
  next
    case (Some ad)
    obtain a d where ad: "ad = (a, d)" by force
    with Some with_entry_mut_spec [OF inv, of fd a d "\<lambda>d. ((), d\<lparr>d9_offset := off\<rparr>)"] owners_offset [OF inv, of fd a d off]
    show ?thesis by fastforce
  qed
  then show "\<exists>x s'. obind (with_entry_mut fd (\<lambda>d. ((), d\<lparr>d9_offset := off\<rparr>)) (np_table w))
      (\<lambda>(_, t). Done ((), w\<lparr>np_table := t\<rparr>)) = Done (x, s') \<and> at h sz ow rf s'"
    using w by (auto simp: at_def frame_def)
qed

lemma clone_handle_spec:
  assumes "0 < h i"
  shows "triple (holding h) (modify (clone_handle i)) (\<lambda>r. holding (h(i := h i + 1)))"
proof (rule triple_modify)
  fix c
  assume c: "holding h c"
  then have "live (clone_handle i c) = live c" using assms by (auto simp: live_def clone_handle_def)
  with c show "holding (h(i := h i + 1)) (clone_handle i c)" by (simp add: client_inv_def clone_handle_def)
qed

lemma with_descriptor_spec:
  assumes f: "\<And>d h. triple (at h sz ow rf) (f d) (\<lambda>r. at h sz ow rf)"
  shows "triple (ready sz ow rf) (with_descriptor k e fd f) (\<lambda>r. ready sz ow rf)"
  unfolding with_descriptor_def
proof (rule triple_look_keep)
  fix w :: "('a, 'b) nine_fs"
  assume w: "ready sz ow rf w"
  then have inv: "table_inv (\<lambda>_. 0) (np_table w)" and ow: "owners (np_table w) = ow" by (simp_all add: at_def frame_def)
  show "triple (ready sz ow rf) (case with_entry fd (\<lambda>d. d) (np_table w) of
         Panic \<Rightarrow> panics
       | Done None \<Rightarrow> fail e
       | Done (Some d) \<Rightarrow>
           attempt (on_client (modify (clone_handle (d9_fid d))) :: ('a, 'b, 'c, unit) fs_call) (\<lambda>_.
             attempt (f d) (\<lambda>r. attempt (on_client (drop_fid k (d9_fid d))) (\<lambda>_. of_result r)))) (\<lambda>r. ready sz ow rf)"
  proof (cases "denotes (np_table w) fd")
    case None
    then show ?thesis by (simp add: with_entry_spec [OF inv] triple_fail)
  next
    case (Some ad)
    obtain a d where ad: "ad = (a, d)" by force
    let ?i = "d9_fid d"
    let ?h = "owed ow rf"
    have "a \<in> owners (np_table w) ?i"
      using Some ad by (simp add: denotes_owner)
    then have pos: "0 < ?h ?i" using finite_owners [of "np_table w" ?i] ow by (auto simp: owed_def card_gt_0_iff)
    let ?h' = "?h(?i := ?h ?i + 1)"
    have restored: "?h'(?i := ?h' ?i - 1) = ?h" by auto
    have "triple (holding ?h') (drop_fid k ?i) (\<lambda>r. holding (?h'(?i := ?h' ?i - 1)))"
      by (rule triple_weaken [OF drop_fid_spec [where h = ?h' and i = ?i]]) (use pos in auto)
    then have drop: "triple (at ?h' sz ow rf) (on_client (drop_fid k ?i)) (\<lambda>r. ready sz ow rf)"
      unfolding restored by (rule triple_at)
    show ?thesis using Some ad
      by (simp add: with_entry_spec [OF inv])
        (rule triple_then [OF triple_at [OF clone_handle_spec [where h = ?h and i = ?i, OF pos]]],
         rule triple_then [OF f], rule triple_then [OF drop], rule triple_of_result)
  qed
qed

lemma read_write_specs:
  "triple (ready sz ow rf) (np_read k fd n off) (\<lambda>r. ready sz ow rf)"
  "triple (ready sz ow rf) (np_write k fd buf off) (\<lambda>r. ready sz ow rf)"
  unfolding np_read_def np_write_def
  by (rule with_descriptor_spec, cases off;
      auto split: option.split intro!: triple_same_err triple_at data_specs triple_same put_offset_spec triple_fail triple_ret)+

lemma attribute_specs:
  "triple (ready sz ow rf) (np_seek k fd o' wh) (\<lambda>r. ready sz ow rf)"
  "triple (ready sz ow rf) (np_truncate k fd n b) (\<lambda>r. ready sz ow rf)"
  "triple (ready sz ow rf) (np_chmod_fd k fd md) (\<lambda>r. ready sz ow rf)"
  "triple (ready sz ow rf) (np_fd_file_status k fd) (\<lambda>r. ready sz ow rf)"
  "triple (ready sz ow rf) (np_read_dir k fd) (\<lambda>r. ready sz ow rf)"
  unfolding np_seek_def np_truncate_def np_chmod_fd_def np_fd_file_status_def np_read_dir_def
  by (rule with_descriptor_spec,
      auto split: seek_whence.split option.split prod.split
        intro!: triple_same_err triple_at request_specs readdir_all_spec triple_same put_offset_spec triple_fail triple_ret triple_of_result)+

lemma path_specs:
  "triple (at h sz ow rf) (np_chmod k p md) (\<lambda>r. at h sz ow rf)"
  "triple (at h sz ow rf) (np_chown k p u g) (\<lambda>r. at h sz ow rf)"
  "triple (at h sz ow rf) (np_set_times k p at' mt) (\<lambda>r. at h sz ow rf)"
  unfolding np_chmod_def np_chown_def np_set_times_def
  by (rule on_path_spec, rule request_specs)+

lemma file_status_spec: "triple (at h sz ow rf) (np_file_status k p) (\<lambda>r. at h sz ow rf)"
  unfolding np_file_status_def
  by (intro triple_same absolute_path_same triple_same_err triple_walked [OF walk_to_spec]
      triple_then [OF triple_at [OF request_specs(2)]] triple_then [OF clunk_at])
    (auto split: sum.split intro: triple_fail triple_of_result)

lemma mkdir_spec: "triple (at h sz ow rf) (np_mkdir k p md) (\<lambda>r. at h sz ow rf)"
  unfolding np_mkdir_def split_def
  by (intro triple_same absolute_path_same triple_same_err triple_walked [OF walk_to_parent_spec]
      triple_then [OF triple_at [OF request_specs(4)]] triple_then [OF clunk_at])
    (auto split: sum.split intro: triple_fail triple_ret)

lemma unsupported_spec: "triple (at h sz ow rf) (modify (\<lambda>w. w\<lparr>unlinkat_supported := False\<rparr>)) (\<lambda>r. at h sz ow rf)"
  by (rule triple_modify) (simp add: at_def frame_def)

lemma remove_file_or_dir_spec: "triple (at h sz ow rf) (remove_file_or_dir k p b) (\<lambda>r. at h sz ow rf)"
  unfolding remove_file_or_dir_def Let_def split_def
proof (intro triple_same absolute_path_same triple_look_keep)
  fix q w
  show "triple (at h sz ow rf) (if unlinkat_supported w then
      andthen (walk_to_parent k q) (\<lambda>x.
        attempt (on_client (client_unlinkat k (fst x) (bytes_of (snd x)) (if b then 0 else 0x200))) (\<lambda>r.
          attempt (on_client (clunk k (fst x))) (\<lambda>_.
            if r = Inl (Remote E_NOSYS) \<or> r = Inl (Remote E_OPNOTSUPP)
            then andthen (modify (\<lambda>w. w\<lparr>unlinkat_supported := False\<rparr>)) (\<lambda>_. andthen (walk_to k q) (\<lambda>fid. on_client (client_remove k fid)))
            else of_result r)))
      else andthen (walk_to k q) (\<lambda>fid. on_client (client_remove k fid))) (\<lambda>r. at h sz ow rf)"
    by (auto intro!: fall_back_spec triple_walked [OF walk_to_parent_spec] triple_then [OF triple_at [OF request_specs(5)]]
        triple_then [OF clunk_at] triple_same unsupported_spec triple_of_result)
qed

lemma remove_specs:
  "triple (at h sz ow rf) (np_unlink k p) (\<lambda>r. at h sz ow rf)"
  "triple (at h sz ow rf) (np_rmdir k p) (\<lambda>r. at h sz ow rf)"
  unfolding np_unlink_def np_rmdir_def by (rule triple_same_err, rule remove_file_or_dir_spec)+


section \<open>Opening and closing\<close>

lemma create_at:
  assumes "h i = 0"
  shows "triple (at (h(i := 1)) sz ow rf) (on_client (client_create k i name fl md g)) (walked h sz ow rf snd)"
proof -
  have "(h(i := 1))(i := (h(i := 1)) i - 1) = h" using assms by auto
  with triple_on_client [OF client_create_spec [of "h(i := 1)" i k name fl md g], of sz ow rf] assms show ?thesis
    by simp (erule triple_weaken, auto simp: walked_def at_def split: sum.splits)
qed

lemma opened_spec:
  "names \<noteq> [] \<Longrightarrow> triple (at h sz ow rf) (open_created k names lf md) (walked h sz ow rf snd)"
  "triple (at h sz ow rf) (open_walked k names lf) (walked h sz ow rf snd)"
proof -
  assume names: "names \<noteq> []"
  show "triple (at h sz ow rf) (open_created k names lf md) (walked h sz ow rf snd)"
    unfolding open_created_def if_not_P [OF names] split_def
  proof (intro triple_look_keep triple_andthen [OF walk_at])
    fix x :: "qid list \<times> nat"
    show "triple (walked h sz ow rf snd (Inr x)) (on_client (client_create k (snd x) (bytes_of (last names)) lf md 0)) (walked h sz ow rf snd)"
      unfolding walked_simps by (rule triple_pure) (rule create_at)
  qed simp
next
  show "triple (at h sz ow rf) (open_walked k names lf) (walked h sz ow rf snd)"
    unfolding open_walked_def split_def
  proof (intro triple_look_keep triple_andthen [OF walk_at])
    fix x :: "qid list \<times> nat"
    show "triple (walked h sz ow rf snd (Inr x)) (attempt (on_client (client_open k (snd x) lf)) (\<lambda>r.
        case r of Inr q \<Rightarrow> ret (q, snd x) | Inl e \<Rightarrow> attempt (on_client (clunk k (snd x))) (\<lambda>_. fail e))) (walked h sz ow rf snd)"
      unfolding walked_simps
    proof (rule triple_pure, rule triple_then [OF triple_at [OF request_specs(1)]])
      fix r :: "nine_p_error + qid"
      assume h: "h (snd x) = 0"
      show "triple (at (h(snd x := 1)) sz ow rf) (case r of Inr q \<Rightarrow> ret (q, snd x) |
          Inl e \<Rightarrow> attempt (on_client (clunk k (snd x))) (\<lambda>_. fail e)) (walked h sz ow rf snd)"
      proof (cases r)
        case (Inl e)
        then show ?thesis by simp (rule triple_then [OF clunk_at [where h = h and i = "snd x", OF h, unfolded One_nat_def]], rule triple_fail, simp)
      qed (use h in \<open>auto intro!: triple_ret\<close>)
    qed
  qed simp
qed

lemma insert_spec:
  assumes "owed ow rf (d9_fid d) = 0" and "sz \<le> u32_max"
  shows "triple (at ((owed ow rf)(d9_fid d := 1)) sz ow rf)
    (step (\<lambda>w. obind (insert_fd ty d (np_table w)) (\<lambda>(fd, t). Done (fd, w\<lparr>np_table := t\<rparr>)))) (\<lambda>r w. \<exists>ow'. ready (Suc sz) ow' rf w)"
proof (rule triple_step)
  fix w :: "('a, 'b) nine_fs"
  let ?i = "d9_fid d"
  assume w: "at ((owed ow rf)(?i := 1)) sz ow rf w"
  then have inv: "table_inv (\<lambda>_. 0) (np_table w)" and ow: "owners (np_table w) = ow" and len: "length (entries (np_table w)) \<le> sz"
    by (simp_all add: at_def frame_def)
  have "first_free (entries (np_table w)) \<le> u32_max"
    using first_free_le [of "entries (np_table w)"] len assms(2) by linarith
  from insert_fd_spec [OF inv this, of ty d] obtain fd t where t: "insert_fd ty d (np_table w) = Done (fd, t)" "table_inv (\<lambda>_. 0) t"
    "view t = (view (np_table w))(first_free (entries (np_table w)) \<mapsto> (next_arc (np_table w), Any ty d))"
    "length (entries t) \<le> Suc (length (entries (np_table w)))" by blast
  have "owed (owners t) rf = (owed ow rf)(?i := 1)"
  proof
    fix j
    show "owed (owners t) rf j = ((owed ow rf)(?i := 1)) j"
      using owners_insert [OF inv t(3), of j] finite_owners [of "np_table w" j] assms(1) ow
      by (auto simp: owed_def split: if_splits)
  qed
  then have "ready (Suc sz) (owners t) rf (w\<lparr>np_table := t\<rparr>)" using w t(2,4) len by (auto simp: at_def frame_def)
  with t(1) show "\<exists>x s'. obind (insert_fd ty d (np_table w)) (\<lambda>(fd, t). Done (fd, w\<lparr>np_table := t\<rparr>)) = Done (x, s') \<and>
      (\<exists>ow'. ready (Suc sz) ow' rf s')" by auto
qed

lemma ready_mono: "ready sz ow rf w \<Longrightarrow> sz \<le> sz' \<Longrightarrow> ready sz' ow rf w"
  by (auto simp: at_def frame_def)

text \<open>The path of the root has no components, and creating it is the one call that does not come back.\<close>

definition creates_root :: "string \<Rightarrow> string \<Rightarrow> u32 \<Rightarrow> bool" where
  "creates_root cwd path flags \<longleftrightarrow> contains flags O_CREAT \<and> (flags AND NOT O_NONBLOCK) AND NOT np_supported_oflags = 0 \<and>
     normalized_components (if starts_with_slash path then normalized path else normalized (cwd @ path)) = []"

lemma open_spec:
  assumes "sz \<le> u32_max"
  shows "triple (\<lambda>w. ready sz ow rf w \<and> \<not> creates_root (np_cwd w) path flags) (np_open k ty path flags md) (\<lambda>r w. \<exists>ow'. ready (Suc sz) ow' rf w)"
proof (cases "(flags AND NOT O_NONBLOCK) AND NOT np_supported_oflags = 0")
  case False
  then show ?thesis unfolding np_open_def Let_def using ready_mono [where sz = sz and sz' = "Suc sz"] by (auto intro!: triple_fail exI [of _ ow])
next
  case True
  let ?fl = "flags AND NOT O_NONBLOCK"
  have cr: "contains ?fl O_CREAT = contains flags O_CREAT" unfolding contains_def O_CREAT_def O_NONBLOCK_def
    by (simp add: and.assoc)
  show ?thesis unfolding np_open_def Let_def True simp_thms if_False
  proof (rule triple_andthen [where R = "\<lambda>r w. \<exists>p. r = Inr p \<and> (contains flags O_CREAT \<longrightarrow> normalized_components p \<noteq> []) \<and> ready sz ow rf w"])
    show "triple (\<lambda>w. ready sz ow rf w \<and> \<not> creates_root (np_cwd w) path flags) (np_absolute_path path)
        (\<lambda>r w. \<exists>p. r = Inr p \<and> (contains flags O_CREAT \<longrightarrow> normalized_components p \<noteq> []) \<and> ready sz ow rf w)"
      unfolding np_absolute_path_def
      by (rule triple_look) (use True in \<open>auto simp: at_def frame_def creates_root_def intro!: triple_ret\<close>)
  next
    fix p
    show "triple (\<lambda>w. \<exists>p'. Inr p = Inr p' \<and> (contains flags O_CREAT \<longrightarrow> normalized_components p' \<noteq> []) \<and> ready sz ow rf w)
        (andthen (map_err open_error_of (if contains ?fl O_CREAT then open_created k (normalized_components p) (oflags_to_lopen ?fl) md
            else open_walked k (normalized_components p) (oflags_to_lopen ?fl))) (\<lambda>(q, fid).
          step (\<lambda>w. obind (insert_fd ty \<lparr>d9_fid = fid, d9_offset = 0, d9_qid = q\<rparr> (np_table w)) (\<lambda>(fd, t). Done (fd, w\<lparr>np_table := t\<rparr>)))))
        (\<lambda>r w. \<exists>ow'. ready (Suc sz) ow' rf w)"
      unfolding cr sum.inject ex_simps simp_thms
    proof (rule triple_pure, rule triple_andthen [OF triple_map_err, where R = "walked (owed ow rf) sz ow rf snd"])
      assume "contains flags O_CREAT \<longrightarrow> normalized_components p \<noteq> []"
      then show "triple (ready sz ow rf) (if contains flags O_CREAT then open_created k (normalized_components p) (oflags_to_lopen ?fl) md
            else open_walked k (normalized_components p) (oflags_to_lopen ?fl)) (walked (owed ow rf) sz ow rf snd)"
        by (simp add: opened_spec)
    next
      fix x :: "qid \<times> nat"
      have "triple (at ((owed ow rf)(snd x := 1)) sz ow rf)
          (step (\<lambda>w. obind (insert_fd ty \<lparr>d9_fid = snd x, d9_offset = 0, d9_qid = fst x\<rparr> (np_table w)) (\<lambda>(fd, t). Done (fd, w\<lparr>np_table := t\<rparr>))))
          (\<lambda>r w. \<exists>ow'. ready (Suc sz) ow' rf w)" if "owed ow rf (snd x) = 0"
        using insert_spec [where ow = ow and rf = rf and d = "\<lparr>d9_fid = snd x, d9_offset = 0, d9_qid = fst x\<rparr>"] that assms by simp
      then show "triple (walked (owed ow rf) sz ow rf snd (Inr x)) (case x of (q, fid) \<Rightarrow>
          step (\<lambda>w. obind (insert_fd ty \<lparr>d9_fid = fid, d9_offset = 0, d9_qid = q\<rparr> (np_table w)) (\<lambda>(fd, t). Done (fd, w\<lparr>np_table := t\<rparr>))))
          (\<lambda>r w. \<exists>ow'. ready (Suc sz) ow' rf w)"
        unfolding walked_simps split_def by (rule triple_pure)
    qed (use ready_mono [where sz = sz and sz' = "Suc sz"] in auto)
  qed simp
qed

text \<open>Removing a descriptor of an open file takes its handle away when it is the last one.\<close>

lemma owed_remove:
  assumes d: "denotes t fd = Some (a, d)" and t': "view t' = (view t)(raw fd := None)" and one: "\<And>i. owed (owners t) rf i \<le> 1"
  defines "lst \<equiv> \<forall>j b. view t j = Some (a, b) \<longrightarrow> j = raw fd"
  shows "owed (owners t) rf = (if lst then (owed (owners t') rf)(d9_fid d := 1) else owed (owners t') rf)"
    and "lst \<Longrightarrow> owed (owners t') rf (d9_fid d) = 0" and "owed (owners t') rf i \<le> 1"
proof -
  let ?i = "d9_fid d"
  obtain b where b: "view t (raw fd) = Some (a, b)" "d = any_value b"
    using d by (auto simp: denotes_def split: option.splits if_splits)
  have own: "owners t' i = (if lst \<and> i = ?i then owners t i - {a} else owners t i)" for i
    using owners_remove [OF b(1) t', of i] unfolding b(2) lst_def .
  have "0 < card (owners t ?i)" using denotes_owner [OF d] finite_owners [of t ?i] by (auto simp: card_gt_0_iff)
  then have h: "owed (owners t) rf ?i = 1" and c: "card (owners t ?i) = 1" and r: "?i \<noteq> rf"
    using one [of ?i] by (auto simp: owed_def split: if_splits)
  have owd: "owed (owners t') rf i = (if lst \<and> i = ?i then 0 else owed (owners t) rf i)" for i
    using own [of i] c r denotes_owner [OF d] by (auto simp: owed_def)
  show "owed (owners t) rf = (if lst then (owed (owners t') rf)(d9_fid d := 1) else owed (owners t') rf)"
    using owd h by (auto simp: fun_eq_iff)
  show "lst \<Longrightarrow> owed (owners t') rf (d9_fid d) = 0" and "owed (owners t') rf i \<le> 1" using owd one by auto
qed

lemma kept_spec: "triple (ready sz ow rf) (ret x) (\<lambda>r w. \<exists>ow. ready sz ow rf w)"
  by (rule triple_ret, rule exI)

lemma clunked_spec:
  assumes "owed ow rf i = 0"
  shows "triple (at ((owed ow rf)(i := 1)) sz ow rf) (attempt (on_client (clunk k i)) (\<lambda>_. ret x)) (\<lambda>r w. \<exists>ow. ready sz ow rf w)"
  by (rule triple_then [OF clunk_at [where h = "owed ow rf", OF assms]], rule triple_ret, rule exI)

lemma close_spec:
  "triple (\<lambda>w. ready sz ow rf w \<and> (closed fd \<or> denotes (np_table w) fd \<noteq> None)) (np_close k fd) (\<lambda>r w. \<exists>ow'. ready sz ow' rf w)"
  unfolding np_close_def
proof (rule triple_attempt [where R = "\<lambda>r w. \<exists>d fd'. r = Inr (d, fd') \<and> (\<exists>ow'. case d of None \<Rightarrow> ready sz ow' rf w |
    Some d \<Rightarrow> owed ow' rf (d9_fid d) = 0 \<and> at ((owed ow' rf)(d9_fid d := 1)) sz ow' rf w)"], rule triple_step)
  fix w :: "('a, 'b) nine_fs"
  assume "ready sz ow rf w \<and> (closed fd \<or> denotes (np_table w) fd \<noteq> None)"
  then have w: "ready sz ow rf w" and d: "closed fd \<or> denotes (np_table w) fd \<noteq> None" by auto
  from w have inv: "table_inv (\<lambda>_. 0) (np_table w)" and ow: "owners (np_table w) = ow" and one: "owed ow rf i \<le> 1" for i
    by (simp_all add: at_def frame_def)
  show "\<exists>x s'. obind (remove_fd fd (np_table w)) (\<lambda>(e, fd', t). Done ((e, fd'), w\<lparr>np_table := t\<rparr>)) = Done (x, s') \<and>
      (\<exists>d fd'. Inr x = Inr (d, fd') \<and> (\<exists>ow'. case d of None \<Rightarrow> ready sz ow' rf s' |
        Some d \<Rightarrow> owed ow' rf (d9_fid d) = 0 \<and> at ((owed ow' rf)(d9_fid d := 1)) sz ow' rf s'))"
  proof (cases "closed fd")
    case True
    then show ?thesis using w remove_fd_none [OF inv, of fd] by auto
  next
    case False
    then obtain a d where d: "denotes (np_table w) fd = Some (a, d)" using d by auto
    then obtain b where b: "view (np_table w) (raw fd) = Some (a, b)" "d = any_value b" "any_type b = subsystem fd"
      by (auto simp: denotes_def split: option.splits if_splits)
    let ?last = "\<forall>j b. view (np_table w) j = Some (a, b) \<longrightarrow> j = raw fd"
    let ?i = "d9_fid d"
    obtain t where t: "remove_fd fd (np_table w) = Done (if ?last then Some d else None, fd\<lparr>closed := True\<rparr>, t)"
      "table_inv (\<lambda>_. 0) t" "view t = (view (np_table w))(raw fd := None)"
      using remove_fd_last [OF inv d] by auto
    have len: "length (entries t) = length (entries (np_table w))"
      using remove_fd_spec [OF inv False b(1,3)] t(1) by auto
    note o = owed_remove [OF d t(3), unfolded ow, OF one]
    have fr: "frame sz (owners t) rf (w\<lparr>np_table := t\<rparr>)"
      using w t(2) len o(3) by (auto simp: at_def frame_def)
    have cl: "holding (owed ow rf) (np_client w)" using w by (simp add: at_def)
    show ?thesis
    proof (cases ?last)
      case True
      then have "owed (owners t) rf ?i = 0" and "at ((owed (owners t) rf)(?i := 1)) sz (owners t) rf (w\<lparr>np_table := t\<rparr>)"
        using o(2) fr cl unfolding o(1) by (simp_all add: at_def)
      then show ?thesis using t(1) True by auto
    next
      case False
      then have "ready sz (owners t) rf (w\<lparr>np_table := t\<rparr>)" using fr cl unfolding o(1) if_not_P [OF False] by (simp add: at_def)
      then show ?thesis using t(1) False by auto
    qed
  qed
next
  fix r :: "unit + np_descriptor option \<times> typed_fd"
  show "triple (\<lambda>w. \<exists>d fd'. r = Inr (d, fd') \<and> (\<exists>ow'. case d of None \<Rightarrow> ready sz ow' rf w |
      Some d \<Rightarrow> owed ow' rf (d9_fid d) = 0 \<and> at ((owed ow' rf)(d9_fid d := 1)) sz ow' rf w))
    (case r of Inl _ \<Rightarrow> panics | Inr (None, fd') \<Rightarrow> ret fd' | Inr (Some d, fd') \<Rightarrow> attempt (on_client (clunk k (d9_fid d))) (\<lambda>_. ret fd'))
    (\<lambda>r w. \<exists>ow'. ready sz ow' rf w)"
    by (cases r) (auto simp del: One_nat_def split: option.split intro!: triple_false triple_ex triple_pure clunked_spec kept_spec)
qed

section \<open>Renaming\<close>

lemma drop_fid_safe: "0 < h i \<Longrightarrow> triple (holding h) (drop_fid k i) (\<lambda>r c. True)"
  unfolding drop_fid_def
proof (rule triple_step)
  fix c :: "'a client"
  assume "0 < h i" and "holding h c"
  then have "i \<in> used_ids (fids c)" "pool_inv (fids c)" by (auto simp: client_inv_def live_def)
  then obtain p where "recycle (debug k) i (fids c) = Done p" using recycle_eq [of "fids c" i "debug k"] by blast
  then show "\<exists>x s'. (let c = c\<lparr>handles := (handles c)(i := handles c i - 1)\<rparr>
      in if handles c i = 0 then obind (recycle (debug k) i (fids c)) (\<lambda>p. Done ((), c\<lparr>fids := p\<rparr>)) else Done ((), c)) = Done (x, s') \<and> True"
    by (auto simp: Let_def)
qed

text \<open>
  A rename gives its two handles back, unless the directory of the new name cannot be reached: the handle of the old
  name is then dropped, and its fid is free again while the server still holds it.
\<close>

lemma rename_spec: "triple (at h sz ow rf) (np_rename k p q) (\<lambda>r w. r = Inr () \<longrightarrow> at h sz ow rf w)"
  unfolding np_rename_def split_def
proof (rule triple_andthen [OF absolute_path_same], rule triple_andthen [OF absolute_path_same], rule triple_map_err,
    rule triple_look_keep, rule triple_andthen [OF walk_at])
  fix src dst :: string and x :: "qid list \<times> nat"
  let ?i = "snd x"
  show "triple (walked h sz ow rf snd (Inr x)) (attempt (walk_to_parent k dst) (\<lambda>r. case r of
      Inl e \<Rightarrow> attempt (on_client (drop_fid k ?i)) (\<lambda>_. fail e)
    | Inr y \<Rightarrow> attempt (on_client (client_rename k ?i (fst y) (bytes_of (snd y)))) (\<lambda>r. attempt (on_client (clunk k ?i)) (\<lambda>_.
        attempt (on_client (clunk k (fst y))) (\<lambda>_. of_result r))))) (\<lambda>r w. r = Inr () \<longrightarrow> at h sz ow rf w)"
    unfolding walked_simps
  proof (rule triple_pure, rule triple_attempt [OF walk_to_parent_spec])
    assume h: "h ?i = 0"
    fix r :: "nine_p_error + nat \<times> string"
    let ?h = "h(?i := 1)"
    show "triple (walked ?h sz ow rf fst r) (case r of Inl e \<Rightarrow> attempt (on_client (drop_fid k ?i)) (\<lambda>_. fail e)
      | Inr y \<Rightarrow> attempt (on_client (client_rename k ?i (fst y) (bytes_of (snd y)))) (\<lambda>r. attempt (on_client (clunk k ?i)) (\<lambda>_.
          attempt (on_client (clunk k (fst y))) (\<lambda>_. of_result r)))) (\<lambda>r w. r = Inr () \<longrightarrow> at h sz ow rf w)"
    proof (cases r)
      case (Inl e)
      have "triple (at ?h sz ow rf) (on_client (drop_fid k ?i)) (\<lambda>r w. frame sz ow rf w)"
        by (rule triple_weaken [OF triple_on_client [OF drop_fid_safe]]) auto
      then show ?thesis unfolding Inl sum.case walked_simps(1) [abs_def] by (rule triple_then) (rule triple_fail, simp)
    next
      case (Inr y)
      let ?j = "fst y"
      have one: "triple (at (?h(?j := 1)) sz ow rf) (on_client (clunk k ?i)) (\<lambda>r. at (h(?j := 1)) sz ow rf)"
        and two: "triple (at (h(?j := 1)) sz ow rf) (on_client (clunk k ?j)) (\<lambda>r. at h sz ow rf)" if "?h ?j = 0"
      proof -
        have "?i \<noteq> ?j" and "h ?j = 0" using that by (auto split: if_splits)
        then show "triple (at (h(?j := 1)) sz ow rf) (on_client (clunk k ?j)) (\<lambda>r. at h sz ow rf)" by (intro clunk_at)
        have "(h(?j := 1)) ?i = 0" using h \<open>?i \<noteq> ?j\<close> by simp
        moreover have "?h(?j := 1) = (h(?j := 1))(?i := 1)" using \<open>?i \<noteq> ?j\<close> by auto
        ultimately show "triple (at (?h(?j := 1)) sz ow rf) (on_client (clunk k ?i)) (\<lambda>r. at (h(?j := 1)) sz ow rf)"
          by (simp add: clunk_at del: fun_upd_apply One_nat_def)
      qed
      show ?thesis unfolding Inr sum.case walked_simps
        by (rule triple_pure, rule triple_then [OF triple_at [OF request_specs(6)]], rule triple_then [OF one], assumption,
            rule triple_then [OF two], assumption, rule triple_of_result) simp
    qed
  qed
qed auto

section \<open>Runs\<close>

datatype np_call =
    NOpen type_id string u32 u32
  | NClose typed_fd
  | NRead typed_fd nat "nat option"
  | NWrite typed_fd "u8 list" "nat option"
  | NSeek typed_fd int seek_whence
  | NTruncate typed_fd nat bool
  | NChmodFd typed_fd u32
  | NFdStatus typed_fd
  | NReadDir typed_fd
  | NChmod string u32
  | NChown string "u16 option" "u16 option"
  | NSetTimes string "timestamp option" "timestamp option"
  | NStatus string
  | NMkdir string u32
  | NUnlink string
  | NRmdir string
  | NRename string string

text \<open>Whether a call succeeds; its value and its error are left out.\<close>

definition finished :: "('s, 'e, 'a) call \<Rightarrow> ('s, unit, bool) call" where
  "finished m = attempt m (\<lambda>r. ret (case r of Inl _ \<Rightarrow> False | Inr _ \<Rightarrow> True))"

fun np_step :: "'t connection \<Rightarrow> np_call \<Rightarrow> ('t, 'm, unit, bool) fs_call" where
  "np_step k (NOpen ty p fl m) = finished (np_open k ty p fl m)"
| "np_step k (NClose fd) = finished (np_close k fd)"
| "np_step k (NRead fd n off) = finished (np_read k fd n off)"
| "np_step k (NWrite fd buf off) = finished (np_write k fd buf off)"
| "np_step k (NSeek fd off wh) = finished (np_seek k fd off wh)"
| "np_step k (NTruncate fd n b) = finished (np_truncate k fd n b)"
| "np_step k (NChmodFd fd m) = finished (np_chmod_fd k fd m)"
| "np_step k (NFdStatus fd) = finished (np_fd_file_status k fd)"
| "np_step k (NReadDir fd) = finished (np_read_dir k fd)"
| "np_step k (NChmod p m) = finished (np_chmod k p m)"
| "np_step k (NChown p u g) = finished (np_chown k p u g)"
| "np_step k (NSetTimes p a m) = finished (np_set_times k p a m)"
| "np_step k (NStatus p) = finished (np_file_status k p)"
| "np_step k (NMkdir p m) = finished (np_mkdir k p m)"
| "np_step k (NUnlink p) = finished (np_unlink k p)"
| "np_step k (NRmdir p) = finished (np_rmdir k p)"
| "np_step k (NRename p q) = finished (np_rename k p q)"

text \<open>
  A descriptor is an owned value: the caller closes one that it has, or one that is closed already. A file is opened
  while there is a descriptor left, and the root is not created.
\<close>

fun np_allowed :: "('t, 'm) nine_fs \<Rightarrow> np_call \<Rightarrow> bool" where
  "np_allowed w (NOpen ty p fl m) \<longleftrightarrow> length (entries (np_table w)) \<le> u32_max \<and> \<not> creates_root (np_cwd w) p fl"
| "np_allowed w (NClose fd) \<longleftrightarrow> closed fd \<or> denotes (np_table w) fd \<noteq> None"
| "np_allowed w _ \<longleftrightarrow> True"

fun renames :: "np_call \<Rightarrow> bool" where
  "renames (NRename p q) = True"
| "renames _ = False"

text \<open>The states of a file system that starts with no open file, up to the first rename that fails.\<close>

inductive np_reach :: "'t connection \<Rightarrow> ('t, 'm) nine_fs \<Rightarrow> bool" for k where
  start: "np_new k t tr sz name path = Some (Done (Inr w)) \<Longrightarrow> table_inv (\<lambda>_. 0) t \<Longrightarrow> view t = Map.empty \<Longrightarrow> np_reach k w"
| call: "np_reach k w \<Longrightarrow> np_allowed w c \<Longrightarrow> np_step k c w = Some (Done (Inr ok, w')) \<Longrightarrow> (renames c \<Longrightarrow> ok) \<Longrightarrow> np_reach k w'"

definition np_ok :: "('t, 'm) nine_fs \<Rightarrow> bool" where
  "np_ok w \<longleftrightarrow> (\<exists>ow rf. ready (length (entries (np_table w))) ow rf w)"

lemma np_okI: "ready sz ow rf w \<Longrightarrow> np_ok w"
  by (auto simp: np_ok_def at_def frame_def)

lemma triple_finished:
  assumes "triple P m (\<lambda>r s. (case r of Inl _ \<Rightarrow> False | Inr _ \<Rightarrow> True) \<or> b \<longrightarrow> Q s)"
  shows "triple P (finished m) (\<lambda>r s. \<exists>ok. r = Inr ok \<and> (ok \<or> b \<longrightarrow> Q s))"
  unfolding finished_def by (rule triple_attempt [OF assms]) (auto intro!: triple_ret split: sum.splits)

lemmas np_specs = read_write_specs attribute_specs path_specs file_status_spec mkdir_spec remove_specs

lemma np_step_spec:
  "triple (\<lambda>w. np_ok w \<and> np_allowed w c) (np_step k c) (\<lambda>r w. \<exists>ok. r = Inr ok \<and> (ok \<or> \<not> renames c \<longrightarrow> np_ok w))"
proof -
  define sz :: "('a, 'b) nine_fs \<Rightarrow> nat" where "sz = (\<lambda>w. length (entries (np_table w)))"
  have "triple (\<lambda>w. (ready n ow rf w \<and> np_allowed w c) \<and> sz w = n) (np_step k c)
      (\<lambda>r w. \<exists>ok. r = Inr ok \<and> (ok \<or> \<not> renames c \<longrightarrow> np_ok w))" for n ow rf
  proof (cases c)
    case (NOpen ty p fl m)
    show ?thesis
    proof (cases "n \<le> u32_max")
      case True
      then show ?thesis unfolding NOpen np_step.simps
        by (intro triple_finished triple_weaken [OF open_spec]) (auto intro: np_okI)
    qed (auto simp: NOpen triple_def sz_def)
  next
    case (NClose fd)
    show ?thesis unfolding NClose np_step.simps
      by (intro triple_finished triple_weaken [OF close_spec [where sz = n and ow = ow and rf = rf]]) (auto intro: np_okI)
  next
    case (NRename p q)
    show ?thesis unfolding NRename np_step.simps
      by (intro triple_finished triple_weaken [OF rename_spec [where h = "owed ow rf" and sz = n and ow = ow and rf = rf]]) (auto intro: np_okI split: sum.splits)
  qed (hypsubst, unfold np_step.simps, rule triple_finished, rule np_specs [THEN triple_weaken], erule conjunct1 [OF conjunct1],
      rule impI, erule np_okI)+
  then have "triple (\<lambda>w. \<exists>n ow rf. (ready n ow rf w \<and> np_allowed w c) \<and> sz w = n) (np_step k c)
      (\<lambda>r w. \<exists>ok. r = Inr ok \<and> (ok \<or> \<not> renames c \<longrightarrow> np_ok w))" by (intro triple_ex)
  then show ?thesis by (rule triple_weaken) (auto simp: np_ok_def sz_def)
qed

lemma client_new_holding:
  assumes "client_new k sz t = Done (Inr c)"
  shows "holding (\<lambda>_. 0) c"
proof -
  obtain p where p: "new_pool = Done p" and c: "fids c = p" "handles c = (\<lambda>_. 0)" "tag_counter c = 1" "\<not> transport_failed c" "exchanges c = []"
    using assms by (auto simp: client_new_def Let_def obind_eq_Done split: prod.splits bool.splits sum.splits fcall.splits if_splits)
  have "pool_inv p \<and> used_ids p = {}" using fresh_pools(2) [of DEFAULT_MAX_CAP p] p by (simp add: new_pool_def DEFAULT_MAX_CAP_def)
  with c show ?thesis by (simp add: client_inv_def live_def NOTAG_def)
qed

lemma np_new_ok:
  assumes "np_new k t tr sz name path = Some (Done (Inr w))" and "table_inv (\<lambda>_. 0) t" and "view t = Map.empty"
  shows "np_ok w"
proof -
  obtain c q i c' where c: "client_new k sz tr = Done (Inr c)" "attach k (bytes_of name) (bytes_of path) c = Some (Done (Inr (q, i), c'))"
    and w: "np_client w = c'" "np_table w = t" "root_fid w = i" "np_cwd w = ''/''"
    using assms(1) by (auto simp: np_new_def split: outcome.splits option.splits sum.splits)
  have "holding ((\<lambda>_. 0)(i := 1)) c'"
    using tripleD(2) [OF attach_spec [where h = "\<lambda>_. 0"], OF client_new_holding [OF c(1)] c(2)] by simp
  moreover have "owners t = (\<lambda>_. {})" by (simp add: owners_def assms(3) fun_eq_iff)
  moreover have "owed (\<lambda>_. {}) i = (\<lambda>_. 0)(i := 1)" by (auto simp: owed_def)
  ultimately show ?thesis using w assms(2) by (intro np_okI [of "\<lambda>_. {}" i "length (entries t)"]) (simp add: at_def frame_def)
qed

lemma np_reach_ok: "np_reach k w \<Longrightarrow> np_ok w"
proof (induction rule: np_reach.induct)
  case (call w c ok w')
  then show ?case using tripleD(2) [OF np_step_spec [of c k], of w "Inr ok" w'] by auto
qed (rule np_new_ok)

section \<open>Calls that return\<close>









section \<open>The handles in a run\<close>

definition open_fids :: "('t, 'm) nine_fs \<Rightarrow> nat set" where
  "open_fids w = {i. owners (np_table w) i \<noteq> {}}"

lemma np_ok_handles:
  assumes "np_ok w"
  shows "handles (np_client w) i = (if i = root_fid w \<or> i \<in> open_fids w then 1 else 0)" (is ?handles)
    and "root_fid w \<notin> open_fids w" (is ?root)
    and "view (np_table w) j = Some (a, b) \<Longrightarrow> view (np_table w) j' = Some (a', b') \<Longrightarrow>
      d9_fid (any_value b) = d9_fid (any_value b') \<Longrightarrow> a = a'"
    and "client_inv (np_client w)" (is ?inv)
proof -
  let ?ow = "owners (np_table w)"
  obtain sz rf where w: "ready sz ?ow rf w" using assms by (auto simp: np_ok_def at_def frame_def)
  then have rf: "root_fid w = rf" and inv: ?inv and h: "handles (np_client w) = owed ?ow rf"
    and one: "owed ?ow rf i \<le> 1" for i
    by (auto simp: at_def frame_def)
  have c: "card (?ow i) = (if ?ow i = {} then 0 else 1)" for i
    using one [of i] finite_owners [of "np_table w" i] card_eq_0_iff [of "?ow i"] unfolding owed_def by (cases "card (?ow i)") auto
  have r: "?ow rf = {}" using one [of rf] c [of rf] by (auto simp: owed_def split: if_splits)
  show ?handles ?root ?inv using h c [of i] r rf inv by (auto simp: owed_def open_fids_def)
  assume "view (np_table w) j = Some (a, b)" "view (np_table w) j' = Some (a', b')" "d9_fid (any_value b) = d9_fid (any_value b')"
  then have "a \<in> ?ow (d9_fid (any_value b))" "a' \<in> ?ow (d9_fid (any_value b))" by (auto simp: owners_def ran_def)
  then show "a = a'" using c [of "d9_fid (any_value b)"] by (auto simp: card_1_singleton_iff split: if_splits)
qed

text \<open>Creating the root: its path has no last component.\<close>

lemma create_root_panics:
  assumes "suffix ''/'' (np_cwd w)" and "creates_root (np_cwd w) p fl"
  shows "np_open k ty p fl m w = Some Panic"
proof -
  have "contains (fl AND NOT O_NONBLOCK) O_CREAT = contains fl O_CREAT" unfolding contains_def O_CREAT_def O_NONBLOCK_def by (simp add: and.assoc)
  with assms show ?thesis
    by (auto simp: np_open_def Let_def creates_root_def andthen_def attempt_def np_absolute_path_def look_def ret_def map_err_def
        open_created_def panics_def)
qed

lemma create_slash: "creates_root cwd ''/'' O_CREAT"
  by code_simp

section \<open>A connection\<close>

text \<open>A server whose answers are known beforehand, one byte at a time.\<close>

declare await.simps [code]

definition demo_conn :: "u8 list connection" where
  "demo_conn = \<lparr>rd = byte_reader, wr = (\<lambda>t buf. (Some (length buf), t)), debug = True\<rparr>"

definition demo_qid :: qid where
  "demo_qid = \<lparr>q_typ = 0, q_version = 0, q_path = 1\<rparr>"

definition demo_start :: "tagged_fcall list \<Rightarrow> (nine_p_error + (u8 list, unit) nine_fs) outcome option" where
  "demo_start answers = np_new demo_conn new_from_litebox_creation
     (concat (map (\<lambda>m. the (encode_to_buf m))
       ([\<lparr>tag = NOTAG, fcall = Rversion 8192 version_9p\<rparr>, \<lparr>tag = 1, fcall = Rattach demo_qid\<rparr>] @ answers))) 8192 ''u'' ''/''"

lemma demo_start_reach: "demo_start as = Some (Done (Inr w)) \<Longrightarrow> np_reach demo_conn w"
  unfolding demo_start_def by (rule np_reach.start [OF _ new_table_inv view_new])

lemma demo_np_run:
  "case demo_start [\<lparr>tag = 2, fcall = Rwalk [demo_qid, demo_qid]\<rparr>, \<lparr>tag = 3, fcall = Rlopen demo_qid 0\<rparr>] of
     Some (Done (Inr w)) \<Rightarrow> np_allowed w (NOpen 1 ''/a'' 0 0) \<and>
       (case np_step demo_conn (NOpen 1 ''/a'' 0 0) w of
          Some (Done (Inr ok, w')) \<Rightarrow> ok \<and> root_fid w' = 0 \<and> \<not> transport_failed (np_client w') \<and>
            map_option (\<lambda>(a, b). d9_fid (any_value b)) (view (np_table w') 0) = Some 1
        | _ \<Rightarrow> False)
   | _ \<Rightarrow> False"
  by code_simp

lemma demo_np_reach:
  "\<exists>(w :: (u8 list, unit) nine_fs) (w' :: (u8 list, unit) nine_fs). np_reach demo_conn w \<and> np_allowed w (NOpen 1 ''/a'' 0 0) \<and> np_reach demo_conn w' \<and>
    root_fid w' = 0 \<and> 1 \<in> open_fids w' \<and> \<not> transport_failed (np_client w')"
proof -
  obtain w where w: "demo_start [\<lparr>tag = 2, fcall = Rwalk [demo_qid, demo_qid]\<rparr>, \<lparr>tag = 3, fcall = Rlopen demo_qid 0\<rparr>] = Some (Done (Inr w))"
    using demo_np_run by (auto split: option.splits outcome.splits sum.splits)
  note run = demo_np_run [unfolded w option.case outcome.case sum.case]
  then obtain ok w' where w': "np_step demo_conn (NOpen 1 ''/a'' 0 0) w = Some (Done (Inr ok, w'))"
    by (auto simp del: np_step.simps np_allowed.simps split: option.splits outcome.splits sum.splits prod.splits) (metis old.unit.exhaust sumE)
  from run have a: "np_allowed w (NOpen 1 ''/a'' 0 0)" "root_fid w' = 0" "\<not> transport_failed (np_client w')"
    "map_option (\<lambda>(a, b). d9_fid (any_value b)) (view (np_table w') 0) = Some 1"
    unfolding w' by simp_all
  from a(4) have "1 \<in> open_fids w'" by (auto simp: open_fids_def owners_def ran_def)
  with a demo_start_reach [OF w] np_reach.call [OF demo_start_reach [OF w] a(1) w'] show ?thesis by auto
qed

text \<open>
  A rename whose target directory is missing: the server still holds the fid of the source, and the client takes the
  number for free.
\<close>

lemma rename_leaves_fid:
  "case demo_start [\<lparr>tag = 2, fcall = Rwalk [demo_qid, demo_qid]\<rparr>, \<lparr>tag = 3, fcall = Rlerror 2\<rparr>] of
     Some (Done (Inr w)) \<Rightarrow>
       (case np_step demo_conn (NRename ''/a'' ''/d/b'') w of
          Some (Done (Inr ok, w')) \<Rightarrow> \<not> ok \<and> \<not> transport_failed (np_client w') \<and> 1 \<in> may_hold (exchanges (np_client w')) \<and>
            handles (np_client w') 1 = 0 \<and> \<not> in_use (fids (np_client w')) 1
        | _ \<Rightarrow> False)
   | _ \<Rightarrow> False"
  by code_simp

section \<open>Properties\<close>

text \<open>C3: The fids in use are those of the root and of the open files, however the calls went: each open file has a fid
  of its own with one handle, and the root has another. The server holds no other fid while the connection works.\<close>

theorem ninep_no_leaks:
  assumes "np_reach k w"
  shows "used_ids (fids (np_client w)) = insert (root_fid w) (open_fids w) \<and> root_fid w \<notin> open_fids w \<and>
    (\<forall>i. handles (np_client w) i = (if i = root_fid w \<or> i \<in> open_fids w then 1 else 0)) \<and>
    (\<forall>j j' a a' b b'. view (np_table w) j = Some (a, b) \<longrightarrow> view (np_table w) j' = Some (a', b') \<longrightarrow>
      d9_fid (any_value b) = d9_fid (any_value b') \<longrightarrow> a = a') \<and>
    (transport_failed (np_client w) \<or> may_hold (exchanges (np_client w)) \<subseteq> insert (root_fid w) (open_fids w))"
proof -
  note h = np_ok_handles [OF np_reach_ok [OF assms]]
  have "live (np_client w) = insert (root_fid w) (open_fids w)" using h(1) by (auto simp: live_def split: if_splits)
  with h show ?thesis by (auto simp: client_inv_def)
qed

theorem ninep_no_leaks_witness:
  "\<exists>w :: (u8 list, unit) nine_fs. np_reach demo_conn w \<and> root_fid w = 0 \<and> 1 \<in> open_fids w \<and> used_ids (fids (np_client w)) = insert 0 (open_fids w) \<and>
    0 \<notin> open_fids w \<and> handles (np_client w) 1 = 1 \<and> may_hold (exchanges (np_client w)) \<subseteq> insert 0 (open_fids w)"
proof -
  obtain w :: "(u8 list, unit) nine_fs" where w: "np_reach demo_conn w" "root_fid w = 0" "1 \<in> open_fids w" "\<not> transport_failed (np_client w)" using demo_np_reach by blast
  with ninep_no_leaks [OF w(1)] show ?thesis by (auto intro!: exI [of _ w])
qed




text \<open>C36: A walk makes one new fid and returns one qid per name, or it fails and the fids are as they were: the names go to
  the server at most sixteen at a time, and an answer that stops short is a failure.\<close>

theorem ninep_walk_outcomes:
  assumes "client_inv c" and "client_walk k fid ws c = Some (Done (r, c'))"
  shows "client_inv c' \<and>
    (case r of
       Inl e \<Rightarrow> handles c' = handles c
     | Inr (qs, i) \<Rightarrow> length qs = length ws \<and> handles c i = 0 \<and> handles c' = (handles c)(i := 1))"
  using tripleD(2) [OF walk_spec [where h = "handles c" and k = k], where s = c and r = r and s' = c'] resultsD [OF walk_qids assms(2)] assms
  by (auto split: sum.splits)

lemma demo_walk:
  "case demo_start [\<lparr>tag = 2, fcall = Rwalk [demo_qid, demo_qid]\<rparr>] of
     Some (Done (Inr w)) \<Rightarrow>
       (case client_walk demo_conn 0 [[97], [98]] (np_client w) of
          Some (Done (Inr (qs, i), c)) \<Rightarrow> i = 1
        | _ \<Rightarrow> False)
   | _ \<Rightarrow> False"
  by code_simp

theorem ninep_walk_outcomes_witness:
  "\<exists>c qs c'. client_inv c \<and> client_walk demo_conn 0 [[97], [98]] c = Some (Done (Inr (qs, 1), c')) \<and> client_inv c' \<and>
    length qs = 2 \<and> handles c 1 = 0 \<and> handles c' = (handles c)(1 := 1)"
proof -
  obtain w where w: "demo_start [\<lparr>tag = 2, fcall = Rwalk [demo_qid, demo_qid]\<rparr>] = Some (Done (Inr w))"
    using demo_walk by (auto split: option.splits outcome.splits sum.splits)
  obtain qs c' where c': "client_walk demo_conn 0 [[97], [98]] (np_client w) = Some (Done (Inr (qs, 1), c'))"
    using demo_walk [unfolded w option.case outcome.case sum.case] by (auto split: option.splits outcome.splits sum.splits)
  have "client_inv (np_client w)" using np_ok_handles(4) [OF np_reach_ok [OF demo_start_reach [OF w]]] .
  with ninep_walk_outcomes [OF this c'] c' show ?thesis by auto
qed

end
