(* ===== verification/Spec2Isabelle.thy ===== *)
theory Spec2Isabelle
  imports ArrayIndexMap IdPool LocalPorts Path RawDescriptors EventFd TimerFd PipeTable LineDiscipline Seccomp PidNs FsErrno InMemData NinePRuns
begin

text \<open>
  A verification development for litebox, a library operating system in Rust. The core crate
  \<^verbatim>\<open>litebox\<close> provides descriptors, pipes, events, paths, file systems and networking over a platform; the crate
  \<^verbatim>\<open>litebox_shim_linux\<close> implements Linux system calls on it, with the types of
  \<^verbatim>\<open>litebox_common_linux\<close>. A descriptor number of the guest goes through the raw descriptor table
  to a typed descriptor, through the descriptor table to a reference-counted entry, and there to an
  object such as a pipe end or an open file; blocking calls on objects retry when a wake-up is announced; before any
  call the filters of the thread group are consulted. A file system is one of several implementations of
  a trait: a tree of nodes in memory, or a client that asks a server in the 9P protocol.

  \<^bold>\<open>Conventions.\<close> \<open>Prelude\<close> has the result type \<open>outcome\<close> (\<open>Panic\<close> for a Rust panic, \<open>Done\<close> for a value),
  slices with bounds, checked \<open>usize\<close> arithmetic and the word types; fallible calls return a sum with the
  error on the left. Every critical section of a lock is one step. An \<open>Arc\<close> is an address into an explicit
  heap where sharing matters (\<open>SharedCells\<close>), and a blocking call takes a schedule: the states it finds
  at its successive wake-ups. Code that threads a state through many fallible calls is written with the
  combinators of \<open>Calls\<close>, where \<open>andthen\<close> is the question mark of Rust, with rules for triples of precondition, call
  and postcondition; not returning is the value \<open>None\<close>.

  \<^bold>\<open>Theories and sources\<close> (paths under src).
  \<^item> \<open>IdPool\<close>: \<^verbatim>\<open>litebox/src/utils/id_pool.rs\<close>. The scan over words of a bitmap finds what a
    next-fit scan over single identifiers finds, and no operation panics. The contract of an allocator,
    shared with the port and raw descriptor tables, is the locale in \<open>Resource\<close>.
  \<^item> \<open>FastRng\<close>: \<^verbatim>\<open>litebox/src/utils/rng.rs\<close>, bit for bit. \<open>LocalPorts\<close>:
    \<^verbatim>\<open>litebox/src/net/local_ports.rs\<close>, reference-counted ports, on top of it.
  \<^item> \<open>Path\<close>: \<^verbatim>\<open>litebox/src/path.rs\<close>, splitting, normalisation and ancestors.
  \<^item> \<open>AnyMap\<close>, \<open>Descriptors\<close>, \<open>DescriptorTable\<close>, \<open>RawDescriptors\<close>: \<^verbatim>\<open>litebox/src/utilities/anymap.rs\<close>
    and \<^verbatim>\<open>litebox/src/fd/mod.rs\<close>. Closing returns an entry exactly when nothing else refers to it;
    draining, duplication, fork and the numbering of raw descriptors.
  \<^item> \<open>ArrayIndexMap\<close>: \<^verbatim>\<open>litebox/src/utilities/array_index_map.rs\<close>. The map refines a finite map whose indices are never
    handed out twice; an insertion returns exactly when a slot can be used.
  \<^item> \<open>Errno\<close>, \<open>Flags\<close>, \<open>Wait\<close>: error numbers (\<^verbatim>\<open>litebox_common_linux/src/errno\<close>), flag words, and the
    retry loop of a blocking operation (\<^verbatim>\<open>litebox/src/event\<close>).
  \<^item> \<open>EventFd\<close>, \<open>TimerFd\<close>: \<^verbatim>\<open>syscalls/eventfd.rs\<close> and \<^verbatim>\<open>syscalls/timerfd.rs\<close> of the shim. Conservation of
    the counter, exact counts of expirations, poll flags that agree with the calls, wake-up of
    blocked readers, and what a fork carries over.
  \<^item> \<open>Pipe\<close>, \<open>PipeTable\<close>: \<^verbatim>\<open>litebox/src/pipes.rs\<close>. A pipe refines a bounded queue; atomicity and
    linearization of its operations; an end counts as gone exactly when nothing refers to it.
  \<^item> \<open>LineDiscipline\<close>: \<^verbatim>\<open>syscalls/pty_ldisc.rs\<close>. Bounds on lines, agreement of echo and line, transparency
    of raw mode.
  \<^item> \<open>Bpf\<close>, \<open>Seccomp\<close>: \<^verbatim>\<open>syscalls/seccomp.rs\<close>. Validated programs stay within bounds and every program
    stops; a stack of filters yields its most severe verdict; the textual form used across processes
    restores the state; confinement lasts over system calls, clones, forks and \<open>execve\<close>.
  \<^item> \<open>PidNs\<close>: \<^verbatim>\<open>syscalls/pidns.rs\<close>. In a namespace, numbers and processes correspond one to one, a process is known in all
    namespaces its own is nested in, and a clone changes no other number; this holds while a namespace's init is the last of it to go, and two
    lemmas show what happens when it is not, which the source allows.
  \<^item> \<open>FsTypes\<close>, \<open>FsErrno\<close>: \<^verbatim>\<open>litebox/src/fs/mod.rs\<close>, \<^verbatim>\<open>errors.rs\<close> and the conversions of the file systems' errors to
    error numbers.
  \<^item> \<open>InMemFs\<close>, \<open>InMemTree\<close>, \<open>InMemOps\<close>, \<open>InMemRuns\<close>, \<open>InMemData\<close>: \<^verbatim>\<open>litebox/src/fs/in_mem.rs\<close>. \<open>InMemFs\<close> has the
    nodes, the map from paths to them and every operation; \<open>InMemTree\<close> reads the map as a tree of names and
    shows that the walk along a path follows it; \<open>InMemOps\<close> shows what each operation does to the tree; \<open>InMemRuns\<close> that along every run
    the map is a tree that agrees with the directories' lists and with the link counts, that calls on paths do
    not panic and respect permissions, and that \<open>rename\<close> moves a subtree; \<open>InMemData\<close> has the contents of files.
  \<^item> \<open>Wire\<close>, \<open>NinePFcall\<close>: \<^verbatim>\<open>litebox/src/fs/nine_p/fcall.rs\<close>. A codec is an encoder and a decoder, and the locale
    \<open>wire_codec\<close> is their contract; every message type is built from such codecs, so messages survive encoding and
    what is accepted from a server is a proper message.
  \<^item> \<open>NinePTransport\<close>: \<^verbatim>\<open>nine_p/transport.rs\<close>. Exact reads and writes, and whole messages, over a connection that takes
    and delivers bytes in pieces.
  \<^item> \<open>NinePClient\<close>: \<^verbatim>\<open>nine_p/client.rs\<close>. The state has the pool of fids, the number of handles of each, and beside the
    source's fields the requests sent with their answers, from which \<open>may_hold\<close> reads the fids the server may
    hold. Each operation's specification says which handles it makes and gives back on every path.
  \<^item> \<open>NinePFs\<close>, \<open>NinePRuns\<close>: \<^verbatim>\<open>nine_p/mod.rs\<close>. Every operation of the trait; along every run the fids in use are
    those of the root and of the open files, every call returns without a panic when the connection delivers its bytes
    in order, and two lemmas show where this stops: creating the root panics, and a rename whose target cannot be
    reached leaves a fid with the server.
  \<^item> This theory: which error number a guest gets for a failure of a 9P server.

  \<^bold>\<open>Parameters.\<close> The ring buffer of a pipe is a record of operations with laws, met by lists; the clock of a
  timer is a locale met by the instants of the Linux userland platform; guest memory is a record of
  reads; the numbering of system calls is a function; the time and the acting thread of the in-memory file system are
  a record; a 9P connection is a record of a reader and a writer, and the two laws used of it are the locale
  \<open>lossless_writer\<close>, met by the two writers of the source, and the predicate \<open>stream_reader\<close>, met by a list of bytes. They
  stand for packages, the host, the server and guest memory.

  \<^bold>\<open>Bounds and fuel.\<close> No model uses fuel: loops are structural, or terminate by a measure (the program
  counter of a filter only grows, the line only shrinks while erasing, a path loses components, a directory read over
  9P adds entries up to a million). The one loop that a server can keep busy for ever, the wait for an answer with the
  right tag, is a partial function, and \<open>ninep_calls_return\<close> says when it returns. A
  blocking call runs along a finite schedule and reports when the schedule ends before it returns;
  the liveness properties say at which wake-up it does return. \<open>usize\<close> is 64 bits wide. A run of the in-memory file system
  goes on while there is a node number left, one of the 9P file system while there is a descriptor left, and a clone into a
  namespace is considered while its counter has not wrapped.

  \<^bold>\<open>Not modelled.\<close> The layering of file systems and the other backends (archives, devices, \<^verbatim>\<open>/proc\<close>), the marshalling of
  the system calls on files, sockets (over a third-party network
  stack), memory management (over a third-party range map), process creation and signals beyond what touches the filters, polling
  descriptors, locks and futexes, device emulation, the platforms (host calls and assembly, the Linux
  instants apart), the binary rewriter, the OP-TEE shim, runners and logging. Memory ordering of atomics is
  not modelled, and neither are two requests of one 9P client at a time: the client's lock lets one through.
\<close>

section \<open>The errors of a 9P server\<close>

text \<open>The number itself when it is one of the known ones, another one for a refusal and for a name that is too long, and
  \<open>EIO\<close> for the rest.\<close>

definition relayed :: "u32 set \<Rightarrow> errno \<Rightarrow> errno \<Rightarrow> u32 \<Rightarrow> errno" where
  "relayed known refused long n =
     (if n \<in> known then Errno (unat n) else if n = 1 \<or> n = 13 then refused else if n = 36 then long else EIO)"

text \<open>C38: Which error number a guest gets when a server refuses a call on a path: the server's own when the call knows it
  (2 is ENOENT, 17 EEXIST, 18 EXDEV, 20 ENOTDIR, 21 EISDIR, 39 ENOTEMPTY), one and the same for EPERM and EACCES, EINVAL or EIO
  for a name that is too long, and EIO for any other. Reading a directory has a number for ENOENT and ENOTDIR
  only: on any other failure the conversion panics.\<close>

theorem ninep_errors_reach_guest:
  "errno_of_open (open_error_of (Remote n)) = relayed {2, 17, 20} EACCES EINVAL n \<and>
   errno_of_mkdir (mkdir_error_of (Remote n)) = relayed {2, 17, 20} EACCES EINVAL n \<and>
   errno_of_unlink (unlink_error_of (Remote n)) = relayed {2, 20, 21} EACCES EINVAL n \<and>
   errno_of_rename (rename_error_of (Remote n)) = relayed {2, 18, 20, 21} EACCES EINVAL n \<and>
   errno_of_rmdir (rmdir_error_of (Remote n)) = relayed {2, 20, 39} EACCES EINVAL n \<and>
   errno_of_file_status (file_status_error_of (Remote n)) = relayed {2, 20} EACCES EINVAL n \<and>
   errno_of_chmod (chmod_error_of (Remote n)) = relayed {2, 20} EPERM EIO n \<and>
   errno_of_chown (chown_error_of (Remote n)) = relayed {2, 20} EPERM EIO n \<and>
   errno_of_set_times (set_times_error_of (Remote n)) = relayed {2, 20} EPERM EIO n \<and>
   errno_of_read_dir (read_dir_error_of e) = (if e = Remote 2 \<or> e = Remote 20 then Done ENOTDIR else Panic)"
  by (intro conjI; cases e;
      simp add: relayed_def errno_of_open_def errno_of_mkdir_def errno_of_unlink_def errno_of_rename_def errno_of_rmdir_def
        errno_of_file_status_def errno_of_chmod_def errno_of_chown_def errno_of_set_times_def errno_of_read_dir_def
        errno_of_path_def ENOENT_def EEXIST_def EXDEV_def ENOTDIR_def EISDIR_def ENOTEMPTY_def)

end
